(* ===== verification/Prelude.thy ===== *)
theory Prelude
  imports Complex_Main "HOL-Library.Word"
begin

text \<open>
  Rust basics shared by every component: panics and results, the integer types at
  their width, the overflow behaviour of the two build profiles, the system clock,
  strings and their formatting, and the serialisation interface. Nothing here is
  specific to rate limiting.
\<close>

named_theorems rust_simps \<open>unfolding of the Rust operations\<close>
named_theorems model_defs \<open>unfolding of small record-building definitions\<close>

section \<open>Panics and results\<close>

datatype panic = Add_Overflow | Sub_Overflow | Mul_Overflow | Div_By_Zero | Clock_Backwards

type_synonym 'a res = "panic + 'a"

definition and_then :: "'a res \<Rightarrow> ('a \<Rightarrow> 'b res) \<Rightarrow> 'b res" where
  "and_then r f = (case r of Inl p \<Rightarrow> Inl p | Inr x \<Rightarrow> f x)"

lemma and_then_Inl [simp]: "and_then (Inl p) f = Inl p"
  by (simp add: and_then_def)

lemma and_then_Inr [simp]: "and_then (Inr x) f = f x"
  by (simp add: and_then_def)

lemma and_then_eq_Inr: "and_then r f = Inr y \<longleftrightarrow> (\<exists>x. r = Inr x \<and> f x = Inr y)"
  by (cases r) auto

lemma and_then_InrE [elim]:
  assumes "and_then r f = Inr y"
  obtains x where "r = Inr x" and "f x = Inr y"
  using assms by (auto simp: and_then_eq_Inr)

section \<open>Integers\<close>

text \<open>
  \<open>u32\<close> and \<open>u64\<close> are words. \<open>i64\<close> is \<open>int\<close>: every operation on it writes its range
  check or wrap-around out. The flag \<open>oc\<close> of the arithmetic below is the profile's
  \<open>overflow-checks\<close>: with it (debug) an overflow panics, without it (release) it wraps.
\<close>

type_synonym u8 = "8 word"
type_synonym u32 = "32 word"
type_synonym u64 = "64 word"
type_synonym i64 = int
type_synonym bytes = "u8 list"

definition is_i64 :: "int \<Rightarrow> bool" where
  "is_i64 x \<longleftrightarrow> - (2 ^ 63) \<le> x \<and> x < 2 ^ 63"

definition wrap_i64 :: "int \<Rightarrow> i64" where
  "wrap_i64 x = (x + 2 ^ 63) mod 2 ^ 64 - 2 ^ 63"

definition u64_add :: "bool \<Rightarrow> u64 \<Rightarrow> u64 \<Rightarrow> u64 res" where
  "u64_add oc a b = (if unat a + unat b < 2 ^ 64 \<or> \<not> oc then Inr (a + b) else Inl Add_Overflow)"

definition u64_mul :: "bool \<Rightarrow> u64 \<Rightarrow> u64 \<Rightarrow> u64 res" where
  "u64_mul oc a b = (if unat a * unat b < 2 ^ 64 \<or> \<not> oc then Inr (a * b) else Inl Mul_Overflow)"

definition u64_div :: "u64 \<Rightarrow> u64 \<Rightarrow> u64 res" where
  "u64_div a b = (if b = 0 then Inl Div_By_Zero else Inr (a div b))"

definition u64_rem :: "u64 \<Rightarrow> u64 \<Rightarrow> u64 res" where
  "u64_rem a b = (if b = 0 then Inl Div_By_Zero else Inr (a mod b))"

definition saturating_sub :: "u64 \<Rightarrow> u64 \<Rightarrow> u64" where
  "saturating_sub a b = (if b \<le> a then a - b else 0)"

definition i64_add :: "bool \<Rightarrow> i64 \<Rightarrow> i64 \<Rightarrow> i64 res" where
  "i64_add oc a b = (if is_i64 (a + b) then Inr (a + b)
     else if oc then Inl Add_Overflow else Inr (wrap_i64 (a + b)))"

definition i64_sub :: "bool \<Rightarrow> i64 \<Rightarrow> i64 \<Rightarrow> i64 res" where
  "i64_sub oc a b = (if is_i64 (a - b) then Inr (a - b)
     else if oc then Inl Sub_Overflow else Inr (wrap_i64 (a - b)))"

definition i64_div :: "i64 \<Rightarrow> i64 \<Rightarrow> i64" where
  \<comment> \<open>division by a positive constant: Rust truncates towards zero\<close>
  "i64_div a b = sgn a * (\<bar>a\<bar> div b)"

definition u32_as_u64 :: "u32 \<Rightarrow> u64" where
  "u32_as_u64 c = ucast c"

definition u64_as_i64 :: "u64 \<Rightarrow> i64" where
  "u64_as_i64 w = sint w"

definition len_as_u64 :: "'a list \<Rightarrow> u64" where
  "len_as_u64 xs = word_of_nat (length xs)"

subsection \<open>Facts about the integer operations\<close>

lemma unat_succ: "unat w < 2 ^ 63 \<Longrightarrow> unat (w + 1 :: u64) = Suc (unat w)"
  by (simp add: unat_word_ariths)

lemma wrap_i64_id: "is_i64 x \<Longrightarrow> wrap_i64 x = x"
  by (simp add: is_i64_def wrap_i64_def)

lemma is_i64_wrap: "is_i64 (wrap_i64 x)"
proof -
  have "0 \<le> (x + 9223372036854775808) mod 18446744073709551616"
    and "(x + 9223372036854775808) mod 18446744073709551616 < 18446744073709551616"
    by simp_all
  then show ?thesis by (simp add: is_i64_def wrap_i64_def)
qed

lemma i64_add_exact [simp]: "is_i64 (a + b) \<Longrightarrow> i64_add oc a b = Inr (a + b)"
  by (simp add: i64_add_def)

lemma i64_sub_exact [simp]: "is_i64 (a - b) \<Longrightarrow> i64_sub oc a b = Inr (a - b)"
  by (simp add: i64_sub_def)

lemma unat_u32_as_u64 [simp]: "unat (u32_as_u64 c) = unat c"
  by (simp add: u32_as_u64_def unsigned_ucast_eq take_bit_nat_eq_self_iff
      order_less_le_trans [OF unsigned_less])

lemma unat_u64_add: "unat a + unat b < 2 ^ 64 \<Longrightarrow> unat (a + b :: u64) = unat a + unat b"
  by (simp add: unat_word_ariths)

lemma unat_u64_mul: "unat a * unat b < 2 ^ 64 \<Longrightarrow> unat (a * b :: u64) = unat a * unat b"
  by (simp add: unat_word_ariths)

lemma u64_add_exact: "unat a + unat b < 2 ^ 64 \<Longrightarrow> u64_add oc a b = Inr (a + b)"
  by (simp add: u64_add_def)

lemma u64_mul_exact: "unat a * unat b < 2 ^ 64 \<Longrightarrow> u64_mul oc a b = Inr (a * b)"
  by (simp add: u64_mul_def)

lemma unat_saturating_sub [simp]: "unat (saturating_sub a b) = unat a - unat b"
  by (auto simp: saturating_sub_def unat_sub word_le_nat_alt)

lemma is_i64_u64_as_i64 [simp]: "is_i64 (u64_as_i64 w)"
  using sint_greater_eq [of w] sint_less [of w] by (simp add: is_i64_def u64_as_i64_def)

lemma u64_as_i64_small:
  assumes "unat w < 2 ^ 63"
  shows "u64_as_i64 w = int (unat w)"
proof -
  have "int (unat w) < 2 ^ 63"
    using assms by (simp only: of_nat_less_numeral_power_cancel_iff)
  then have u: "uint w < 2 ^ 63" by (simp only: of_nat_unat)
  then have "signed_take_bit 63 (uint w) = uint w"
    by (intro signed_take_bit_int_eq_self) (auto intro: order_trans [OF _ uint_ge_0])
  then show ?thesis
    by (simp add: u64_as_i64_def sint_uint del: of_nat_unat) (simp only: of_nat_unat)
qed

lemma u64_as_i64_saturating_sub:
  assumes "unat a < 2 ^ 63"
  shows "u64_as_i64 (saturating_sub a b) = int (unat a - unat b)"
  using less_imp_diff_less [OF assms, of "unat b"] by (subst u64_as_i64_small) simp_all

section \<open>The system clock\<close>

text \<open>
  A reading of \<open>SystemTime::now()\<close> is the number of nanoseconds since the Unix epoch,
  negative for a clock set before it. \<open>duration_since(UNIX_EPOCH)\<close> fails on those.
\<close>

type_synonym sys_time = int

definition duration_since_epoch :: "sys_time \<Rightarrow> nat option" where
  "duration_since_epoch t = (if t < 0 then None else Some (nat t))"

definition as_secs :: "nat \<Rightarrow> u64" where
  "as_secs d = word_of_nat (d div 10 ^ 9)"

definition as_millis :: "nat \<Rightarrow> nat" where
  "as_millis d = d div 10 ^ 6"

definition u128_as_i64 :: "nat \<Rightarrow> i64" where
  "u128_as_i64 n = wrap_i64 (int n)"

definition expect_duration :: "sys_time \<Rightarrow> nat res" where
  "expect_duration t = (case duration_since_epoch t of None \<Rightarrow> Inl Clock_Backwards | Some d \<Rightarrow> Inr d)"

lemma expect_duration_nonneg [simp]: "0 \<le> t \<Longrightarrow> expect_duration t = Inr (nat t)"
  by (simp add: expect_duration_def duration_since_epoch_def)

lemma expect_duration_Inr: "expect_duration t = Inr d \<longleftrightarrow> 0 \<le> t \<and> d = nat t"
  by (auto simp: expect_duration_def duration_since_epoch_def)

text \<open>
  \<open>clock_ok\<close>: a clock not before the epoch whose milliseconds are below \<open>2 ^ 62\<close> (until
  the year 146 million). \<open>secs\<close> and \<open>msecs\<close> are such a reading in seconds and milliseconds.
\<close>

definition clock_ok :: "sys_time \<Rightarrow> bool" where
  "clock_ok t \<longleftrightarrow> 0 \<le> t \<and> t < 2 ^ 62 * 10 ^ 6"

definition secs :: "sys_time \<Rightarrow> nat" where
  "secs t = nat t div 10 ^ 9"

definition msecs :: "sys_time \<Rightarrow> int" where
  "msecs t = t div 10 ^ 6"

lemma clock_ok_nonneg: "clock_ok t \<Longrightarrow> 0 \<le> t"
  by (simp add: clock_ok_def)

lemma clock_ok_secs: "clock_ok t \<Longrightarrow> 1000 * secs t < 2 ^ 63"
  unfolding clock_ok_def secs_def by auto

lemma clock_ok_secs_small: "clock_ok t \<Longrightarrow> secs t < 2 ^ 62"
  using clock_ok_secs [of t] by simp

lemma as_secs_secs: "clock_ok t \<Longrightarrow> unat (as_secs (nat t)) = secs t"
  using clock_ok_secs [of t]
  by (simp only: as_secs_def secs_def [symmetric] unat_of_nat) simp

lemma msecs_range: "clock_ok t \<Longrightarrow> 0 \<le> msecs t \<and> msecs t < 2 ^ 62"
  by (auto simp: clock_ok_def msecs_def)

lemma as_millis_msecs: "clock_ok t \<Longrightarrow> u128_as_i64 (as_millis (nat t)) = msecs t"
  using msecs_range [of t]
  by (simp add: u128_as_i64_def as_millis_def msecs_def clock_ok_def zdiv_int wrap_i64_id is_i64_def)

lemma secs_mono: "t \<le> t' \<Longrightarrow> secs t \<le> secs t'"
  by (simp add: secs_def div_le_mono nat_mono)

lemma msecs_mono: "t \<le> t' \<Longrightarrow> msecs t \<le> msecs t'"
  by (simp add: msecs_def zdiv_mono1)

lemma next_multiple:
  fixes n s :: nat
  assumes "0 < s"
  shows "n < Suc (n div s) * s" and "Suc (n div s) * s \<le> n + s"
  using dividend_less_div_times [OF assms, of n] by (simp_all add: add.commute)

section \<open>Strings\<close>

text \<open>
  A Rust string is its UTF-8 bytes, here a list of characters (8 bits each).
  \<open>em_dash\<close> is the three-byte encoding of U+2014, which the reason strings contain.
\<close>

definition em_dash :: string where
  "em_dash = [char_of (226::nat), char_of (128::nat), char_of (148::nat)]"

definition digit :: "nat \<Rightarrow> char" where
  "digit d = char_of (48 + d)"

fun show_nat :: "nat \<Rightarrow> string" where
  "show_nat n = (if n < 10 then [digit n] else show_nat (n div 10) @ [digit (n mod 10)])"

declare show_nat.simps [simp del]

definition show_int :: "int \<Rightarrow> string" where
  "show_int i = (if i < 0 then ''-'' @ show_nat (nat (- i)) else show_nat (nat i))"

definition show_u64 :: "u64 \<Rightarrow> string" where
  "show_u64 w = show_nat (unat w)"

definition show_bool :: "bool \<Rightarrow> string" where
  "show_bool b = (if b then ''true'' else ''false'')"

lemma of_char_digit: "d < 10 \<Longrightarrow> of_char (digit d) = 48 + d"
  by (simp add: digit_def of_char_of)

lemma digit_inject: "d < 10 \<Longrightarrow> e < 10 \<Longrightarrow> digit d = digit e \<Longrightarrow> d = e"
  by (metis add_left_cancel of_char_digit)

lemma show_nat_not_Nil [simp]: "show_nat n \<noteq> []" "[] \<noteq> show_nat n"
  by (subst show_nat.simps, simp)+

lemma show_nat_inject: "show_nat m = show_nat n \<Longrightarrow> m = n"
proof (induction m arbitrary: n rule: show_nat.induct)
  case (1 m)
  have mod10: "m mod 10 < 10" "n mod 10 < 10" by simp_all
  show ?case
  proof (cases "m < 10 \<or> n < 10")
    case True
    with "1.prems" show ?thesis
      by (auto simp: show_nat.simps [of m] show_nat.simps [of n] append_eq_Cons_conv
          split: if_splits dest: digit_inject)
  next
    case False
    with "1.prems" have "show_nat (m div 10) = show_nat (n div 10)"
      and "digit (m mod 10) = digit (n mod 10)"
      by (simp_all add: show_nat.simps [of m] show_nat.simps [of n])
    with "1.IH" False digit_inject [OF mod10] have "m div 10 = n div 10" and "m mod 10 = n mod 10"
      by auto
    then show ?thesis by (metis div_mult_mod_eq)
  qed
qed

section \<open>Serialisation\<close>

text \<open>
  \<open>serde_json\<close> is not part of the repository. A \<open>codec\<close> stands for
  \<open>serde_json::to_vec\<close> and \<open>serde_json::from_slice\<close> at one derived type; what a theorem
  needs of it is a hypothesis of that theorem.
\<close>

record 'st codec =
  to_vec :: "'st \<Rightarrow> bytes"
  from_slice :: "bytes \<Rightarrow> 'st option"

definition codec_roundtrip :: "'st codec \<Rightarrow> bool" where
  "codec_roundtrip C \<longleftrightarrow> (\<forall>s. from_slice C (to_vec C s) = Some s)"

definition decode_or :: "'st codec \<Rightarrow> 'st \<Rightarrow> bytes option \<Rightarrow> 'st" where
  \<comment> \<open>\<open>from_slice(..).unwrap_or(default)\<close> on a present key, \<open>default\<close> on an absent one\<close>
  "decode_or C def raw =
     (case raw of None \<Rightarrow> def
      | Some b \<Rightarrow> (case from_slice C b of None \<Rightarrow> def | Some s \<Rightarrow> s))"

lemma decode_or_None [simp]: "decode_or C d None = d"
  by (simp add: decode_or_def)

lemma decode_or_to_vec [simp]: "codec_roundtrip C \<Longrightarrow> decode_or C d (Some (to_vec C s)) = s"
  by (simp add: decode_or_def codec_roundtrip_def)

end
