(* ===== verification/F64.thy ===== *)
theory F64
  imports Prelude
begin

text \<open>
  Rust's \<open>f64\<close>: IEEE 754 binary64 with round-to-nearest-even. A finite float is the rational
  it denotes; negative zero, the infinities and NaN are separate values. Every operation is
  executable. The lemmas give what the algorithms need: rounding is monotone, keeps
  representable values, keeps integers up to \<open>2 ^ 53\<close> and has a relative error of \<open>2 ^ -53\<close>.
\<close>

section \<open>Rounding\<close>

function ilog2 :: "int \<Rightarrow> nat" where
  "ilog2 n = (if n < 2 then 0 else Suc (ilog2 (n div 2)))"
  by auto
termination by (relation "measure nat") auto

declare ilog2.simps [simp del]

definition pow2 :: "int \<Rightarrow> rat" where
  "pow2 e = 2 powi e"

definition flog2 :: "rat \<Rightarrow> int" where
  \<comment> \<open>the exponent of a positive number\<close>
  "flog2 x = (case quotient_of x of (n, d) \<Rightarrow>
     let k = int (ilog2 n) - int (ilog2 d) in if pow2 k \<le> x then k else k - 1)"

definition half_even :: "rat \<Rightarrow> int" where
  "half_even x = (let f = \<lfloor>x\<rfloor>; r = x - of_int f in
     if r < 1 / 2 then f else if 1 / 2 < r then f + 1 else if even f then f else f + 1)"

definition quantum :: "rat \<Rightarrow> rat" where
  \<comment> \<open>the distance between neighbouring floats at a positive number\<close>
  "quantum x = pow2 (max (- 1074) (flog2 x - 52))"

definition round_mag :: "rat \<Rightarrow> rat" where
  "round_mag x = (if x \<le> 0 then 0 else of_int (half_even (x / quantum x)) * quantum x)"

definition round_rat :: "rat \<Rightarrow> rat" where
  "round_rat x = (if 0 \<le> x then round_mag x else - round_mag (- x))"

subsection \<open>Powers of two and logarithms\<close>

lemma pow2_pos [simp]: "0 < pow2 e"
  by (simp add: pow2_def)

lemma pow2_nonneg [simp]: "0 \<le> pow2 e"
  by (simp add: pow2_def)

lemma pow2_neq_0 [simp]: "pow2 e \<noteq> 0"
  by (simp add: pow2_def)

lemma pow2_add: "pow2 (a + b) = pow2 a * pow2 b"
  by (simp add: pow2_def power_int_add)

lemma pow2_Suc: "pow2 (e + 1) = 2 * pow2 e"
  by (simp add: pow2_def power_int_add)

lemma pow2_nat: "pow2 (int n) = 2 ^ n"
  by (simp add: pow2_def)

lemma pow2_diff: "pow2 (a - b) = pow2 a / pow2 b"
  by (simp add: pow2_def power_int_diff)

lemma pow2_strict_mono [simp]: "pow2 a < pow2 b \<longleftrightarrow> a < b"
proof -
  have less: "a < b \<Longrightarrow> pow2 a < pow2 b" for a b
    by (simp add: pow2_def power_int_strict_increasing)
  then show ?thesis by (metis linorder_neqE_linordered_idom order_less_asym order_less_irrefl)
qed

lemma pow2_mono [simp]: "pow2 a \<le> pow2 b \<longleftrightarrow> a \<le> b"
  using pow2_strict_mono [of b a] by (simp only: not_less [symmetric])

lemma pow2_numeral [simp]:
  "pow2 0 = 1" "pow2 1 = 2" "pow2 (numeral k) = 2 ^ numeral k" "pow2 (- numeral k) = 1 / 2 ^ numeral k"
  by (simp_all add: pow2_def power_int_minus field_simps)

lemma ilog2_bounds: "0 < n \<Longrightarrow> 2 ^ ilog2 n \<le> n \<and> n < 2 ^ Suc (ilog2 n)"
proof (induction n rule: ilog2.induct)
  case (1 n)
  show ?case
  proof (cases "n < 2")
    case True
    with 1 show ?thesis by (simp add: ilog2.simps [of n])
  next
    case False
    with 1 have "2 ^ ilog2 (n div 2) \<le> n div 2 \<and> n div 2 < 2 ^ Suc (ilog2 (n div 2))" by auto
    with False show ?thesis by (auto simp: ilog2.simps [of n])
  qed
qed

lemma flog2_bounds:
  assumes "0 < x"
  shows "pow2 (flog2 x) \<le> x" and "x < pow2 (flog2 x + 1)"
proof -
  obtain n d where q: "quotient_of x = (n, d)" by fastforce
  have d: "0 < d" using quotient_of_denom_pos [OF q] .
  have x: "x = of_int n / of_int d" by (rule quotient_of_div [OF q])
  then have n: "0 < n" using assms d by (simp add: zero_less_divide_iff)
  let ?a = "ilog2 n" and ?b = "ilog2 d"
  let ?k = "int ?a - int ?b"
  have N: "2 ^ ?a \<le> (of_int n :: rat) \<and> (of_int n :: rat) < 2 ^ Suc ?a"
  proof -
    have "of_int (2 ^ ?a) \<le> (of_int n :: rat) \<and> (of_int n :: rat) < of_int (2 ^ Suc ?a)"
      using ilog2_bounds [OF n] by (simp only: of_int_le_iff of_int_less_iff)
    then show ?thesis by simp
  qed
  have D: "2 ^ ?b \<le> (of_int d :: rat) \<and> (of_int d :: rat) < 2 ^ Suc ?b"
  proof -
    have "of_int (2 ^ ?b) \<le> (of_int d :: rat) \<and> (of_int d :: rat) < of_int (2 ^ Suc ?b)"
      using ilog2_bounds [OF d] by (simp only: of_int_le_iff of_int_less_iff)
    then show ?thesis by simp
  qed
  have upper: "x < pow2 (?k + 1)"
  proof -
    have "x * 2 ^ ?b \<le> x * of_int d" using D assms by (intro mult_left_mono) simp_all
    also have "\<dots> = of_int n" using x d by simp
    also have "\<dots> < 2 ^ Suc ?a" using N by simp
    finally have "x < 2 * (2 ^ ?a / 2 ^ ?b)" by (simp add: field_simps)
    then show ?thesis by (simp only: pow2_Suc pow2_diff pow2_nat)
  qed
  have lower: "pow2 (?k - 1) < x"
  proof -
    have "(2 :: rat) ^ ?a \<le> x * of_int d" using N x d by simp
    also have "\<dots> < x * 2 ^ Suc ?b" using D assms by (intro mult_strict_left_mono) simp_all
    finally have "2 ^ ?a / 2 ^ ?b / 2 < x" by (simp add: field_simps)
    then show ?thesis by (simp only: pow2_diff pow2_nat pow2_numeral)
  qed
  show "pow2 (flog2 x) \<le> x" "x < pow2 (flog2 x + 1)"
    using upper lower by (simp_all add: flog2_def q Let_def)
qed

lemma flog2_unique: "pow2 e \<le> x \<Longrightarrow> x < pow2 (e + 1) \<Longrightarrow> flog2 x = e"
proof -
  assume e: "pow2 e \<le> x" "x < pow2 (e + 1)"
  then have "0 < x" using pow2_pos [of e] by linarith
  from flog2_bounds [OF this] e have "pow2 e < pow2 (flog2 x + 1)" "pow2 (flog2 x) < pow2 (e + 1)"
    by linarith+
  then show ?thesis by simp
qed

lemma flog2_mono:
  assumes "0 < x" "x \<le> y"
  shows "flog2 x \<le> flog2 y"
proof -
  have "pow2 (flog2 x) < pow2 (flog2 y + 1)"
    using flog2_bounds(1) [OF assms(1)] flog2_bounds(2) [of y] assms by linarith
  then show ?thesis by simp
qed

lemma half_even_bounds: "of_int (half_even x) - x \<le> 1 / 2" "x - of_int (half_even x) \<le> 1 / 2"
  by (simp_all add: half_even_def Let_def) linarith+

lemma half_even_int [simp]: "half_even (of_int k) = k"
  by (simp add: half_even_def)

lemma half_even_mono:
  assumes "x \<le> y"
  shows "half_even x \<le> half_even y"
proof (cases "\<lfloor>x\<rfloor> = \<lfloor>y\<rfloor>")
  case True
  with assms show ?thesis by (auto simp: half_even_def Let_def)
next
  case False
  with floor_mono [OF assms] have "\<lfloor>x\<rfloor> + 1 \<le> \<lfloor>y\<rfloor>" by linarith
  moreover have "half_even x \<le> \<lfloor>x\<rfloor> + 1" "\<lfloor>y\<rfloor> \<le> half_even y"
    by (auto simp: half_even_def Let_def)
  ultimately show ?thesis by linarith
qed

subsection \<open>The rounding function\<close>

definition representable :: "rat \<Rightarrow> bool" where
  \<comment> \<open>a binary64 value, its range aside\<close>
  "representable x \<longleftrightarrow> (\<exists>m q. x = of_int m * pow2 q \<and> \<bar>m\<bar> \<le> 2 ^ 53 \<and> - 1074 \<le> q)"

lemma quantum_pos [simp]: "0 < quantum x"
  by (simp add: quantum_def)

lemma quantum_neq_0 [simp]: "quantum x \<noteq> 0"
  by (simp add: quantum_def)

lemma half_even_nonneg: "0 \<le> x \<Longrightarrow> 0 \<le> half_even x"
  using half_even_mono [of 0 x] half_even_int [of 0] by simp

lemma round_mag_nonneg: "0 \<le> round_mag x"
  by (simp add: round_mag_def half_even_nonneg order_less_imp_le)

lemma round_mag_error:
  assumes "0 \<le> x"
  shows "\<bar>round_mag x - x\<bar> \<le> quantum x / 2"
proof (cases "x = 0")
  case False
  with assms have "0 < x" by simp
  have "\<bar>of_int (half_even (x / quantum x)) - x / quantum x\<bar> \<le> 1 / 2"
    using half_even_bounds [of "x / quantum x"] by linarith
  then have "\<bar>of_int (half_even (x / quantum x)) - x / quantum x\<bar> * quantum x \<le> 1 / 2 * quantum x"
    by (intro mult_right_mono) (simp_all add: order_less_imp_le)
  moreover have "\<bar>of_int (half_even (x / quantum x)) - x / quantum x\<bar> * quantum x
      = \<bar>(of_int (half_even (x / quantum x)) - x / quantum x) * quantum x\<bar>"
    by (simp add: abs_mult order_less_imp_le)
  ultimately show ?thesis
    using \<open>0 < x\<close> by (simp add: round_mag_def left_diff_distrib)
qed (simp add: round_mag_def order_less_imp_le)

lemma quantum_bound:
  assumes "0 < x"
  shows "quantum x \<le> max (pow2 (- 1074)) (x * pow2 (- 52))"
proof -
  have "pow2 (flog2 x - 52) \<le> x * pow2 (- 52)"
    using flog2_bounds(1) [OF assms] by (simp add: pow2_diff)
  then show ?thesis by (auto simp: quantum_def max_def)
qed

text \<open>A representable number is a multiple of its quantum, so rounding keeps it.\<close>

lemma round_mag_multiple:
  assumes "0 < x" "x = of_int m * pow2 q" "max (- 1074) (flog2 x - 52) \<le> q"
  shows "round_mag x = x"
proof -
  let ?e = "max (- 1074) (flog2 x - 52)"
  have "pow2 q = of_int (2 ^ nat (q - ?e)) * pow2 ?e"
    using assms(3) pow2_add [of "q - ?e" ?e] pow2_nat [of "nat (q - ?e)"] by simp
  then have "x = of_int (m * 2 ^ nat (q - ?e)) * quantum x"
    using assms(2) by (simp add: quantum_def)
  then show ?thesis
    using assms(1) by (metis half_even_int nonzero_mult_div_cancel_right not_le order_less_irrefl
        quantum_pos round_mag_def)
qed

lemma round_mag_representable:
  assumes "0 \<le> x" "representable x"
  shows "round_mag x = x"
proof (cases "x = 0")
  case False
  with assms(1) have x: "0 < x" by simp
  from assms(2) obtain m q where mq: "x = of_int m * pow2 q" "\<bar>m\<bar> \<le> 2 ^ 53" "- 1074 \<le> q"
    by (auto simp: representable_def)
  show ?thesis
  proof (cases "\<bar>m\<bar> = 2 ^ 53")
    case True
    with x mq have "m = 2 ^ 53"
      by (metis abs_of_nonneg abs_of_neg linorder_not_less mult_less_0_iff of_int_less_0_iff
          order_less_asym pow2_pos)
    with mq(1) have pow: "x = pow2 (53 + q)" by (simp add: pow2_add)
    then have "flog2 x = 53 + q" by (intro flog2_unique) simp_all
    moreover have "x = of_int 2 * pow2 (52 + q)" by (simp add: pow pow2_add)
    ultimately show ?thesis
      using mq(3) round_mag_multiple [OF x, of 2 "52 + q"]
        round_mag_multiple [OF x, of 1 "53 + q"] pow by simp
  next
    case False
    with mq(2) have "\<bar>m\<bar> < 2 ^ 53" by simp
    then have "(of_int \<bar>m\<bar> :: rat) < of_int (2 ^ 53)" by (simp only: of_int_less_iff)
    moreover have "of_int m \<le> (of_int \<bar>m\<bar> :: rat)" by simp
    ultimately have "x < 2 ^ 53 * pow2 q" unfolding mq(1) by (intro mult_strict_right_mono) simp_all
    then have "pow2 (flog2 x) < pow2 (53 + q)"
      using flog2_bounds(1) [OF x] by (simp add: pow2_add)
    then have "flog2 x - 52 \<le> q" by simp
    with mq(1,3) show ?thesis by (intro round_mag_multiple [OF x]) simp_all
  qed
qed (simp add: round_mag_def)

lemma representable_pow2: "- 1074 \<le> e \<Longrightarrow> representable (pow2 e)"
  unfolding representable_def by (intro exI [of _ 1] exI [of _ e]) simp

lemma representable_int: "\<bar>k\<bar> \<le> 2 ^ 53 \<Longrightarrow> representable (of_int k)"
  unfolding representable_def by (intro exI [of _ k] exI [of _ 0]) simp

lemma representable_nat: "n \<le> 2 ^ 53 \<Longrightarrow> representable (of_nat n)"
  using representable_int [of "int n"]
  by (metis abs_of_nat of_int_of_nat_eq of_nat_le_numeral_power_cancel_iff)

lemma round_mag_below_pow2:
  assumes "0 < x" "x \<le> pow2 e" "- 1074 \<le> e" "flog2 x < e"
  shows "round_mag x \<le> pow2 e"
proof -
  let ?q = "max (- 1074) (flog2 x - 52)"
  have "?q \<le> e" using assms(3,4) by simp
  then have p: "pow2 e = of_int (2 ^ nat (e - ?q)) * quantum x"
    using pow2_add [of "e - ?q" ?q] pow2_nat [of "nat (e - ?q)"] by (simp add: quantum_def)
  have "x / quantum x \<le> of_int (2 ^ nat (e - ?q))"
    using assms(2) unfolding p by (simp add: divide_le_eq)
  from half_even_mono [OF this] have "half_even (x / quantum x) \<le> 2 ^ nat (e - ?q)"
    by (simp only: half_even_int)
  then have "of_int (half_even (x / quantum x)) \<le> (of_int (2 ^ nat (e - ?q)) :: rat)"
    by (simp only: of_int_le_iff)
  then have "of_int (half_even (x / quantum x)) * quantum x \<le> of_int (2 ^ nat (e - ?q)) * quantum x"
    by (intro mult_right_mono) (simp_all add: order_less_imp_le)
  then show ?thesis using assms(1) unfolding p by (simp add: round_mag_def)
qed

lemma round_mag_above_pow2:
  assumes "pow2 (flog2 x) \<le> x" "- 1074 \<le> flog2 x" "0 < x"
  shows "pow2 (flog2 x) \<le> round_mag x"
proof -
  let ?q = "max (- 1074) (flog2 x - 52)"
  have "?q \<le> flog2 x" using assms(2) by simp
  then have p: "pow2 (flog2 x) = of_int (2 ^ nat (flog2 x - ?q)) * quantum x"
    using pow2_add [of "flog2 x - ?q" ?q] pow2_nat [of "nat (flog2 x - ?q)"] by (simp add: quantum_def)
  have "of_int (2 ^ nat (flog2 x - ?q)) \<le> x / quantum x"
    using assms(1) unfolding p by (simp add: le_divide_eq)
  from half_even_mono [OF this] have "2 ^ nat (flog2 x - ?q) \<le> half_even (x / quantum x)"
    by (simp only: half_even_int)
  then have "(of_int (2 ^ nat (flog2 x - ?q)) :: rat) \<le> of_int (half_even (x / quantum x))"
    by (simp only: of_int_le_iff)
  then have "of_int (2 ^ nat (flog2 x - ?q)) * quantum x \<le> of_int (half_even (x / quantum x)) * quantum x"
    by (intro mult_right_mono) (simp_all add: order_less_imp_le)
  then show ?thesis using assms(3) unfolding p by (simp add: round_mag_def)
qed

lemma round_mag_mono:
  assumes "x \<le> y"
  shows "round_mag x \<le> round_mag y"
proof (cases "0 < x")
  case False
  then show ?thesis by (simp add: round_mag_def [of x] round_mag_nonneg)
next
  case x: True
  with assms have y: "0 < y" by simp
  show ?thesis
  proof (cases "max (- 1074) (flog2 x - 52) = max (- 1074) (flog2 y - 52)")
    case True
    then have q: "quantum x = quantum y" by (simp add: quantum_def)
    have "half_even (x / quantum y) \<le> half_even (y / quantum y)"
      using assms by (intro half_even_mono divide_right_mono) (simp_all add: order_less_imp_le)
    then have "of_int (half_even (x / quantum y)) * quantum y \<le> of_int (half_even (y / quantum y)) * quantum y"
      by (intro mult_right_mono) (simp_all add: order_less_imp_le)
    then show ?thesis using x y by (simp add: round_mag_def q)
  next
    case False
    with flog2_mono [OF x assms] have e: "flog2 x < flog2 y" "- 1074 \<le> flog2 y" by linarith+
    then have "x \<le> pow2 (flog2 y)"
      using flog2_bounds(2) [OF x] pow2_mono [of "flog2 x + 1" "flog2 y"] by linarith
    from round_mag_below_pow2 [OF x this e(2,1)] round_mag_above_pow2 [OF flog2_bounds(1) [OF y] e(2) y]
    show ?thesis by linarith
  qed
qed

lemma representable_uminus [simp]: "representable (- x) \<longleftrightarrow> representable x"
proof -
  have "representable x \<Longrightarrow> representable (- x)" for x
    unfolding representable_def by (metis abs_minus_cancel mult_minus_left of_int_minus)
  from this [of x] this [of "- x"] show ?thesis by auto
qed

lemma representable_round_mag: "representable (round_mag x)"
proof (cases "0 < x")
  case False
  then show ?thesis using representable_int [of 0] by (simp add: round_mag_def)
next
  case True
  have "x < pow2 53 * quantum x"
  proof -
    have "x < pow2 (53 + (flog2 x - 52))" using flog2_bounds(2) [OF True] by (simp add: add.commute)
    also have "\<dots> = pow2 53 * pow2 (flog2 x - 52)" by (rule pow2_add)
    also have "\<dots> \<le> pow2 53 * quantum x"
      by (intro mult_left_mono) (simp_all add: quantum_def)
    finally show ?thesis .
  qed
  then have "x / quantum x \<le> of_int (2 ^ 53)" by (simp add: divide_le_eq)
  from half_even_mono [OF this] have le: "half_even (x / quantum x) \<le> 2 ^ 53"
    by (simp only: half_even_int)
  have "0 \<le> half_even (x / quantum x)"
    using True by (intro half_even_nonneg) (simp add: order_less_imp_le)
  with le True show ?thesis
    unfolding representable_def
    by (intro exI [of _ "half_even (x / quantum x)"] exI [of _ "max (- 1074) (flog2 x - 52)"])
      (simp add: round_mag_def quantum_def)
qed

lemma representable_round_rat: "representable (round_rat x)"
  by (simp add: round_rat_def representable_round_mag)

lemma round_rat_0 [simp]: "round_rat 0 = 0"
  by (simp add: round_rat_def round_mag_def)

lemma round_rat_representable: "representable x \<Longrightarrow> round_rat x = x"
  using round_mag_representable [of x] round_mag_representable [of "- x"]
  by (auto simp: round_rat_def)

lemma round_rat_mono: "x \<le> y \<Longrightarrow> round_rat x \<le> round_rat y"
  using round_mag_mono [of x y] round_mag_mono [of "- y" "- x"] round_mag_nonneg [of y]
    round_mag_nonneg [of "- x"]
  by (auto simp: round_rat_def)

lemma round_rat_nonneg: "0 \<le> x \<Longrightarrow> 0 \<le> round_rat x"
  using round_rat_mono [of 0 x] by simp

lemma round_rat_le: "representable y \<Longrightarrow> x \<le> y \<Longrightarrow> round_rat x \<le> y"
  using round_rat_mono [of x y] by (simp add: round_rat_representable)

lemma round_rat_ge: "representable y \<Longrightarrow> y \<le> x \<Longrightarrow> y \<le> round_rat x"
  using round_rat_mono [of y x] by (simp add: round_rat_representable)

definition unit_error :: "rat \<Rightarrow> rat" where
  \<comment> \<open>what one rounding can change at a magnitude: a relative \<open>2 ^ -53\<close>, and half the least float\<close>
  "unit_error x = \<bar>x\<bar> * pow2 (- 53) + pow2 (- 1075)"

lemma round_rat_error: "\<bar>round_rat x - x\<bar> \<le> unit_error x"
proof -
  have pos: "\<bar>round_mag y - y\<bar> \<le> unit_error y" if "0 \<le> y" for y
  proof (cases "y = 0")
    case False
    with that have y: "0 < y" by simp
    have "max (pow2 (- 1074)) (y * pow2 (- 52)) \<le> pow2 (- 1074) + y * pow2 (- 52)"
      using mult_nonneg_nonneg [OF order_less_imp_le [OF y] pow2_nonneg [of "- 52"]]
        pow2_nonneg [of "- 1074"] by (intro max.boundedI) linarith+
    then have "quantum y / 2 \<le> (pow2 (- 1074) + y * pow2 (- 52)) / 2"
      using order_trans [OF quantum_bound [OF y]] by (intro divide_right_mono) simp_all
    also have "\<dots> = unit_error y"
      using y by (simp add: unit_error_def field_simps)
    finally show ?thesis using round_mag_error [OF that] by linarith
  qed (simp add: round_mag_def unit_error_def)
  show ?thesis
  proof (cases "0 \<le> x")
    case True
    then show ?thesis using pos [OF True] by (simp add: round_rat_def)
  next
    case False
    then have "\<bar>round_mag (- x) - (- x)\<bar> \<le> unit_error (- x)" by (intro pos) simp
    moreover have "unit_error (- x) = unit_error x" by (simp add: unit_error_def)
    moreover have "\<bar>round_mag (- x) - (- x)\<bar> = \<bar>- round_mag (- x) - x\<bar>" by linarith
    ultimately show ?thesis using False by (simp add: round_rat_def)
  qed
qed

section \<open>Floats\<close>

datatype f64 = NaN | Inf bool | NegZero | Num rat

definition fin :: "f64 \<Rightarrow> bool" where
  "fin a \<longleftrightarrow> (case a of NaN \<Rightarrow> False | Inf _ \<Rightarrow> False | _ \<Rightarrow> True)"

definition val :: "f64 \<Rightarrow> rat" where
  \<comment> \<open>the number a finite float denotes\<close>
  "val a = (case a of Num x \<Rightarrow> x | _ \<Rightarrow> 0)"

definition neg :: "f64 \<Rightarrow> bool" where
  \<comment> \<open>the sign bit\<close>
  "neg a = (case a of NaN \<Rightarrow> False | Inf s \<Rightarrow> s | NegZero \<Rightarrow> True | Num x \<Rightarrow> x < 0)"

definition f64_zero :: "bool \<Rightarrow> f64" where
  "f64_zero s = (if s then NegZero else Num 0)"

definition round_f64 :: "bool \<Rightarrow> rat \<Rightarrow> f64" where
  \<comment> \<open>the float nearest to an exact result; \<open>s\<close> is the sign of a zero\<close>
  "round_f64 s x = (let m = round_rat x in
     if m = 0 then f64_zero s else if 2 ^ 1024 \<le> \<bar>m\<bar> then Inf (m < 0) else Num m)"

definition f64_of_int :: "int \<Rightarrow> f64" where
  "f64_of_int k = round_f64 False (of_int k)"

definition f64_of_u64 :: "u64 \<Rightarrow> f64" where
  "f64_of_u64 w = f64_of_int (int (unat w))"

definition f64_of_u32 :: "u32 \<Rightarrow> f64" where
  "f64_of_u32 w = f64_of_int (int (unat w))"

definition f64_neg :: "f64 \<Rightarrow> f64" where
  "f64_neg a = (case a of NaN \<Rightarrow> NaN | Inf s \<Rightarrow> Inf (\<not> s) | NegZero \<Rightarrow> Num 0
     | Num x \<Rightarrow> if x = 0 then NegZero else Num (- x))"

definition f64_add :: "f64 \<Rightarrow> f64 \<Rightarrow> f64" where
  "f64_add a b = (case (a, b) of
     (NaN, _) \<Rightarrow> NaN | (_, NaN) \<Rightarrow> NaN
   | (Inf s, Inf s') \<Rightarrow> if s = s' then Inf s else NaN
   | (Inf s, _) \<Rightarrow> Inf s | (_, Inf s) \<Rightarrow> Inf s
   | (NegZero, NegZero) \<Rightarrow> NegZero
   | _ \<Rightarrow> round_f64 False (val a + val b))"

definition f64_sub :: "f64 \<Rightarrow> f64 \<Rightarrow> f64" where
  "f64_sub a b = f64_add a (f64_neg b)"

definition f64_mul :: "f64 \<Rightarrow> f64 \<Rightarrow> f64" where
  "f64_mul a b = (let s = (neg a \<noteq> neg b) in
     if a = NaN \<or> b = NaN then NaN
     else if fin a \<and> fin b then round_f64 s (val a * val b)
     else if fin a \<and> val a = 0 \<or> fin b \<and> val b = 0 then NaN
     else Inf s)"

definition f64_div :: "f64 \<Rightarrow> f64 \<Rightarrow> f64" where
  "f64_div a b = (let s = (neg a \<noteq> neg b) in
     if a = NaN \<or> b = NaN \<or> \<not> fin a \<and> \<not> fin b then NaN
     else if \<not> fin a then Inf s
     else if \<not> fin b then f64_zero s
     else if val b = 0 then (if val a = 0 then NaN else Inf s)
     else round_f64 s (val a / val b))"

definition f64_le :: "f64 \<Rightarrow> f64 \<Rightarrow> bool" where
  "f64_le a b = (case (a, b) of
     (NaN, _) \<Rightarrow> False | (_, NaN) \<Rightarrow> False
   | (Inf True, _) \<Rightarrow> True | (_, Inf False) \<Rightarrow> True
   | (Inf False, _) \<Rightarrow> False | (_, Inf True) \<Rightarrow> False
   | _ \<Rightarrow> val a \<le> val b)"

definition f64_min :: "f64 \<Rightarrow> f64 \<Rightarrow> f64" where
  \<comment> \<open>\<open>f64::min\<close>: a NaN operand is ignored\<close>
  "f64_min a b = (if a = NaN then b else if b = NaN then a else if f64_le a b then a else b)"

definition f64_max :: "f64 \<Rightarrow> f64 \<Rightarrow> f64" where
  "f64_max a b = (if a = NaN then b else if b = NaN then a else if f64_le b a then a else b)"

definition rat_trunc :: "rat \<Rightarrow> int" where
  "rat_trunc x = (if 0 \<le> x then \<lfloor>x\<rfloor> else - \<lfloor>- x\<rfloor>)"

definition f64_as_i64 :: "f64 \<Rightarrow> i64" where
  \<comment> \<open>the cast truncates and saturates; NaN becomes 0\<close>
  "f64_as_i64 a = (case a of
     NaN \<Rightarrow> 0 | Inf s \<Rightarrow> (if s then - (2 ^ 63) else 2 ^ 63 - 1)
   | _ \<Rightarrow> max (- (2 ^ 63)) (min (2 ^ 63 - 1) (rat_trunc (val a))))"

definition show_f64 :: "nat \<Rightarrow> f64 \<Rightarrow> string" where
  \<comment> \<open>\<open>{:.0}\<close> and \<open>{:.1}\<close>: the exact value rounded half to even at that digit\<close>
  "show_f64 digits a = (case a of
     NaN \<Rightarrow> ''NaN''
   | Inf s \<Rightarrow> (if s then ''-inf'' else ''inf'')
   | _ \<Rightarrow> (let n = nat (half_even (\<bar>val a\<bar> * 10 ^ digits))
          in (if neg a then ''-'' else '''') @ show_nat (n div 10 ^ digits) @
             (if digits = 0 then '''' else ''.'' @ [digit (n mod 10)])))"

subsection \<open>Finite results\<close>

lemma fin_simps [simp]: "\<not> fin NaN" "\<not> fin (Inf s)" "fin NegZero" "fin (Num x)" "fin (f64_zero s)"
  by (simp_all add: fin_def f64_zero_def)

lemma val_simps [simp]: "val (Num x) = x" "val NegZero = 0" "val (f64_zero s) = 0"
  by (simp_all add: val_def f64_zero_def)

definition fits_f64 :: "rat \<Rightarrow> bool" where
  \<comment> \<open>rounds to a finite float\<close>
  "fits_f64 x \<longleftrightarrow> \<bar>round_rat x\<bar> < 2 ^ 1024"

lemma round_f64_fits [simp]:
  assumes "fits_f64 x"
  shows "fin (round_f64 s x)" and "val (round_f64 s x) = round_rat x"
  using assms by (auto simp: fits_f64_def round_f64_def Let_def)

lemma fits_f64_below:
  assumes "\<bar>x\<bar> \<le> y" "representable y" "y < 2 ^ 1024"
  shows "fits_f64 x"
proof -
  have "round_rat x \<le> y" using assms(1,2) by (intro round_rat_le) auto
  moreover have "- y \<le> round_rat x" using assms(1,2) by (intro round_rat_ge) auto
  ultimately show ?thesis using assms(3) unfolding fits_f64_def abs_less_iff by linarith
qed

lemma fits_f64_le: "\<bar>x\<bar> \<le> 2 ^ n \<Longrightarrow> n \<le> 1023 \<Longrightarrow> fits_f64 x"
proof -
  assume x: "\<bar>x\<bar> \<le> 2 ^ n" and n: "n \<le> 1023"
  have "representable (2 ^ n)" using representable_pow2 [of "int n"] by (simp add: pow2_nat)
  moreover have "(2 :: rat) ^ n < 2 ^ 1024" by (rule power_strict_increasing) (use n in simp_all)
  ultimately show ?thesis using x by (rule fits_f64_below [rotated])
qed

lemma val_f64_neg [simp]: "fin a \<Longrightarrow> val (f64_neg a) = - val a" "fin (f64_neg a) = fin a"
  by (auto simp: f64_neg_def fin_def val_def split: f64.splits)

lemma f64_add_fin:
  assumes "fin a" "fin b" "fits_f64 (val a + val b)"
  shows "fin (f64_add a b)" and "val (f64_add a b) = round_rat (val a + val b)"
  using assms by (cases a; cases b; simp add: f64_add_def)+

lemma f64_sub_fin:
  assumes "fin a" "fin b" "fits_f64 (val a - val b)"
  shows "fin (f64_sub a b)" and "val (f64_sub a b) = round_rat (val a - val b)"
  using f64_add_fin [of a "f64_neg b"] assms by (simp_all add: f64_sub_def)

lemma f64_mul_fin:
  assumes "fin a" "fin b" "fits_f64 (val a * val b)"
  shows "fin (f64_mul a b)" and "val (f64_mul a b) = round_rat (val a * val b)"
  using assms by (auto simp: f64_mul_def Let_def)

lemma f64_div_fin:
  assumes "fin a" "fin b" "val b \<noteq> 0" "fits_f64 (val a / val b)"
  shows "fin (f64_div a b)" and "val (f64_div a b) = round_rat (val a / val b)"
  using assms by (auto simp: f64_div_def Let_def)

lemma f64_le_fin: "fin a \<Longrightarrow> fin b \<Longrightarrow> f64_le a b \<longleftrightarrow> val a \<le> val b"
  by (auto simp: f64_le_def fin_def split: f64.splits)

lemma f64_min_fin:
  "fin a \<Longrightarrow> fin b \<Longrightarrow> fin (f64_min a b) \<and> val (f64_min a b) = min (val a) (val b)"
  by (auto simp: f64_min_def f64_le_fin)

lemma f64_max_fin:
  "fin a \<Longrightarrow> fin b \<Longrightarrow> fin (f64_max a b) \<and> val (f64_max a b) = max (val a) (val b)"
  by (auto simp: f64_max_def f64_le_fin)

lemma f64_of_int_exact:
  assumes "\<bar>k\<bar> \<le> 2 ^ 53"
  shows "fin (f64_of_int k)" and "val (f64_of_int k) = of_int k"
proof -
  have "(of_int \<bar>k\<bar> :: rat) \<le> of_int (2 ^ 53)" using assms by (simp only: of_int_le_iff)
  then have "fits_f64 (of_int k)" by (intro fits_f64_le [of _ 53]) simp_all
  with representable_int [OF assms]
  show "fin (f64_of_int k)" "val (f64_of_int k) = of_int k"
    by (simp_all add: f64_of_int_def round_rat_representable)
qed

lemma rat_trunc_bounds: "0 \<le> x \<Longrightarrow> of_int (rat_trunc x) \<le> x \<and> x < of_int (rat_trunc x) + 1"
  by (simp add: rat_trunc_def) linarith

lemma f64_as_i64_small:
  assumes "fin a" "0 \<le> val a" "val a \<le> 2 ^ 53"
  shows "f64_as_i64 a = \<lfloor>val a\<rfloor>"
proof -
  have "\<lfloor>val a\<rfloor> \<le> 2 ^ 53" using assms(3) by (simp add: floor_le_iff)
  then show ?thesis using assms(1,2) by (cases a) (auto simp: f64_as_i64_def rat_trunc_def)
qed

lemma is_i64_f64_as_i64: "is_i64 (f64_as_i64 a)"
  by (auto simp: f64_as_i64_def is_i64_def split: f64.splits)

text \<open>Conversion of unsigned integers: exact up to \<open>2 ^ 53\<close>, in range always.\<close>

lemma fits_f64_nonneg: "0 \<le> x \<Longrightarrow> x \<le> 2 ^ n \<Longrightarrow> n \<le> 1023 \<Longrightarrow> fits_f64 x"
  by (rule fits_f64_le [of _ n]) simp_all

lemma unat_rat_range: "(of_int (int (unat (w :: u64))) :: rat) \<le> 2 ^ 64"
proof -
  have "unat w < 2 ^ 64" using unsigned_less [of w] by simp
  then have "(of_nat (unat w) :: rat) < of_nat (2 ^ 64)" by (simp only: of_nat_less_iff)
  then show ?thesis by simp
qed

lemma f64_of_u64_fin:
  "fin (f64_of_u64 w)" "val (f64_of_u64 w) = round_rat (of_nat (unat w))"
  "0 \<le> val (f64_of_u64 w)" "val (f64_of_u64 w) \<le> 2 ^ 64"
proof -
  have r: "0 \<le> (of_int (int (unat w)) :: rat)" "(of_int (int (unat w)) :: rat) \<le> 2 ^ 64"
    by (simp only: of_int_0_le_iff of_nat_0_le_iff) (rule unat_rat_range)
  have "fits_f64 (of_int (int (unat w)))" using r by (intro fits_f64_le [of _ 64]) auto
  then show "fin (f64_of_u64 w)" and v: "val (f64_of_u64 w) = round_rat (of_nat (unat w))"
    by (simp_all only: f64_of_u64_def f64_of_int_def round_f64_fits of_int_of_nat_eq)
  have "representable (2 ^ 64)" using representable_pow2 [of 64] by simp
  with r v show "0 \<le> val (f64_of_u64 w)" "val (f64_of_u64 w) \<le> 2 ^ 64"
    by (simp_all only: of_int_of_nat_eq round_rat_nonneg round_rat_le)
qed

lemma f64_of_u64_exact: "unat w \<le> 2 ^ 53 \<Longrightarrow> val (f64_of_u64 w) = of_nat (unat w)"
proof -
  assume "unat w \<le> 2 ^ 53"
  then have "\<bar>int (unat w)\<bar> \<le> 2 ^ 53" by (metis abs_of_nat of_nat_le_numeral_power_cancel_iff)
  from f64_of_int_exact(2) [OF this] show ?thesis by (simp only: f64_of_u64_def of_int_of_nat_eq)
qed

lemma f64_of_u64_mono: "unat a \<le> unat b \<Longrightarrow> val (f64_of_u64 a) \<le> val (f64_of_u64 b)"
  unfolding f64_of_u64_fin(2) by (intro round_rat_mono) (simp only: of_nat_le_iff)

subsection \<open>Errors as constants\<close>

definition rel_err :: rat where
  "rel_err = pow2 (- 53)"

definition abs_err :: rat where
  "abs_err = pow2 (- 1075)"

lemma rel_err_bounds: "0 < rel_err" "rel_err \<le> 1 / 4"
  by (simp_all add: rel_err_def)

lemma abs_err_pos: "0 < abs_err"
  unfolding abs_err_def by (rule pow2_pos)

lemma round_rat_err: "\<bar>round_rat x - x\<bar> \<le> \<bar>x\<bar> * rel_err + abs_err"
  using round_rat_error [of x] unfolding unit_error_def rel_err_def abs_err_def .

lemma round_rat_upper:
  assumes "0 \<le> z"
  shows "round_rat z \<le> z + rel_err * round_rat z + abs_err"
proof (cases "round_rat z \<le> z")
  case True
  have "0 \<le> rel_err * round_rat z"
    using round_rat_nonneg [OF assms] rel_err_bounds(1) by simp
  with True abs_err_pos show ?thesis by linarith
next
  case False
  then have "rel_err * z \<le> rel_err * round_rat z"
    using rel_err_bounds(1) by (intro mult_left_mono) simp_all
  moreover have "round_rat z \<le> z + (z * rel_err + abs_err)"
    using round_rat_err [of z] assms by simp
  ultimately show ?thesis by (simp add: mult.commute)
qed

lemma round_rat_lower:
  assumes "0 \<le> z"
  shows "z \<le> round_rat z + rel_err * z + abs_err"
  using round_rat_err [of z] assms by (simp add: mult.commute)

text \<open>A number is at most twice its rounding, up to the least float.\<close>

lemma round_rat_double:
  assumes "0 \<le> z"
  shows "z \<le> 2 * round_rat z + 2 * abs_err"
proof -
  have "rel_err * z \<le> 1 / 4 * z" using rel_err_bounds(2) assms by (intro mult_right_mono)
  with round_rat_lower [OF assms] round_rat_nonneg [OF assms] abs_err_pos show ?thesis by linarith
qed

definition proper :: "f64 \<Rightarrow> bool" where
  \<comment> \<open>a finite float as every operation yields it\<close>
  "proper a \<longleftrightarrow> fin a \<and> representable (val a) \<and> \<bar>val a\<bar> < 2 ^ 1024"

lemma proper_fin: "proper a \<Longrightarrow> fin a"
  by (simp add: proper_def)

lemma proper_representable: "proper a \<Longrightarrow> representable (val a)"
  by (simp add: proper_def)

lemma properI: "fin a \<Longrightarrow> val a = round_rat x \<Longrightarrow> fits_f64 x \<Longrightarrow> proper a"
  by (simp add: proper_def representable_round_rat fits_f64_def)

lemma fits_f64_proper: "proper a \<Longrightarrow> 0 \<le> x \<Longrightarrow> x \<le> val a \<Longrightarrow> fits_f64 x"
  by (rule fits_f64_below [of _ "val a"]) (auto simp: proper_def)

text \<open>An overflowing sum compares as the exact one does.\<close>

lemma f64_add_le:
  assumes "fin a" "fin b" "0 \<le> val a" "0 \<le> val b" "proper c"
  shows "f64_le (f64_add a b) c \<longleftrightarrow> round_rat (val a + val b) \<le> val c"
proof (cases "fits_f64 (val a + val b)")
  case True
  from f64_add_fin [OF assms(1,2) True] proper_fin [OF assms(5)] show ?thesis
    by (simp add: f64_le_fin)
next
  case False
  have nonneg: "0 \<le> round_rat (val a + val b)" using assms(3,4) by (intro round_rat_nonneg) simp
  with False have big: "2 ^ 1024 \<le> round_rat (val a + val b)"
    by (simp add: fits_f64_def)
  have "(0 :: rat) < 2 ^ 1024" by (rule zero_less_power) simp
  then have pos: "0 < round_rat (val a + val b)" using big by (rule order.strict_trans2)
  have "round_f64 False (val a + val b) = Inf False"
    unfolding round_f64_def Let_def abs_of_nonneg [OF nonneg]
    using pos by (simp only: if_P [OF big] if_not_P order_less_irrefl order_less_not_sym [OF pos]
        order_less_imp_not_eq2 if_False)
  moreover have "f64_add a b = round_f64 False (val a + val b) \<or> val a + val b = 0"
    using assms(1,2) by (cases a; cases b; simp add: f64_add_def)
  moreover have "val a + val b \<noteq> 0" using big \<open>0 < 2 ^ 1024\<close> by auto
  ultimately have "f64_add a b = Inf False" by auto
  moreover have "\<not> round_rat (val a + val b) \<le> val c"
    using big assms(5) unfolding proper_def abs_less_iff by linarith
  ultimately show ?thesis using assms(5) by (cases c) (auto simp: f64_le_def proper_def)
qed

lemma representable_dyadic: "\<bar>m\<bar> \<le> 2 ^ 53 \<Longrightarrow> n \<le> 1074 \<Longrightarrow> representable (of_int m / 2 ^ n)"
  unfolding representable_def
  by (intro exI [of _ m] exI [of _ "- int n"]) (simp add: pow2_def power_int_minus field_simps)

lemma round_f64_exact:
  assumes "representable x" "x \<noteq> 0" "\<bar>x\<bar> \<le> 2 ^ 1023"
  shows "round_f64 s x = Num x"
proof -
  have "fits_f64 x" using assms(3) by (intro fits_f64_le [of _ 1023]) simp_all
  then show ?thesis
    using assms(1,2) by (simp add: round_f64_def Let_def round_rat_representable fits_f64_def)
qed

lemma f64_of_int_Num: "\<bar>k\<bar> \<le> 2 ^ 53 \<Longrightarrow> f64_of_int k = Num (of_int k)"
  using f64_of_int_exact [of k]
  by (cases "f64_of_int k") (auto simp: f64_of_int_def round_f64_def Let_def f64_zero_def split: if_splits)

lemma proper_Num: "representable x \<Longrightarrow> \<bar>x\<bar> \<le> 2 ^ 1023 \<Longrightarrow> proper (Num x)"
proof -
  assume x: "representable x" "\<bar>x\<bar> \<le> 2 ^ 1023"
  have "(2 :: rat) ^ 1023 < 2 ^ 1024" by simp
  with x(2) have "\<bar>x\<bar> < 2 ^ 1024" by (rule order_le_less_trans)
  with x(1) show ?thesis by (simp only: proper_def fin_simps val_simps)
qed

text \<open>Evaluation of float expressions on concrete numbers.\<close>

lemmas round_eval = round_f64_def round_rat_def round_mag_def quantum_def flog2_def ilog2.simps
  half_even_def Let_def f64_zero_def

lemmas f64_eval = f64_of_int_def f64_of_u64_def f64_of_u32_def f64_neg_def f64_add_def f64_sub_def
  f64_mul_def f64_div_def f64_le_def f64_min_def f64_max_def f64_as_i64_def rat_trunc_def neg_def
  round_eval

end
