(* ===== verification/Sample_Codec.thy ===== *)
theory Sample_Codec
  imports F64
begin

text \<open>
  A concrete codec for the witnesses: a list of naturals in unary. It stands in for
  \<open>serde_json\<close> where a theorem's hypothesis about serialisation has to be shown
  satisfiable; no theorem about the program rests on it.
\<close>

definition unary :: "nat list \<Rightarrow> bytes" where
  "unary ns = concat (map (\<lambda>n. replicate n 1 @ [0]) ns)"

fun from_unary :: "nat \<Rightarrow> bytes \<Rightarrow> nat list option" where
  "from_unary acc [] = (if acc = 0 then Some [] else None)"
| "from_unary acc (b # bs) =
     (if b = 1 then from_unary (Suc acc) bs
      else if b = 0 then map_option (Cons acc) (from_unary 0 bs)
      else None)"

lemma from_unary_ones: "from_unary acc (replicate n 1 @ bs) = from_unary (n + acc) bs"
  by (induction n arbitrary: acc) simp_all

lemma from_unary_unary [simp]: "from_unary 0 (unary ns) = Some ns"
  by (induction ns) (simp_all add: unary_def from_unary_ones)

definition int_code :: "int \<Rightarrow> nat" where
  "int_code i = (if 0 \<le> i then 2 * nat i else 2 * nat (- i) - 1)"

definition int_decode :: "nat \<Rightarrow> int" where
  "int_decode n = (if even n then int (n div 2) else - int (Suc n div 2))"

lemma int_decode_code [simp]: "int_decode (int_code i) = i"
proof (cases "0 \<le> i")
  case False
  then obtain k where k: "i = - int (Suc k)"
    by (metis int_ops(4) negD not_le)
  have "nat (1 + int k) = Suc k" by simp
  with k show ?thesis by (simp add: int_code_def int_decode_def)
qed (simp add: int_code_def int_decode_def)

definition sample_codec :: "('st \<Rightarrow> nat list) \<Rightarrow> (nat list \<Rightarrow> 'st) \<Rightarrow> 'st codec" where
  "sample_codec f g = \<lparr>to_vec = (\<lambda>s. unary (f s)), from_slice = (\<lambda>b. map_option g (from_unary 0 b))\<rparr>"

lemma sample_codec_roundtrip: "(\<And>s. g (f s) = s) \<Longrightarrow> codec_roundtrip (sample_codec f g)"
  by (simp add: codec_roundtrip_def sample_codec_def)

text \<open>Floats as a tag and two naturals: numerator and denominator of a finite one.\<close>

definition f64_code :: "f64 \<Rightarrow> nat list" where
  "f64_code a = (case a of NaN \<Rightarrow> [0, 0, 0] | Inf s \<Rightarrow> [1, (if s then 1 else 0), 0] | NegZero \<Rightarrow> [2, 0, 0]
     | Num x \<Rightarrow> (case quotient_of x of (n, d) \<Rightarrow> [3, int_code n, int_code d]))"

definition f64_decode :: "nat list \<Rightarrow> f64" where
  "f64_decode ns = (if ns ! 0 = 0 then NaN else if ns ! 0 = 1 then Inf (ns ! 1 = 1)
     else if ns ! 0 = 2 then NegZero else Num (of_int (int_decode (ns ! 1)) / of_int (int_decode (ns ! 2))))"

lemma f64_decode_code: "f64_decode (f64_code a @ ns) = a"
  by (cases a) (auto simp: f64_code_def f64_decode_def quotient_of_div [symmetric] split: prod.splits)

lemma length_f64_code [simp]: "length (f64_code a) = 3"
  by (simp add: f64_code_def split: f64.splits prod.splits)

end
