(* ===== verification/Flatbuf.thy ===== *)
theory Flatbuf
  imports Sample_Codec
begin

text \<open>
  \<open>src/flatbuf/mod.rs\<close>: the hand-written bindings for the two tables of the wire protocol.
  The crate \<open>flatbuffers\<close> is not part of the repository: its builder, verifier and table
  reader are the record \<open>flatbuffers\<close> of operations over opaque states, and
  \<open>flatbuffers_laws\<close> states what the crate documents about them.
\<close>

section \<open>The runtime\<close>

type_synonym voffset = nat
type_synonym wip_offset = nat

record fb_table =
  ft_buf :: bytes
  ft_loc :: nat

record ('b, 'v) flatbuffers =
  fb_with_capacity :: "nat \<Rightarrow> 'b"
  fb_create_string :: "string \<Rightarrow> 'b \<Rightarrow> wip_offset \<times> 'b"
  fb_start_table :: "'b \<Rightarrow> wip_offset \<times> 'b"
  fb_push_slot_u32 :: "voffset \<Rightarrow> u32 \<Rightarrow> u32 \<Rightarrow> 'b \<Rightarrow> 'b"
  fb_push_slot_i64 :: "voffset \<Rightarrow> i64 \<Rightarrow> i64 \<Rightarrow> 'b \<Rightarrow> 'b"
  fb_push_slot_bool :: "voffset \<Rightarrow> bool \<Rightarrow> bool \<Rightarrow> 'b \<Rightarrow> 'b"
  fb_push_slot_always :: "voffset \<Rightarrow> wip_offset \<Rightarrow> 'b \<Rightarrow> 'b"
  fb_end_table :: "wip_offset \<Rightarrow> 'b \<Rightarrow> wip_offset \<times> 'b"
  fb_finish :: "wip_offset \<Rightarrow> 'b \<Rightarrow> 'b"
  fb_finished_data :: "'b \<Rightarrow> bytes"
  fb_get_u32 :: "fb_table \<Rightarrow> voffset \<Rightarrow> u32 option \<Rightarrow> u32 option"
  fb_get_i64 :: "fb_table \<Rightarrow> voffset \<Rightarrow> i64 option \<Rightarrow> i64 option"
  fb_get_bool :: "fb_table \<Rightarrow> voffset \<Rightarrow> bool option \<Rightarrow> bool option"
  fb_get_str :: "fb_table \<Rightarrow> voffset \<Rightarrow> string option \<Rightarrow> string option"
  fb_visit_table :: "nat \<Rightarrow> 'v \<Rightarrow> 'v option"
  fb_visit_u32 :: "string \<Rightarrow> voffset \<Rightarrow> bool \<Rightarrow> 'v \<Rightarrow> 'v option"
  fb_visit_i64 :: "string \<Rightarrow> voffset \<Rightarrow> bool \<Rightarrow> 'v \<Rightarrow> 'v option"
  fb_visit_bool :: "string \<Rightarrow> voffset \<Rightarrow> bool \<Rightarrow> 'v \<Rightarrow> 'v option"
  fb_visit_str :: "string \<Rightarrow> voffset \<Rightarrow> bool \<Rightarrow> 'v \<Rightarrow> 'v option"
  fb_visit_finish :: "'v \<Rightarrow> 'v"
  fb_root :: "('v \<Rightarrow> nat \<Rightarrow> 'v option) \<Rightarrow> bytes \<Rightarrow> nat option"
    \<comment> \<open>the position of the root table, when the given verifier accepts it\<close>

section \<open>RateLimitRequest\<close>

record rate_limit_request =
  rq_tab :: fb_table

definition rq_follow :: "bytes \<Rightarrow> nat \<Rightarrow> rate_limit_request" where
  "rq_follow buf loc = \<lparr>rq_tab = \<lparr>ft_buf = buf, ft_loc = loc\<rparr>\<rparr>"

definition vt_client_id :: voffset where "vt_client_id = 4"
definition vt_resource :: voffset where "vt_resource = 6"
definition vt_cost :: voffset where "vt_cost = 8"

definition rq_init_from_table :: "fb_table \<Rightarrow> rate_limit_request" where
  "rq_init_from_table t = \<lparr>rq_tab = t\<rparr>"

record rate_limit_request_args =
  ra_client_id :: "wip_offset option"
  ra_resource :: "wip_offset option"
  ra_cost :: u32

definition rq_args_default :: rate_limit_request_args where
  "rq_args_default = \<lparr>ra_client_id = None, ra_resource = None, ra_cost = 1\<rparr>"

record 'b rate_limit_request_builder =
  rqb_fbb :: 'b
  rqb_start :: wip_offset

definition rqb_new :: "('b, 'v) flatbuffers \<Rightarrow> 'b \<Rightarrow> 'b rate_limit_request_builder" where
  "rqb_new F fbb = (case fb_start_table F fbb of (start, fbb') \<Rightarrow> \<lparr>rqb_fbb = fbb', rqb_start = start\<rparr>)"

definition rqb_add_client_id :: "('b, 'v) flatbuffers \<Rightarrow> wip_offset
    \<Rightarrow> 'b rate_limit_request_builder \<Rightarrow> 'b rate_limit_request_builder" where
  "rqb_add_client_id F x B = B\<lparr>rqb_fbb := fb_push_slot_always F vt_client_id x (rqb_fbb B)\<rparr>"

definition rqb_add_resource :: "('b, 'v) flatbuffers \<Rightarrow> wip_offset
    \<Rightarrow> 'b rate_limit_request_builder \<Rightarrow> 'b rate_limit_request_builder" where
  "rqb_add_resource F x B = B\<lparr>rqb_fbb := fb_push_slot_always F vt_resource x (rqb_fbb B)\<rparr>"

definition rqb_add_cost :: "('b, 'v) flatbuffers \<Rightarrow> u32
    \<Rightarrow> 'b rate_limit_request_builder \<Rightarrow> 'b rate_limit_request_builder" where
  "rqb_add_cost F c B = B\<lparr>rqb_fbb := fb_push_slot_u32 F vt_cost c 1 (rqb_fbb B)\<rparr>"

definition rqb_finish :: "('b, 'v) flatbuffers \<Rightarrow> 'b rate_limit_request_builder \<Rightarrow> wip_offset \<times> 'b" where
  "rqb_finish F B = fb_end_table F (rqb_start B) (rqb_fbb B)"

definition rq_create :: "('b, 'v) flatbuffers \<Rightarrow> rate_limit_request_args \<Rightarrow> 'b \<Rightarrow> wip_offset \<times> 'b" where
  "rq_create F args fbb =
     (let builder = rqb_new F fbb;
          builder = rqb_add_cost F (ra_cost args) builder;
          builder = (case ra_resource args of None \<Rightarrow> builder | Some x \<Rightarrow> rqb_add_resource F x builder);
          builder = (case ra_client_id args of None \<Rightarrow> builder | Some x \<Rightarrow> rqb_add_client_id F x builder)
      in rqb_finish F builder)"

definition rq_client_id :: "('b, 'v) flatbuffers \<Rightarrow> rate_limit_request \<Rightarrow> string option" where
  "rq_client_id F r = fb_get_str F (rq_tab r) vt_client_id None"

definition rq_resource :: "('b, 'v) flatbuffers \<Rightarrow> rate_limit_request \<Rightarrow> string option" where
  "rq_resource F r = fb_get_str F (rq_tab r) vt_resource None"

definition rq_cost :: "('b, 'v) flatbuffers \<Rightarrow> rate_limit_request \<Rightarrow> u32" where
  "rq_cost F r = (case fb_get_u32 F (rq_tab r) vt_cost (Some 1) of None \<Rightarrow> 1 | Some c \<Rightarrow> c)"

definition rq_run_verifier :: "('b, 'v) flatbuffers \<Rightarrow> 'v \<Rightarrow> nat \<Rightarrow> 'v option" where
  "rq_run_verifier F v pos =
     Option.bind (fb_visit_table F pos v) (\<lambda>v.
     Option.bind (fb_visit_str F ''client_id'' vt_client_id True v) (\<lambda>v.
     Option.bind (fb_visit_str F ''resource'' vt_resource False v) (\<lambda>v.
     Option.bind (fb_visit_u32 F ''cost'' vt_cost False v) (\<lambda>v.
     Some (fb_visit_finish F v)))))"

definition root_as_rate_limit_request :: "('b, 'v) flatbuffers \<Rightarrow> bytes \<Rightarrow> rate_limit_request option" where
  "root_as_rate_limit_request F buf = map_option (rq_follow buf) (fb_root F (rq_run_verifier F) buf)"

section \<open>RateLimitResponse\<close>

record rate_limit_response =
  rp_tab :: fb_table

definition rp_follow :: "bytes \<Rightarrow> nat \<Rightarrow> rate_limit_response" where
  "rp_follow buf loc = \<lparr>rp_tab = \<lparr>ft_buf = buf, ft_loc = loc\<rparr>\<rparr>"

definition vt_allowed :: voffset where "vt_allowed = 4"
definition vt_remaining :: voffset where "vt_remaining = 6"
definition vt_retry_after_ms :: voffset where "vt_retry_after_ms = 8"
definition vt_reason :: voffset where "vt_reason = 10"

definition rp_init_from_table :: "fb_table \<Rightarrow> rate_limit_response" where
  "rp_init_from_table t = \<lparr>rp_tab = t\<rparr>"

record rate_limit_response_args =
  pa_allowed :: bool
  pa_remaining :: i64
  pa_retry_after_ms :: i64
  pa_reason :: "wip_offset option"

definition rp_args_default :: rate_limit_response_args where
  "rp_args_default = \<lparr>pa_allowed = False, pa_remaining = 0, pa_retry_after_ms = 0, pa_reason = None\<rparr>"

record 'b rate_limit_response_builder =
  rpb_fbb :: 'b
  rpb_start :: wip_offset

definition rpb_new :: "('b, 'v) flatbuffers \<Rightarrow> 'b \<Rightarrow> 'b rate_limit_response_builder" where
  "rpb_new F fbb = (case fb_start_table F fbb of (start, fbb') \<Rightarrow> \<lparr>rpb_fbb = fbb', rpb_start = start\<rparr>)"

definition rpb_add_allowed :: "('b, 'v) flatbuffers \<Rightarrow> bool
    \<Rightarrow> 'b rate_limit_response_builder \<Rightarrow> 'b rate_limit_response_builder" where
  "rpb_add_allowed F x B = B\<lparr>rpb_fbb := fb_push_slot_bool F vt_allowed x False (rpb_fbb B)\<rparr>"

definition rpb_add_remaining :: "('b, 'v) flatbuffers \<Rightarrow> i64
    \<Rightarrow> 'b rate_limit_response_builder \<Rightarrow> 'b rate_limit_response_builder" where
  "rpb_add_remaining F x B = B\<lparr>rpb_fbb := fb_push_slot_i64 F vt_remaining x 0 (rpb_fbb B)\<rparr>"

definition rpb_add_retry_after_ms :: "('b, 'v) flatbuffers \<Rightarrow> i64
    \<Rightarrow> 'b rate_limit_response_builder \<Rightarrow> 'b rate_limit_response_builder" where
  "rpb_add_retry_after_ms F x B = B\<lparr>rpb_fbb := fb_push_slot_i64 F vt_retry_after_ms x 0 (rpb_fbb B)\<rparr>"

definition rpb_add_reason :: "('b, 'v) flatbuffers \<Rightarrow> wip_offset
    \<Rightarrow> 'b rate_limit_response_builder \<Rightarrow> 'b rate_limit_response_builder" where
  "rpb_add_reason F x B = B\<lparr>rpb_fbb := fb_push_slot_always F vt_reason x (rpb_fbb B)\<rparr>"

definition rpb_finish :: "('b, 'v) flatbuffers \<Rightarrow> 'b rate_limit_response_builder \<Rightarrow> wip_offset \<times> 'b" where
  "rpb_finish F B = fb_end_table F (rpb_start B) (rpb_fbb B)"

definition rp_create :: "('b, 'v) flatbuffers \<Rightarrow> rate_limit_response_args \<Rightarrow> 'b \<Rightarrow> wip_offset \<times> 'b" where
  "rp_create F args fbb =
     (let builder = rpb_new F fbb;
          builder = (case pa_reason args of None \<Rightarrow> builder | Some x \<Rightarrow> rpb_add_reason F x builder);
          builder = rpb_add_retry_after_ms F (pa_retry_after_ms args) builder;
          builder = rpb_add_remaining F (pa_remaining args) builder;
          builder = rpb_add_allowed F (pa_allowed args) builder
      in rpb_finish F builder)"

definition rp_allowed :: "('b, 'v) flatbuffers \<Rightarrow> rate_limit_response \<Rightarrow> bool" where
  "rp_allowed F r = (case fb_get_bool F (rp_tab r) vt_allowed (Some False) of None \<Rightarrow> False | Some x \<Rightarrow> x)"

definition rp_remaining :: "('b, 'v) flatbuffers \<Rightarrow> rate_limit_response \<Rightarrow> i64" where
  "rp_remaining F r = (case fb_get_i64 F (rp_tab r) vt_remaining (Some 0) of None \<Rightarrow> 0 | Some x \<Rightarrow> x)"

definition rp_retry_after_ms :: "('b, 'v) flatbuffers \<Rightarrow> rate_limit_response \<Rightarrow> i64" where
  "rp_retry_after_ms F r =
     (case fb_get_i64 F (rp_tab r) vt_retry_after_ms (Some 0) of None \<Rightarrow> 0 | Some x \<Rightarrow> x)"

definition rp_reason :: "('b, 'v) flatbuffers \<Rightarrow> rate_limit_response \<Rightarrow> string option" where
  "rp_reason F r = fb_get_str F (rp_tab r) vt_reason None"

definition rp_run_verifier :: "('b, 'v) flatbuffers \<Rightarrow> 'v \<Rightarrow> nat \<Rightarrow> 'v option" where
  "rp_run_verifier F v pos =
     Option.bind (fb_visit_table F pos v) (\<lambda>v.
     Option.bind (fb_visit_bool F ''allowed'' vt_allowed False v) (\<lambda>v.
     Option.bind (fb_visit_i64 F ''remaining'' vt_remaining False v) (\<lambda>v.
     Option.bind (fb_visit_i64 F ''retry_after_ms'' vt_retry_after_ms False v) (\<lambda>v.
     Option.bind (fb_visit_str F ''reason'' vt_reason False v) (\<lambda>v.
     Some (fb_visit_finish F v))))))"

definition root_as_rate_limit_response :: "('b, 'v) flatbuffers \<Rightarrow> bytes \<Rightarrow> rate_limit_response option" where
  "root_as_rate_limit_response F buf = map_option (rp_follow buf) (fb_root F (rp_run_verifier F) buf)"

end
