(* ===== verification/Flatbuf_Laws.thy ===== *)
theory Flatbuf_Laws
  imports Flatbuf
begin

text \<open>
  What the bindings rely on in the crate \<open>flatbuffers\<close>, and what they promise in return.
  A table is a partial map from vtable slots to values. A ghost \<open>fb_meaning\<close> says which
  table a builder is writing, a buffer holds and a verifier looks at.
\<close>

section \<open>Documented behaviour of the runtime\<close>

datatype fb_val = Fb_U32 u32 | Fb_I64 i64 | Fb_Bool bool | Fb_Str string

type_synonym fb_fields = "voffset \<Rightarrow> fb_val option"

record fbb_view =
  bv_strs :: "wip_offset \<Rightarrow> string option"
  bv_open :: "(wip_offset \<times> fb_fields) option"
  bv_tabs :: "wip_offset \<Rightarrow> fb_fields option"
  bv_done :: "fb_fields option"

record ('b, 'v) fb_meaning =
  fm_view :: "'b \<Rightarrow> fbb_view"
  fm_root :: "bytes \<Rightarrow> fb_fields \<Rightarrow> bool"  \<comment> \<open>a finished buffer and its root table\<close>
  fm_holds :: "bytes \<Rightarrow> nat \<Rightarrow> fb_fields \<Rightarrow> bool"
  fm_at :: "'v \<Rightarrow> nat \<Rightarrow> fb_fields \<Rightarrow> bool"  \<comment> \<open>a verifier whose buffer has a table there\<close>
  fm_seen :: "'v \<Rightarrow> fb_fields \<Rightarrow> bool"  \<comment> \<open>a verifier inside a table\<close>

definition empty_view :: fbb_view where
  "empty_view = \<lparr>bv_strs = Map.empty, bv_open = None, bv_tabs = Map.empty, bv_done = None\<rparr>"

definition push_field :: "voffset \<Rightarrow> fb_val \<Rightarrow> bool \<Rightarrow> fb_fields \<Rightarrow> fb_fields" where
  \<comment> \<open>a value equal to its default is not stored\<close>
  "push_field slot x is_default f = (if is_default then f else f(slot \<mapsto> x))"

definition small_string :: "string \<Rightarrow> bool" where
  \<comment> \<open>the crate's buffers end at 2 GiB\<close>
  "small_string s \<longleftrightarrow> length s < 2 ^ 28"

definition builder_laws :: "('b, 'v) flatbuffers \<Rightarrow> ('b, 'v) fb_meaning \<Rightarrow> bool" where
  "builder_laws F M \<longleftrightarrow>
     (\<forall>n. fm_view M (fb_with_capacity F n) = empty_view) \<and>
     (\<forall>s b. small_string s \<longrightarrow> bv_open (fm_view M b) = None \<longrightarrow>
        (\<exists>off b'. fb_create_string F s b = (off, b') \<and> bv_strs (fm_view M b) off = None \<and>
           fm_view M b' = (fm_view M b)\<lparr>bv_strs := (bv_strs (fm_view M b))(off \<mapsto> s)\<rparr>)) \<and>
     (\<forall>b. bv_open (fm_view M b) = None \<longrightarrow>
        (\<exists>st b'. fb_start_table F b = (st, b') \<and>
           fm_view M b' = (fm_view M b)\<lparr>bv_open := Some (st, Map.empty)\<rparr>)) \<and>
     (\<forall>b st f slot x d. bv_open (fm_view M b) = Some (st, f) \<longrightarrow> f slot = None \<longrightarrow>
        fm_view M (fb_push_slot_u32 F slot x d b)
          = (fm_view M b)\<lparr>bv_open := Some (st, push_field slot (Fb_U32 x) (x = d) f)\<rparr>) \<and>
     (\<forall>b st f slot x d. bv_open (fm_view M b) = Some (st, f) \<longrightarrow> f slot = None \<longrightarrow> is_i64 x \<longrightarrow>
        fm_view M (fb_push_slot_i64 F slot x d b)
          = (fm_view M b)\<lparr>bv_open := Some (st, push_field slot (Fb_I64 x) (x = d) f)\<rparr>) \<and>
     (\<forall>b st f slot x d. bv_open (fm_view M b) = Some (st, f) \<longrightarrow> f slot = None \<longrightarrow>
        fm_view M (fb_push_slot_bool F slot x d b)
          = (fm_view M b)\<lparr>bv_open := Some (st, push_field slot (Fb_Bool x) (x = d) f)\<rparr>) \<and>
     (\<forall>b st f slot off s. bv_open (fm_view M b) = Some (st, f) \<longrightarrow> f slot = None \<longrightarrow>
        bv_strs (fm_view M b) off = Some s \<longrightarrow>
        fm_view M (fb_push_slot_always F slot off b)
          = (fm_view M b)\<lparr>bv_open := Some (st, f(slot \<mapsto> Fb_Str s))\<rparr>) \<and>
     (\<forall>b st f. bv_open (fm_view M b) = Some (st, f) \<longrightarrow>
        (\<exists>off b'. fb_end_table F st b = (off, b') \<and>
           fm_view M b' = (fm_view M b)\<lparr>bv_open := None, bv_tabs := (bv_tabs (fm_view M b))(off \<mapsto> f)\<rparr>)) \<and>
     (\<forall>b off f. bv_open (fm_view M b) = None \<longrightarrow> bv_tabs (fm_view M b) off = Some f \<longrightarrow>
        fm_view M (fb_finish F off b) = (fm_view M b)\<lparr>bv_done := Some f\<rparr>) \<and>
     (\<forall>b f. bv_done (fm_view M b) = Some f \<longrightarrow> fm_root M (fb_finished_data F b) f)"

definition reader_laws :: "('b, 'v) flatbuffers \<Rightarrow> ('b, 'v) fb_meaning \<Rightarrow> bool" where
  "reader_laws F M \<longleftrightarrow> (\<forall>buf pos f slot. fm_holds M buf pos f \<longrightarrow>
     (\<forall>d. f slot = None \<longrightarrow> fb_get_u32 F \<lparr>ft_buf = buf, ft_loc = pos\<rparr> slot d = d) \<and>
     (\<forall>d. f slot = None \<longrightarrow> fb_get_i64 F \<lparr>ft_buf = buf, ft_loc = pos\<rparr> slot d = d) \<and>
     (\<forall>d. f slot = None \<longrightarrow> fb_get_bool F \<lparr>ft_buf = buf, ft_loc = pos\<rparr> slot d = d) \<and>
     (\<forall>d. f slot = None \<longrightarrow> fb_get_str F \<lparr>ft_buf = buf, ft_loc = pos\<rparr> slot d = d) \<and>
     (\<forall>d x. f slot = Some (Fb_U32 x) \<longrightarrow> fb_get_u32 F \<lparr>ft_buf = buf, ft_loc = pos\<rparr> slot d = Some x) \<and>
     (\<forall>d x. f slot = Some (Fb_I64 x) \<longrightarrow> fb_get_i64 F \<lparr>ft_buf = buf, ft_loc = pos\<rparr> slot d = Some x) \<and>
     (\<forall>d x. f slot = Some (Fb_Bool x) \<longrightarrow> fb_get_bool F \<lparr>ft_buf = buf, ft_loc = pos\<rparr> slot d = Some x) \<and>
     (\<forall>d x. f slot = Some (Fb_Str x) \<longrightarrow> fb_get_str F \<lparr>ft_buf = buf, ft_loc = pos\<rparr> slot d = Some x))"

definition visits :: "('b, 'v) fb_meaning \<Rightarrow> 'v \<Rightarrow> fb_fields \<Rightarrow> (fb_val \<Rightarrow> bool) \<Rightarrow> voffset \<Rightarrow> bool
    \<Rightarrow> 'v option \<Rightarrow> bool" where
  \<comment> \<open>the outcome of visiting a slot that is absent or of the expected type\<close>
  "visits M v f type slot required out \<longleftrightarrow>
     (fm_seen M v f \<and> (\<forall>x. f slot = Some x \<longrightarrow> type x) \<longrightarrow>
       (if f slot = None \<and> required then out = None else (\<exists>v'. out = Some v' \<and> fm_seen M v' f)))"

definition verifier_laws :: "('b, 'v) flatbuffers \<Rightarrow> ('b, 'v) fb_meaning \<Rightarrow> bool" where
  "verifier_laws F M \<longleftrightarrow>
     (\<forall>buf f. fm_root M buf f \<longrightarrow> (\<exists>v pos. fm_at M v pos f \<and> fm_holds M buf pos f \<and>
        (\<forall>vf. fb_root F vf buf = (if vf v pos = None then None else Some pos)))) \<and>
     (\<forall>v pos f. fm_at M v pos f \<longrightarrow> (\<exists>v'. fb_visit_table F pos v = Some v' \<and> fm_seen M v' f)) \<and>
     (\<forall>v f n slot r. visits M v f (\<lambda>x. \<exists>w. x = Fb_U32 w) slot r (fb_visit_u32 F n slot r v)) \<and>
     (\<forall>v f n slot r. visits M v f (\<lambda>x. \<exists>w. x = Fb_I64 w) slot r (fb_visit_i64 F n slot r v)) \<and>
     (\<forall>v f n slot r. visits M v f (\<lambda>x. \<exists>w. x = Fb_Bool w) slot r (fb_visit_bool F n slot r v)) \<and>
     (\<forall>v f n slot r. visits M v f (\<lambda>x. \<exists>w. x = Fb_Str w) slot r (fb_visit_str F n slot r v))"

definition flatbuffers_laws :: "('b, 'v) flatbuffers \<Rightarrow> ('b, 'v) fb_meaning \<Rightarrow> bool" where
  "flatbuffers_laws F M \<longleftrightarrow> builder_laws F M \<and> reader_laws F M \<and> verifier_laws F M"

section \<open>Builders\<close>

lemma view_with_capacity: "builder_laws F M \<Longrightarrow> fm_view M (fb_with_capacity F n) = empty_view"
  unfolding builder_laws_def by (elim conjE) simp

lemma view_create_string:
  assumes "builder_laws F M" "bv_open (fm_view M b) = None" "small_string s"
  obtains off b' where "fb_create_string F s b = (off, b')" "bv_strs (fm_view M b) off = None"
    "fm_view M b' = (fm_view M b)\<lparr>bv_strs := (bv_strs (fm_view M b))(off \<mapsto> s)\<rparr>"
  using assms unfolding builder_laws_def by (elim conjE) metis

lemma view_start_table:
  assumes "builder_laws F M" "bv_open (fm_view M b) = None"
  obtains st b' where "fb_start_table F b = (st, b')"
    "fm_view M b' = (fm_view M b)\<lparr>bv_open := Some (st, Map.empty)\<rparr>"
  using assms unfolding builder_laws_def by (elim conjE) metis

lemma view_push_u32:
  "builder_laws F M \<Longrightarrow> bv_open (fm_view M b) = Some (st, f) \<Longrightarrow> f slot = None \<Longrightarrow>
    fm_view M (fb_push_slot_u32 F slot x d b)
      = (fm_view M b)\<lparr>bv_open := Some (st, push_field slot (Fb_U32 x) (x = d) f)\<rparr>"
  unfolding builder_laws_def by (elim conjE) simp

lemma view_push_i64:
  "builder_laws F M \<Longrightarrow> bv_open (fm_view M b) = Some (st, f) \<Longrightarrow> f slot = None \<Longrightarrow> is_i64 x \<Longrightarrow>
    fm_view M (fb_push_slot_i64 F slot x d b)
      = (fm_view M b)\<lparr>bv_open := Some (st, push_field slot (Fb_I64 x) (x = d) f)\<rparr>"
  unfolding builder_laws_def by (elim conjE) simp

lemma view_push_bool:
  "builder_laws F M \<Longrightarrow> bv_open (fm_view M b) = Some (st, f) \<Longrightarrow> f slot = None \<Longrightarrow>
    fm_view M (fb_push_slot_bool F slot x d b)
      = (fm_view M b)\<lparr>bv_open := Some (st, push_field slot (Fb_Bool x) (x = d) f)\<rparr>"
  unfolding builder_laws_def by (elim conjE) simp

lemma view_push_always:
  "builder_laws F M \<Longrightarrow> bv_open (fm_view M b) = Some (st, f) \<Longrightarrow> f slot = None \<Longrightarrow>
    bv_strs (fm_view M b) off = Some s \<Longrightarrow>
    fm_view M (fb_push_slot_always F slot off b) = (fm_view M b)\<lparr>bv_open := Some (st, f(slot \<mapsto> Fb_Str s))\<rparr>"
  unfolding builder_laws_def by (elim conjE) simp

lemma view_end_table:
  assumes "builder_laws F M" "bv_open (fm_view M b) = Some (st, f)"
  obtains off b' where "fb_end_table F st b = (off, b')"
    "fm_view M b' = (fm_view M b)\<lparr>bv_open := None, bv_tabs := (bv_tabs (fm_view M b))(off \<mapsto> f)\<rparr>"
  using assms unfolding builder_laws_def by (elim conjE) metis

lemma view_finish:
  "builder_laws F M \<Longrightarrow> bv_open (fm_view M b) = None \<Longrightarrow> bv_tabs (fm_view M b) off = Some f \<Longrightarrow>
    fm_view M (fb_finish F off b) = (fm_view M b)\<lparr>bv_done := Some f\<rparr>"
  unfolding builder_laws_def by (elim conjE) simp

lemma finished_root: "builder_laws F M \<Longrightarrow> bv_done (fm_view M b) = Some f \<Longrightarrow> fm_root M (fb_finished_data F b) f"
  unfolding builder_laws_def by (elim conjE) simp

lemmas view_push = view_push_u32 view_push_i64 view_push_bool view_push_always

text \<open>Ending a table and finishing the buffer publishes its fields.\<close>

lemma close_root:
  assumes "builder_laws F M" "bv_open (fm_view M b) = Some (st, f)" "fb_end_table F st b = (off, b')"
  shows "fm_root M (fb_finished_data F (fb_finish F off b')) f"
proof -
  obtain off' b'' where "fb_end_table F st b = (off', b'')"
    and view: "fm_view M b'' = (fm_view M b)\<lparr>bv_open := None, bv_tabs := (bv_tabs (fm_view M b))(off' \<mapsto> f)\<rparr>"
    using view_end_table [OF assms(1,2)] by blast
  with assms(3) have "off' = off" "b'' = b'" by simp_all
  with view have "bv_open (fm_view M b') = None" "bv_tabs (fm_view M b') off = Some f" by simp_all
  from finished_root [OF assms(1)] view_finish [OF assms(1) this] show ?thesis by simp
qed

section \<open>Building the two tables\<close>

text \<open>A builder in the middle of a table: the strings already written and the fields so far.\<close>

definition rqb_has :: "('b, 'v) fb_meaning \<Rightarrow> 'b rate_limit_request_builder
    \<Rightarrow> (wip_offset \<Rightarrow> string option) \<Rightarrow> fb_fields \<Rightarrow> bool" where
  "rqb_has M B strs f \<longleftrightarrow> bv_open (fm_view M (rqb_fbb B)) = Some (rqb_start B, f) \<and>
     bv_strs (fm_view M (rqb_fbb B)) = strs"

definition rpb_has :: "('b, 'v) fb_meaning \<Rightarrow> 'b rate_limit_response_builder
    \<Rightarrow> (wip_offset \<Rightarrow> string option) \<Rightarrow> fb_fields \<Rightarrow> bool" where
  "rpb_has M B strs f \<longleftrightarrow> bv_open (fm_view M (rpb_fbb B)) = Some (rpb_start B, f) \<and>
     bv_strs (fm_view M (rpb_fbb B)) = strs"

lemma rqb_has_new:
  assumes "builder_laws F M" "bv_open (fm_view M b) = None"
  shows "rqb_has M (rqb_new F b) (bv_strs (fm_view M b)) Map.empty"
  by (rule view_start_table [OF assms]) (simp add: rqb_has_def rqb_new_def)

lemma rpb_has_new:
  assumes "builder_laws F M" "bv_open (fm_view M b) = None"
  shows "rpb_has M (rpb_new F b) (bv_strs (fm_view M b)) Map.empty"
  by (rule view_start_table [OF assms]) (simp add: rpb_has_def rpb_new_def)

lemma rqb_has_add_client_id:
  "builder_laws F M \<Longrightarrow> rqb_has M B strs f \<Longrightarrow> f vt_client_id = None \<Longrightarrow> strs off = Some s \<Longrightarrow>
    rqb_has M (rqb_add_client_id F off B) strs (f(vt_client_id \<mapsto> Fb_Str s))"
  using view_push_always [of F M "rqb_fbb B" "rqb_start B" f vt_client_id off s]
  by (simp add: rqb_has_def rqb_add_client_id_def)

lemma rqb_has_add_resource:
  "builder_laws F M \<Longrightarrow> rqb_has M B strs f \<Longrightarrow> f vt_resource = None \<Longrightarrow> strs off = Some s \<Longrightarrow>
    rqb_has M (rqb_add_resource F off B) strs (f(vt_resource \<mapsto> Fb_Str s))"
  using view_push_always [of F M "rqb_fbb B" "rqb_start B" f vt_resource off s]
  by (simp add: rqb_has_def rqb_add_resource_def)

lemma rqb_has_add_cost:
  "builder_laws F M \<Longrightarrow> rqb_has M B strs f \<Longrightarrow> f vt_cost = None \<Longrightarrow>
    rqb_has M (rqb_add_cost F c B) strs (push_field vt_cost (Fb_U32 c) (c = 1) f)"
  using view_push_u32 [of F M "rqb_fbb B" "rqb_start B" f vt_cost c 1]
  by (simp add: rqb_has_def rqb_add_cost_def)

lemma rpb_has_add_allowed:
  "builder_laws F M \<Longrightarrow> rpb_has M B strs f \<Longrightarrow> f vt_allowed = None \<Longrightarrow>
    rpb_has M (rpb_add_allowed F a B) strs (push_field vt_allowed (Fb_Bool a) (a = False) f)"
  using view_push_bool [of F M "rpb_fbb B" "rpb_start B" f vt_allowed a False]
  by (simp add: rpb_has_def rpb_add_allowed_def)

lemma rpb_has_add_remaining:
  "builder_laws F M \<Longrightarrow> rpb_has M B strs f \<Longrightarrow> f vt_remaining = None \<Longrightarrow> is_i64 i \<Longrightarrow>
    rpb_has M (rpb_add_remaining F i B) strs (push_field vt_remaining (Fb_I64 i) (i = 0) f)"
  using view_push_i64 [of F M "rpb_fbb B" "rpb_start B" f vt_remaining i 0]
  by (simp add: rpb_has_def rpb_add_remaining_def)

lemma rpb_has_add_retry_after_ms:
  "builder_laws F M \<Longrightarrow> rpb_has M B strs f \<Longrightarrow> f vt_retry_after_ms = None \<Longrightarrow> is_i64 i \<Longrightarrow>
    rpb_has M (rpb_add_retry_after_ms F i B) strs (push_field vt_retry_after_ms (Fb_I64 i) (i = 0) f)"
  using view_push_i64 [of F M "rpb_fbb B" "rpb_start B" f vt_retry_after_ms i 0]
  by (simp add: rpb_has_def rpb_add_retry_after_ms_def)

lemma rpb_has_add_reason:
  "builder_laws F M \<Longrightarrow> rpb_has M B strs f \<Longrightarrow> f vt_reason = None \<Longrightarrow> strs off = Some s \<Longrightarrow>
    rpb_has M (rpb_add_reason F off B) strs (f(vt_reason \<mapsto> Fb_Str s))"
  using view_push_always [of F M "rpb_fbb B" "rpb_start B" f vt_reason off s]
  by (simp add: rpb_has_def rpb_add_reason_def)

lemma rqb_close:
  "builder_laws F M \<Longrightarrow> rqb_has M B strs f \<Longrightarrow> rqb_finish F B = (off, b') \<Longrightarrow>
    fm_root M (fb_finished_data F (fb_finish F off b')) f"
  by (auto simp: rqb_has_def rqb_finish_def intro: close_root)

lemma rpb_close:
  "builder_laws F M \<Longrightarrow> rpb_has M B strs f \<Longrightarrow> rpb_finish F B = (off, b') \<Longrightarrow>
    fm_root M (fb_finished_data F (fb_finish F off b')) f"
  by (auto simp: rpb_has_def rpb_finish_def intro: close_root)

section \<open>Reading the two tables\<close>

definition field_str :: "fb_fields \<Rightarrow> voffset \<Rightarrow> string option" where
  "field_str f slot = (case f slot of Some (Fb_Str s) \<Rightarrow> Some s | _ \<Rightarrow> None)"

definition field_u32 :: "fb_fields \<Rightarrow> voffset \<Rightarrow> u32 \<Rightarrow> u32" where
  "field_u32 f slot d = (case f slot of Some (Fb_U32 x) \<Rightarrow> x | _ \<Rightarrow> d)"

definition field_i64 :: "fb_fields \<Rightarrow> voffset \<Rightarrow> i64 \<Rightarrow> i64" where
  "field_i64 f slot d = (case f slot of Some (Fb_I64 x) \<Rightarrow> x | _ \<Rightarrow> d)"

definition field_bool :: "fb_fields \<Rightarrow> voffset \<Rightarrow> bool \<Rightarrow> bool" where
  "field_bool f slot d = (case f slot of Some (Fb_Bool x) \<Rightarrow> x | _ \<Rightarrow> d)"

lemmas field_defs = field_str_def field_u32_def field_i64_def field_bool_def

definition typed :: "fb_fields \<Rightarrow> voffset \<Rightarrow> (fb_val \<Rightarrow> bool) \<Rightarrow> bool" where
  "typed f slot type \<longleftrightarrow> (\<forall>x. f slot = Some x \<longrightarrow> type x)"

definition request_typed :: "fb_fields \<Rightarrow> bool" where
  "request_typed f \<longleftrightarrow> typed f vt_client_id (\<lambda>x. \<exists>w. x = Fb_Str w) \<and>
     typed f vt_resource (\<lambda>x. \<exists>w. x = Fb_Str w) \<and> typed f vt_cost (\<lambda>x. \<exists>w. x = Fb_U32 w)"

definition response_typed :: "fb_fields \<Rightarrow> bool" where
  "response_typed f \<longleftrightarrow> typed f vt_allowed (\<lambda>x. \<exists>w. x = Fb_Bool w) \<and>
     typed f vt_remaining (\<lambda>x. \<exists>w. x = Fb_I64 w) \<and> typed f vt_retry_after_ms (\<lambda>x. \<exists>w. x = Fb_I64 w) \<and>
     typed f vt_reason (\<lambda>x. \<exists>w. x = Fb_Str w)"

lemma visits_each:
  assumes "verifier_laws F M"
  shows "visits M v f (\<lambda>x. \<exists>w. x = Fb_U32 w) slot r (fb_visit_u32 F n slot r v)"
    and "visits M v f (\<lambda>x. \<exists>w. x = Fb_I64 w) slot r (fb_visit_i64 F n slot r v)"
    and "visits M v f (\<lambda>x. \<exists>w. x = Fb_Bool w) slot r (fb_visit_bool F n slot r v)"
    and "visits M v f (\<lambda>x. \<exists>w. x = Fb_Str w) slot r (fb_visit_str F n slot r v)"
  using assms unfolding verifier_laws_def by (elim conjE, simp)+

lemma visits_typed:
  "visits M v f type slot r out \<Longrightarrow> fm_seen M v f \<Longrightarrow> typed f slot type \<Longrightarrow> f slot \<noteq> None \<or> \<not> r \<Longrightarrow>
    \<exists>v'. out = Some v' \<and> fm_seen M v' f"
  by (auto simp: visits_def typed_def)

lemma visits_missing: "visits M v f type slot True out \<Longrightarrow> fm_seen M v f \<Longrightarrow> f slot = None \<Longrightarrow> out = None"
  by (simp add: visits_def)

lemmas visit_ok = visits_each [THEN visits_typed]

lemma visit_table:
  "verifier_laws F M \<Longrightarrow> fm_at M v pos f \<Longrightarrow> \<exists>v'. fb_visit_table F pos v = Some v' \<and> fm_seen M v' f"
  by (simp add: verifier_laws_def)

lemma root_verdict:
  assumes "verifier_laws F M" "fm_root M buf f"
  obtains v pos where "fm_at M v pos f" "fm_holds M buf pos f"
    "\<And>vf. fb_root F vf buf = (if vf v pos = None then None else Some pos)"
  using assms unfolding verifier_laws_def by (elim conjE) metis

lemma rq_verifier_verdict:
  assumes "verifier_laws F M" "fm_at M v pos f" "request_typed f"
  shows "rq_run_verifier F v pos = None \<longleftrightarrow> f vt_client_id = None"
proof -
  obtain v1 where v1: "fb_visit_table F pos v = Some v1" "fm_seen M v1 f"
    using visit_table [OF assms(1,2)] by blast
  show ?thesis
  proof (cases "f vt_client_id = None")
    case True
    with v1 visits_missing [OF visits_each(4) [OF assms(1)] v1(2)] show ?thesis by (simp add: rq_run_verifier_def)
  next
    case False
    with assms(3) obtain v2 where v2: "fb_visit_str F ''client_id'' vt_client_id True v1 = Some v2" "fm_seen M v2 f"
      using visit_ok(4) [OF assms(1) v1(2)] unfolding request_typed_def by blast
    obtain v3 where v3: "fb_visit_str F ''resource'' vt_resource False v2 = Some v3" "fm_seen M v3 f"
      using visit_ok(4) [OF assms(1) v2(2)] assms(3) unfolding request_typed_def by blast
    obtain v4 where "fb_visit_u32 F ''cost'' vt_cost False v3 = Some v4"
      using visit_ok(1) [OF assms(1) v3(2)] assms(3) unfolding request_typed_def by blast
    with False v1 v2 v3 show ?thesis by (simp add: rq_run_verifier_def)
  qed
qed

lemma rp_verifier_accepts:
  assumes "verifier_laws F M" "fm_at M v pos f" "response_typed f"
  shows "rp_run_verifier F v pos \<noteq> None"
proof -
  obtain v1 where v1: "fb_visit_table F pos v = Some v1" "fm_seen M v1 f"
    using visit_table [OF assms(1,2)] by blast
  obtain v2 where v2: "fb_visit_bool F ''allowed'' vt_allowed False v1 = Some v2" "fm_seen M v2 f"
    using visit_ok(3) [OF assms(1) v1(2)] assms(3) unfolding response_typed_def by blast
  obtain v3 where v3: "fb_visit_i64 F ''remaining'' vt_remaining False v2 = Some v3" "fm_seen M v3 f"
    using visit_ok(2) [OF assms(1) v2(2)] assms(3) unfolding response_typed_def by blast
  obtain v4 where v4: "fb_visit_i64 F ''retry_after_ms'' vt_retry_after_ms False v3 = Some v4" "fm_seen M v4 f"
    using visit_ok(2) [OF assms(1) v3(2)] assms(3) unfolding response_typed_def by blast
  obtain v5 where "fb_visit_str F ''reason'' vt_reason False v4 = Some v5"
    using visit_ok(4) [OF assms(1) v4(2)] assms(3) unfolding response_typed_def by blast
  with v1 v2 v3 v4 show ?thesis by (simp add: rp_run_verifier_def)
qed

lemma get_typed:
  assumes "reader_laws F M" "fm_holds M buf pos f"
  shows "typed f slot (\<lambda>x. \<exists>w. x = Fb_Str w) \<Longrightarrow>
      fb_get_str F \<lparr>ft_buf = buf, ft_loc = pos\<rparr> slot None = field_str f slot"
    and "typed f slot (\<lambda>x. \<exists>w. x = Fb_U32 w) \<Longrightarrow>
      fb_get_u32 F \<lparr>ft_buf = buf, ft_loc = pos\<rparr> slot (Some c) = Some (field_u32 f slot c)"
    and "typed f slot (\<lambda>x. \<exists>w. x = Fb_I64 w) \<Longrightarrow>
      fb_get_i64 F \<lparr>ft_buf = buf, ft_loc = pos\<rparr> slot (Some i) = Some (field_i64 f slot i)"
    and "typed f slot (\<lambda>x. \<exists>w. x = Fb_Bool w) \<Longrightarrow>
      fb_get_bool F \<lparr>ft_buf = buf, ft_loc = pos\<rparr> slot (Some a) = Some (field_bool f slot a)"
  using assms by (cases "f slot"; fastforce simp: reader_laws_def typed_def field_defs)+

lemma read_request:
  assumes laws: "flatbuffers_laws F M" and root: "fm_root M buf f" and typed: "request_typed f"
  shows "f vt_client_id = None \<Longrightarrow> root_as_rate_limit_request F buf = None"
    and "f vt_client_id \<noteq> None \<Longrightarrow> \<exists>r. root_as_rate_limit_request F buf = Some r \<and>
      rq_client_id F r = field_str f vt_client_id \<and> rq_resource F r = field_str f vt_resource \<and>
      rq_cost F r = field_u32 f vt_cost 1"
proof -
  from laws have rd: "reader_laws F M" and vf: "verifier_laws F M" by (simp_all add: flatbuffers_laws_def)
  obtain v pos where at: "fm_at M v pos f" and holds: "fm_holds M buf pos f"
    and fb_root: "\<And>vf. fb_root F vf buf = (if vf v pos = None then None else Some pos)"
    by (rule root_verdict [OF vf root]) blast
  note verdict = rq_verifier_verdict [OF vf at typed]
  show "root_as_rate_limit_request F buf = None" if "f vt_client_id = None"
    using that verdict by (simp add: root_as_rate_limit_request_def fb_root)
  show "\<exists>r. root_as_rate_limit_request F buf = Some r \<and>
      rq_client_id F r = field_str f vt_client_id \<and> rq_resource F r = field_str f vt_resource \<and>
      rq_cost F r = field_u32 f vt_cost 1" if "f vt_client_id \<noteq> None"
    using that verdict typed get_typed [OF rd holds]
    by (simp add: root_as_rate_limit_request_def fb_root rq_follow_def rq_client_id_def rq_resource_def
        rq_cost_def request_typed_def)
qed

lemma read_response:
  assumes laws: "flatbuffers_laws F M" and root: "fm_root M buf f" and typed: "response_typed f"
  shows "\<exists>r. root_as_rate_limit_response F buf = Some r \<and>
      rp_allowed F r = field_bool f vt_allowed False \<and> rp_remaining F r = field_i64 f vt_remaining 0 \<and>
      rp_retry_after_ms F r = field_i64 f vt_retry_after_ms 0 \<and> rp_reason F r = field_str f vt_reason"
proof -
  from laws have rd: "reader_laws F M" and vf: "verifier_laws F M" by (simp_all add: flatbuffers_laws_def)
  obtain v pos where at: "fm_at M v pos f" and holds: "fm_holds M buf pos f"
    and fb_root: "\<And>vf. fb_root F vf buf = (if vf v pos = None then None else Some pos)"
    by (rule root_verdict [OF vf root]) blast
  show ?thesis
    using rp_verifier_accepts [OF vf at typed] typed get_typed [OF rd holds]
    by (simp add: root_as_rate_limit_response_def fb_root rp_follow_def rp_allowed_def rp_remaining_def
        rp_retry_after_ms_def rp_reason_def response_typed_def)
qed

end
