(* ===== verification/Sample_Flatbuf.thy ===== *)
theory Sample_Flatbuf
  imports Flatbuf_Laws
begin

text \<open>
  A concrete runtime for the witnesses: a builder that keeps its strings and tables in lists
  and a buffer that is the root table in the unary code of \<open>Sample_Codec\<close>. It shows that
  the laws of the crate can hold; no theorem about the program rests on it.
\<close>

type_synonym sample_table = "(voffset \<times> fb_val) list"

fun val_code :: "fb_val \<Rightarrow> nat list" where
  "val_code (Fb_U32 w) = [0, unat w]"
| "val_code (Fb_I64 i) = [1, int_code i]"
| "val_code (Fb_Bool b) = [2, if b then 1 else 0]"
| "val_code (Fb_Str s) = 3 # length s # map of_char s"

definition table_code :: "sample_table \<Rightarrow> nat list" where
  "table_code l = concat (map (\<lambda>(slot, x). slot # val_code x) l)"

fun table_decode :: "nat list \<Rightarrow> sample_table" where
  "table_decode (slot # tag # x # r) =
     (if tag = 0 then (slot, Fb_U32 (of_nat x)) # table_decode r
      else if tag = 1 then (slot, Fb_I64 (int_decode x)) # table_decode r
      else if tag = 2 then (slot, Fb_Bool (x = 1)) # table_decode r
      else (slot, Fb_Str (map char_of (take x r))) # table_decode (drop x r))"
| "table_decode _ = []"

lemma table_decode_val: "table_decode (slot # val_code x @ r) = (slot, x) # table_decode r"
  by (cases x) simp_all

lemma table_decode_code [simp]: "table_decode (table_code l) = l"
  by (induction l) (auto simp: table_code_def table_decode_val)

record sample_fbb =
  sb_strs :: "string list"
  sb_open :: "(nat \<times> sample_table) option"
  sb_tabs :: "sample_table list"
  sb_done :: "sample_table option"

definition sample_push :: "voffset \<Rightarrow> fb_val \<Rightarrow> bool \<Rightarrow> sample_fbb \<Rightarrow> sample_fbb" where
  "sample_push slot x is_default b =
     (case sb_open b of None \<Rightarrow> b
      | Some (st, l) \<Rightarrow> if is_default then b else b\<lparr>sb_open := Some (st, (slot, x) # l)\<rparr>)"

definition sample_read :: "bytes \<Rightarrow> sample_table" where
  "sample_read buf = (case from_unary 0 buf of None \<Rightarrow> [] | Some ns \<Rightarrow> table_decode ns)"

definition sample_visit :: "(fb_val \<Rightarrow> bool) \<Rightarrow> string \<Rightarrow> voffset \<Rightarrow> bool \<Rightarrow> sample_table \<Rightarrow> sample_table option" where
  "sample_visit type name slot required l =
     (case map_of l slot of None \<Rightarrow> if required then None else Some l
      | Some x \<Rightarrow> if type x then Some l else None)"

definition sample_flatbuffers :: "(sample_fbb, sample_table) flatbuffers" where
  "sample_flatbuffers =
     \<lparr>fb_with_capacity = (\<lambda>_. \<lparr>sb_strs = [], sb_open = None, sb_tabs = [], sb_done = None\<rparr>),
      fb_create_string = (\<lambda>s b. (length (sb_strs b), b\<lparr>sb_strs := sb_strs b @ [s]\<rparr>)),
      fb_start_table = (\<lambda>b. (0, b\<lparr>sb_open := Some (0, [])\<rparr>)),
      fb_push_slot_u32 = (\<lambda>slot x d. sample_push slot (Fb_U32 x) (x = d)),
      fb_push_slot_i64 = (\<lambda>slot x d. sample_push slot (Fb_I64 x) (x = d)),
      fb_push_slot_bool = (\<lambda>slot x d. sample_push slot (Fb_Bool x) (x = d)),
      fb_push_slot_always = (\<lambda>slot off b.
         if off < length (sb_strs b) then sample_push slot (Fb_Str (sb_strs b ! off)) False b else b),
      fb_end_table = (\<lambda>_ b. (length (sb_tabs b),
         case sb_open b of None \<Rightarrow> b | Some (_, l) \<Rightarrow> b\<lparr>sb_open := None, sb_tabs := sb_tabs b @ [l]\<rparr>)),
      fb_finish = (\<lambda>off b. if off < length (sb_tabs b) then b\<lparr>sb_done := Some (sb_tabs b ! off)\<rparr> else b),
      fb_finished_data = (\<lambda>b. case sb_done b of None \<Rightarrow> [] | Some l \<Rightarrow> unary (table_code l)),
      fb_get_u32 = (\<lambda>t slot d. case map_of (sample_read (ft_buf t)) slot of Some (Fb_U32 x) \<Rightarrow> Some x | _ \<Rightarrow> d),
      fb_get_i64 = (\<lambda>t slot d. case map_of (sample_read (ft_buf t)) slot of Some (Fb_I64 x) \<Rightarrow> Some x | _ \<Rightarrow> d),
      fb_get_bool = (\<lambda>t slot d. case map_of (sample_read (ft_buf t)) slot of Some (Fb_Bool x) \<Rightarrow> Some x | _ \<Rightarrow> d),
      fb_get_str = (\<lambda>t slot d. case map_of (sample_read (ft_buf t)) slot of Some (Fb_Str x) \<Rightarrow> Some x | _ \<Rightarrow> d),
      fb_visit_table = (\<lambda>_ l. Some l),
      fb_visit_u32 = sample_visit (\<lambda>x. case x of Fb_U32 _ \<Rightarrow> True | _ \<Rightarrow> False),
      fb_visit_i64 = sample_visit (\<lambda>x. case x of Fb_I64 _ \<Rightarrow> True | _ \<Rightarrow> False),
      fb_visit_bool = sample_visit (\<lambda>x. case x of Fb_Bool _ \<Rightarrow> True | _ \<Rightarrow> False),
      fb_visit_str = sample_visit (\<lambda>x. case x of Fb_Str _ \<Rightarrow> True | _ \<Rightarrow> False),
      fb_visit_finish = (\<lambda>l. l),
      fb_root = (\<lambda>vf buf. if vf (sample_read buf) 0 = None then None else Some 0)\<rparr>"

definition list_map :: "'a list \<Rightarrow> nat \<Rightarrow> 'a option" where
  "list_map xs i = (if i < length xs then Some (xs ! i) else None)"

definition sample_meaning :: "(sample_fbb, sample_table) fb_meaning" where
  "sample_meaning =
     \<lparr>fm_view = (\<lambda>b. \<lparr>bv_strs = list_map (sb_strs b), bv_open = map_option (map_prod id map_of) (sb_open b),
        bv_tabs = map_option map_of \<circ> list_map (sb_tabs b), bv_done = map_option map_of (sb_done b)\<rparr>),
      fm_root = (\<lambda>buf f. map_of (sample_read buf) = f),
      fm_holds = (\<lambda>buf pos f. map_of (sample_read buf) = f),
      fm_at = (\<lambda>l pos f. map_of l = f),
      fm_seen = (\<lambda>l f. map_of l = f)\<rparr>"

lemma list_map_snoc: "list_map (xs @ [x]) = (list_map xs)(length xs \<mapsto> x)"
  by (auto simp: list_map_def fun_eq_iff nth_append)

lemma list_map_length [simp]: "list_map xs (length xs) = None"
  by (simp add: list_map_def)

lemma list_map_SomeD: "list_map xs i = Some x \<Longrightarrow> i < length xs \<and> xs ! i = x"
  by (simp add: list_map_def split: if_splits)

lemma sample_read_data [simp]: "sample_read (unary (table_code l)) = l"
  by (simp add: sample_read_def)

lemmas sample_defs = sample_flatbuffers_def sample_meaning_def

lemma sample_view_push:
  assumes "map_option (map_prod id map_of) (sb_open b) = Some (st, f)"
  shows "fm_view sample_meaning (sample_push slot x d b)
    = (fm_view sample_meaning b)\<lparr>bv_open := Some (st, push_field slot x d f)\<rparr>"
  using assms by (auto simp: sample_push_def sample_meaning_def push_field_def)

lemma sample_builder_laws: "builder_laws sample_flatbuffers sample_meaning"
  unfolding builder_laws_def
proof (intro conjI allI impI, goal_cases)
  case (1 n) then show ?case by (simp add: sample_defs empty_view_def list_map_def fun_eq_iff)
next
  case (2 s b) then show ?case by (simp add: sample_defs list_map_snoc)
next
  case (3 b) then show ?case by (simp add: sample_defs)
next
  case (4 b st f slot x d)
  then show ?case using sample_view_push [of b st f] by (simp add: sample_defs)
next
  case (5 b st f slot x d)
  then show ?case using sample_view_push [of b st f] by (simp add: sample_defs)
next
  case (6 b st f slot x d)
  then show ?case using sample_view_push [of b st f] by (simp add: sample_defs)
next
  case (7 b st f slot off s)
  then have "fb_push_slot_always sample_flatbuffers slot off b = sample_push slot (Fb_Str s) False b"
    by (auto simp: sample_defs dest: list_map_SomeD)
  with 7 show ?case
    using sample_view_push [of b st f slot "Fb_Str s" False] by (simp add: sample_meaning_def push_field_def)
next
  case (8 b st f) then show ?case by (auto simp: sample_defs list_map_snoc fun_eq_iff)
next
  case (9 b off f) then show ?case by (auto simp: sample_defs dest: list_map_SomeD)
next
  case (10 b f) then show ?case by (auto simp: sample_defs)
qed

lemma sample_reader_laws: "reader_laws sample_flatbuffers sample_meaning"
  by (auto simp: reader_laws_def sample_defs)

lemma sample_verifier_laws: "verifier_laws sample_flatbuffers sample_meaning"
  unfolding verifier_laws_def visits_def
  by (auto simp: sample_defs sample_visit_def split: option.splits)

lemma sample_flatbuffers_laws: "flatbuffers_laws sample_flatbuffers sample_meaning"
  by (simp add: flatbuffers_laws_def sample_builder_laws sample_reader_laws sample_verifier_laws)

end
