(* ===== verification/Wire_Format.thy ===== *)
theory Wire_Format
  imports Sample_Flatbuf
begin

text \<open>
  Whole messages: what \<open>RateLimitRequest::create\<close>, the server and the client write, the
  root functions and accessors of \<open>src/flatbuf/mod.rs\<close> read back, defaults included.
\<close>

section \<open>Messages\<close>

definition opt_string :: "('b, 'v) flatbuffers \<Rightarrow> string option \<Rightarrow> 'b \<Rightarrow> wip_offset option \<times> 'b" where
  "opt_string F s b = (case s of None \<Rightarrow> (None, b)
     | Some s \<Rightarrow> (case fb_create_string F s b of (off, b') \<Rightarrow> (Some off, b')))"

definition finish_root :: "('b, 'v) flatbuffers \<Rightarrow> wip_offset \<times> 'b \<Rightarrow> bytes" where
  "finish_root F ob = (case ob of (off, b) \<Rightarrow> fb_finished_data F (fb_finish F off b))"

definition write_request :: "('b, 'v) flatbuffers \<Rightarrow> nat \<Rightarrow> string option \<Rightarrow> string option \<Rightarrow> u32 \<Rightarrow> bytes" where
  \<comment> \<open>a buffer with one request made by \<open>create\<close>, its strings written first\<close>
  "write_request F n cid res cost =
     (case opt_string F cid (fb_with_capacity F n) of (c, b1) \<Rightarrow>
      case opt_string F res b1 of (r, b2) \<Rightarrow>
        finish_root F (rq_create F \<lparr>ra_client_id = c, ra_resource = r, ra_cost = cost\<rparr> b2))"

definition write_response :: "('b, 'v) flatbuffers \<Rightarrow> nat \<Rightarrow> bool \<Rightarrow> i64 \<Rightarrow> i64 \<Rightarrow> string option \<Rightarrow> bytes" where
  "write_response F n allowed remaining retry reason =
     (case opt_string F reason (fb_with_capacity F n) of (r, b) \<Rightarrow>
        finish_root F (rp_create F \<lparr>pa_allowed = allowed, pa_remaining = remaining,
          pa_retry_after_ms = retry, pa_reason = r\<rparr> b))"

definition request_fields :: "string option \<Rightarrow> string option \<Rightarrow> u32 \<Rightarrow> fb_fields" where
  "request_fields cid res cost = (\<lambda>slot.
     if slot = vt_client_id then map_option Fb_Str cid
     else if slot = vt_resource then map_option Fb_Str res
     else if slot = vt_cost \<and> cost \<noteq> 1 then Some (Fb_U32 cost) else None)"

definition response_fields :: "bool \<Rightarrow> i64 \<Rightarrow> i64 \<Rightarrow> string option \<Rightarrow> fb_fields" where
  "response_fields allowed remaining retry reason = (\<lambda>slot.
     if slot = vt_allowed \<and> allowed then Some (Fb_Bool allowed)
     else if slot = vt_remaining \<and> remaining \<noteq> 0 then Some (Fb_I64 remaining)
     else if slot = vt_retry_after_ms \<and> retry \<noteq> 0 then Some (Fb_I64 retry)
     else if slot = vt_reason then map_option Fb_Str reason else None)"

lemmas vt_defs = vt_client_id_def vt_resource_def vt_cost_def vt_allowed_def vt_remaining_def
  vt_retry_after_ms_def vt_reason_def

lemma request_fields_read [simp]:
  "request_typed (request_fields cid res cost)"
  "request_fields cid res cost vt_client_id = map_option Fb_Str cid"
  "field_str (request_fields cid res cost) vt_client_id = cid"
  "field_str (request_fields cid res cost) vt_resource = res"
  "field_u32 (request_fields cid res cost) vt_cost 1 = cost"
  by (auto simp: request_typed_def typed_def request_fields_def field_defs vt_defs split: option.splits)

lemma response_fields_read [simp]:
  "response_typed (response_fields allowed remaining retry reason)"
  "field_bool (response_fields allowed remaining retry reason) vt_allowed False = allowed"
  "field_i64 (response_fields allowed remaining retry reason) vt_remaining 0 = remaining"
  "field_i64 (response_fields allowed remaining retry reason) vt_retry_after_ms 0 = retry"
  "field_str (response_fields allowed remaining retry reason) vt_reason = reason"
  by (auto simp: response_typed_def typed_def response_fields_def field_defs vt_defs split: option.splits)

text \<open>Strings are written before the table is started; an offset keeps meaning its string.\<close>

definition opt_off :: "(wip_offset \<Rightarrow> string option) \<Rightarrow> wip_offset option \<Rightarrow> string option \<Rightarrow> bool" where
  "opt_off strs x s \<longleftrightarrow> (case x of None \<Rightarrow> s = None | Some off \<Rightarrow> s \<noteq> None \<and> strs off = s)"

definition opt_small :: "string option \<Rightarrow> bool" where
  "opt_small s \<longleftrightarrow> (\<forall>t. s = Some t \<longrightarrow> small_string t)"

lemma opt_small_simps [simp]: "opt_small None" "opt_small (Some t) = small_string t"
  by (simp_all add: opt_small_def)

lemma opt_string_view:
  assumes "builder_laws F M" "bv_open (fm_view M b) = None" "opt_small s"
  obtains x b' where "opt_string F s b = (x, b')" "bv_open (fm_view M b') = None"
    "opt_off (bv_strs (fm_view M b')) x s"
    "\<And>y t. opt_off (bv_strs (fm_view M b)) y t \<Longrightarrow> opt_off (bv_strs (fm_view M b')) y t"
proof (cases s)
  case None
  with assms show ?thesis by (intro that [of None b]) (simp_all add: opt_string_def opt_off_def)
next
  case (Some t)
  with assms obtain off b' where new: "fb_create_string F t b = (off, b')"
    and fresh: "bv_strs (fm_view M b) off = None"
    and view: "fm_view M b' = (fm_view M b)\<lparr>bv_strs := (bv_strs (fm_view M b))(off \<mapsto> t)\<rparr>"
    using view_create_string [of F M b t] by (auto simp: opt_small_def)
  show ?thesis
    by (rule that [of "Some off" b'])
      (use new fresh view assms Some in \<open>auto simp: opt_string_def opt_off_def split: option.splits\<close>)
qed

lemma rq_create_root:
  assumes laws: "builder_laws F M" and idle: "bv_open (fm_view M b) = None"
    and "opt_off (bv_strs (fm_view M b)) c cid" "opt_off (bv_strs (fm_view M b)) r res"
  shows "fm_root M (finish_root F (rq_create F \<lparr>ra_client_id = c, ra_resource = r, ra_cost = cost\<rparr> b))
    (request_fields cid res cost)"
proof -
  let ?strs = "bv_strs (fm_view M b)"
  define B1 where "B1 = rqb_add_cost F cost (rqb_new F b)"
  define B2 where "B2 = (case r of None \<Rightarrow> B1 | Some x \<Rightarrow> rqb_add_resource F x B1)"
  define B3 where "B3 = (case c of None \<Rightarrow> B2 | Some x \<Rightarrow> rqb_add_client_id F x B2)"
  let ?f1 = "push_field vt_cost (Fb_U32 cost) (cost = 1) Map.empty"
  let ?f2 = "?f1(vt_resource := map_option Fb_Str res)"
  let ?f3 = "?f2(vt_client_id := map_option Fb_Str cid)"
  have B1: "rqb_has M B1 ?strs ?f1"
    unfolding B1_def by (rule rqb_has_add_cost [OF laws rqb_has_new [OF laws idle]]) simp
  have B2: "rqb_has M B2 ?strs ?f2"
  proof (cases r)
    case None
    with assms(4) have "?f2 = ?f1" by (auto simp: opt_off_def push_field_def vt_defs)
    with None B1 show ?thesis by (simp add: B2_def)
  next
    case (Some x)
    with assms(4) obtain s where "res = Some s" "?strs x = Some s" by (auto simp: opt_off_def)
    with Some show ?thesis
      using rqb_has_add_resource [OF laws B1] by (simp add: B2_def push_field_def vt_defs)
  qed
  have "rqb_has M B3 ?strs ?f3"
  proof (cases c)
    case None
    with assms(3) have "?f3 = ?f2" by (auto simp: opt_off_def push_field_def vt_defs)
    with None B2 show ?thesis by (simp add: B3_def)
  next
    case (Some x)
    with assms(3) obtain s where "cid = Some s" "?strs x = Some s" by (auto simp: opt_off_def)
    with Some show ?thesis
      using rqb_has_add_client_id [OF laws B2] by (simp add: B3_def push_field_def vt_defs)
  qed
  moreover have "?f3 = request_fields cid res cost"
    by (auto simp: request_fields_def push_field_def vt_defs)
  moreover have "rq_create F \<lparr>ra_client_id = c, ra_resource = r, ra_cost = cost\<rparr> b = rqb_finish F B3"
    by (simp add: rq_create_def B3_def B2_def B1_def Let_def split: option.splits)
  ultimately show ?thesis
    by (auto simp: finish_root_def split: prod.splits intro: rqb_close [OF laws])
qed

lemma rp_create_root:
  assumes laws: "builder_laws F M" and idle: "bv_open (fm_view M b) = None"
    and "opt_off (bv_strs (fm_view M b)) r reason" and range: "is_i64 remaining" "is_i64 retry"
  shows "fm_root M (finish_root F (rp_create F \<lparr>pa_allowed = allowed, pa_remaining = remaining,
      pa_retry_after_ms = retry, pa_reason = r\<rparr> b)) (response_fields allowed remaining retry reason)"
proof -
  let ?strs = "bv_strs (fm_view M b)"
  define B1 where "B1 = (case r of None \<Rightarrow> rpb_new F b | Some x \<Rightarrow> rpb_add_reason F x (rpb_new F b))"
  define B2 where "B2 = rpb_add_retry_after_ms F retry B1"
  define B3 where "B3 = rpb_add_remaining F remaining B2"
  define B4 where "B4 = rpb_add_allowed F allowed B3"
  let ?f1 = "Map.empty(vt_reason := map_option Fb_Str reason)"
  let ?f2 = "push_field vt_retry_after_ms (Fb_I64 retry) (retry = 0) ?f1"
  let ?f3 = "push_field vt_remaining (Fb_I64 remaining) (remaining = 0) ?f2"
  let ?f4 = "push_field vt_allowed (Fb_Bool allowed) (allowed = False) ?f3"
  have B1: "rpb_has M B1 ?strs ?f1"
  proof (cases r)
    case None
    with assms(3) have "?f1 = Map.empty" by (auto simp: opt_off_def)
    with None rpb_has_new [OF laws idle] show ?thesis by (simp add: B1_def)
  next
    case (Some x)
    with assms(3) obtain s where "reason = Some s" "?strs x = Some s" by (auto simp: opt_off_def)
    with Some show ?thesis
      using rpb_has_add_reason [OF laws rpb_has_new [OF laws idle]] by (simp add: B1_def)
  qed
  have B2: "rpb_has M B2 ?strs ?f2"
    unfolding B2_def by (rule rpb_has_add_retry_after_ms [OF laws B1 _ range(2)]) (simp add: vt_defs)
  have B3: "rpb_has M B3 ?strs ?f3"
    unfolding B3_def
    by (rule rpb_has_add_remaining [OF laws B2 _ range(1)]) (simp add: push_field_def vt_defs)
  have "rpb_has M B4 ?strs ?f4"
    unfolding B4_def by (rule rpb_has_add_allowed [OF laws B3]) (simp add: push_field_def vt_defs)
  moreover have "?f4 = response_fields allowed remaining retry reason"
    by (auto simp: response_fields_def push_field_def vt_defs)
  moreover have "rp_create F \<lparr>pa_allowed = allowed, pa_remaining = remaining, pa_retry_after_ms = retry,
      pa_reason = r\<rparr> b = rpb_finish F B4"
    by (simp add: rp_create_def B4_def B3_def B2_def B1_def Let_def split: option.splits)
  ultimately show ?thesis
    by (auto simp: finish_root_def split: prod.splits intro: rpb_close [OF laws])
qed

lemma idle_new [simp]: "builder_laws F M \<Longrightarrow> bv_open (fm_view M (fb_with_capacity F n)) = None"
  by (simp add: view_with_capacity empty_view_def)

section \<open>Properties\<close>

text \<open>C26. Requests round-trip: the server's reader sees the client id, the resource and the cost
  that \<open>create\<close> was given, an elided cost of 1 included, and it rejects exactly the
  requests without a client id.\<close>

theorem request_roundtrip:
  assumes laws: "flatbuffers_laws F M" and "opt_small cid" "opt_small res"
  shows "case cid of
      None \<Rightarrow> root_as_rate_limit_request F (write_request F n cid res cost) = None
    | Some c \<Rightarrow> \<exists>r. root_as_rate_limit_request F (write_request F n cid res cost) = Some r \<and>
        rq_client_id F r = Some c \<and> rq_resource F r = res \<and> rq_cost F r = cost"
proof -
  from laws have bl: "builder_laws F M" by (simp add: flatbuffers_laws_def)
  obtain c b1 where b1: "opt_string F cid (fb_with_capacity F n) = (c, b1)" "bv_open (fm_view M b1) = None"
    "opt_off (bv_strs (fm_view M b1)) c cid"
    by (rule opt_string_view [OF bl idle_new [OF bl] assms(2)])
  obtain r b2 where b2: "opt_string F res b1 = (r, b2)" "bv_open (fm_view M b2) = None"
    "opt_off (bv_strs (fm_view M b2)) r res" "opt_off (bv_strs (fm_view M b2)) c cid"
    by (rule opt_string_view [OF bl b1(2) assms(3)]) (use b1(3) in blast)
  from rq_create_root [OF bl b2(2,4,3)] b1(1) b2(1)
  have "fm_root M (write_request F n cid res cost) (request_fields cid res cost)"
    by (simp add: write_request_def)
  from read_request [OF laws this] show ?thesis by (auto split: option.splits)
qed

theorem request_roundtrip_witness:
  "(\<exists>r. root_as_rate_limit_request sample_flatbuffers
      (write_request sample_flatbuffers 256 (Some ''alice'') None 1) = Some r \<and>
     rq_client_id sample_flatbuffers r = Some ''alice'' \<and> rq_resource sample_flatbuffers r = None \<and>
     rq_cost sample_flatbuffers r = 1) \<and>
   root_as_rate_limit_request sample_flatbuffers
      (write_request sample_flatbuffers 256 None (Some ''/r'') 3) = None"
  using request_roundtrip [OF sample_flatbuffers_laws, of "Some ''alice''" None 256 1]
    request_roundtrip [OF sample_flatbuffers_laws, of None "Some ''/r''" 256 3]
  by (simp add: small_string_def)

text \<open>C27. Responses round-trip: a client reads the verdict, the remaining capacity, the wait and
  the reason that \<open>create\<close> was given, the elided defaults included.\<close>

theorem response_roundtrip:
  assumes laws: "flatbuffers_laws F M" and "opt_small reason" "is_i64 remaining" "is_i64 retry"
  shows "\<exists>r. root_as_rate_limit_response F (write_response F n allowed remaining retry reason) = Some r \<and>
    rp_allowed F r = allowed \<and> rp_remaining F r = remaining \<and> rp_retry_after_ms F r = retry \<and>
    rp_reason F r = reason"
proof -
  from laws have bl: "builder_laws F M" by (simp add: flatbuffers_laws_def)
  obtain r b where b: "opt_string F reason (fb_with_capacity F n) = (r, b)" "bv_open (fm_view M b) = None"
    "opt_off (bv_strs (fm_view M b)) r reason"
    by (rule opt_string_view [OF bl idle_new [OF bl] assms(2)])
  from rp_create_root [OF bl b(2,3) assms(3,4)] b(1)
  have "fm_root M (write_response F n allowed remaining retry reason)
      (response_fields allowed remaining retry reason)"
    by (simp add: write_response_def)
  from read_response [OF laws this] show ?thesis by simp
qed

theorem response_roundtrip_witness:
  "\<exists>r. root_as_rate_limit_response sample_flatbuffers
      (write_response sample_flatbuffers 256 False 0 1500 (Some ''no'')) = Some r \<and>
     rp_allowed sample_flatbuffers r = False \<and> rp_remaining sample_flatbuffers r = 0 \<and>
     rp_retry_after_ms sample_flatbuffers r = 1500 \<and> rp_reason sample_flatbuffers r = Some ''no''"
  using response_roundtrip [OF sample_flatbuffers_laws, of "Some ''no''" 0 1500 256 False]
  by (simp add: small_string_def is_i64_def)

end
