(* ===== verification/Store.thy ===== *)
theory Store
  imports Prelude
begin

text \<open>
  \<open>src/store/mod.rs\<close>: the trait \<open>StateStore\<close> and its result type. A trait object is a
  record of operations over the state \<open>'s\<close> of the world behind it. The locales state
  the contract the limiters rely on: \<open>versioned_store\<close> for a store that may fail (a get
  that finds nothing, a write whose acknowledgement is lost), \<open>reliable_store\<close> for one
  that does not.
\<close>

section \<open>The trait\<close>

record cas_result =
  cr_success :: bool
  cr_version :: i64

record 's state_store =
  ss_get :: "string \<Rightarrow> 's \<Rightarrow> (bytes \<times> i64) option \<times> 's"
  ss_put :: "string \<Rightarrow> bytes \<Rightarrow> 's \<Rightarrow> i64 \<times> 's"
  ss_cas :: "string \<Rightarrow> i64 option \<Rightarrow> bytes \<Rightarrow> 's \<Rightarrow> cas_result \<times> 's"
  ss_ping :: "'s \<Rightarrow> bool \<times> 's"

definition default_ping :: "'s \<Rightarrow> bool \<times> 's" where
  "default_ping s = (True, s)"

section \<open>The contract\<close>

text \<open>
  \<open>view s k\<close> is what the key \<open>k\<close> holds: its bytes and their version. \<open>stamp\<close> bounds every
  version given out so far; a write takes a version at or above it, so no version names
  two values. No value has version 0, which etcd gives to an absent key. \<open>room\<close> says that the
  version counter has not run out.
\<close>

definition expects :: "i64 option \<Rightarrow> (bytes \<times> i64) option \<Rightarrow> bool" where
  \<comment> \<open>the condition of a compare-and-swap: absent, or present at that version\<close>
  "expects e cur \<longleftrightarrow> e = map_option snd cur"

lemma expects_simps [simp]:
  "expects None cur \<longleftrightarrow> cur = None"
  "expects (Some v) cur \<longleftrightarrow> (\<exists>b. cur = Some (b, v))"
  "expects e None \<longleftrightarrow> e = None"
  "expects e (Some (b, v)) \<longleftrightarrow> e = Some v"
  by (cases cur; auto simp: expects_def)+

locale versioned_store =
  fixes S :: "'s state_store"
    and view :: "'s \<Rightarrow> string \<Rightarrow> (bytes \<times> i64) option"
    and inv :: "'s \<Rightarrow> bool"
    and room :: "'s \<Rightarrow> bool"
    and stamp :: "'s \<Rightarrow> int"
  assumes view_stamp: "inv s \<Longrightarrow> view s k = Some (b, v) \<Longrightarrow> v < stamp s \<and> v \<noteq> 0"
    and get_inv: "inv s \<Longrightarrow> ss_get S k s = (g, s') \<Longrightarrow>
      inv s' \<and> view s' = view s \<and> stamp s \<le> stamp s'"
    and get_view: "inv s \<Longrightarrow> ss_get S k s = (g, s') \<Longrightarrow> g = None \<or> g = view s k"
    and cas_inv: "inv s \<Longrightarrow> room s \<Longrightarrow> ss_cas S k e b s = (r, s') \<Longrightarrow> inv s' \<and> stamp s \<le> stamp s'"
    and cas_success: "inv s \<Longrightarrow> room s \<Longrightarrow> ss_cas S k e b s = (r, s') \<Longrightarrow> e \<noteq> Some 0 \<Longrightarrow> cr_success r \<Longrightarrow>
      expects e (view s k) \<and> stamp s \<le> cr_version r \<and> view s' = (view s)(k \<mapsto> (b, cr_version r))"
    and cas_failure: "inv s \<Longrightarrow> room s \<Longrightarrow> ss_cas S k e b s = (r, s') \<Longrightarrow> e \<noteq> Some 0 \<Longrightarrow> \<not> cr_success r \<Longrightarrow>
      view s' = view s \<or>
      expects e (view s k) \<and> (\<exists>v. stamp s \<le> v \<and> view s' = (view s)(k \<mapsto> (b, v)))"
begin

text \<open>
  What a reader may rely on later: the version it saw is below the stamp, and whoever
  finds that version again finds the bytes it saw. Every operation keeps this, which is
  why a compare-and-swap on a version is a compare-and-swap on the value.
\<close>

definition remembers :: "'s \<Rightarrow> string \<Rightarrow> (bytes \<times> i64) option \<Rightarrow> bool" where
  "remembers s k got \<longleftrightarrow>
     (\<forall>b v. got = Some (b, v) \<longrightarrow> v < stamp s \<and> v \<noteq> 0 \<and> (\<forall>b'. view s k = Some (b', v) \<longrightarrow> b' = b))"

lemma remembers_get:
  assumes "inv s" "ss_get S k s = (g, s')"
  shows "remembers s' k g"
proof -
  from get_inv [OF assms] have same: "view s' = view s" and "stamp s \<le> stamp s'" by auto
  with get_view [OF assms] view_stamp [OF assms(1)] show ?thesis
    by (fastforce simp: remembers_def)
qed

lemma remembers_mono:
  assumes "remembers s k got" "view s' = view s" "stamp s \<le> stamp s'"
  shows "remembers s' k got"
  using assms by (fastforce simp: remembers_def)

lemma remembers_write:
  assumes "remembers s k got" "view s' = (view s)(k' \<mapsto> (b, v))" "stamp s \<le> v" "stamp s \<le> stamp s'"
  shows "remembers s' k got"
  using assms by (fastforce simp: remembers_def split: if_splits)

lemma remembers_nonzero: "remembers s k got \<Longrightarrow> map_option snd got \<noteq> Some 0"
  by (auto simp: remembers_def)

lemma cas_effect:
  assumes "inv s" "room s" "ss_cas S k e b s = (r, s')" "e \<noteq> Some 0"
  shows "view s' = view s \<and> \<not> cr_success r \<or>
    expects e (view s k) \<and> (\<exists>v. stamp s \<le> v \<and> view s' = (view s)(k \<mapsto> (b, v)))"
  using cas_success [OF assms] cas_failure [OF assms] by auto

lemma remembers_cas:
  assumes "remembers s k' got" "inv s" "room s" "ss_cas S k e b s = (r, s')" "e \<noteq> Some 0"
  shows "remembers s' k' got"
  using cas_effect [OF assms(2-5)] cas_inv [OF assms(2-4)] assms(1)
  by (auto intro: remembers_mono remembers_write)

text \<open>The value a compare-and-swap replaces is the one its caller read.\<close>

lemma cas_replaces_read:
  assumes "remembers s k got" "expects (map_option snd got) (view s k)"
  shows "map_option fst (view s k) = map_option fst got"
  using assms by (cases got; cases "view s k") (auto simp: remembers_def)

end

locale reliable_store = versioned_store S view inv room stamp
  for S :: "'s state_store"
    and view :: "'s \<Rightarrow> string \<Rightarrow> (bytes \<times> i64) option"
    and inv :: "'s \<Rightarrow> bool"
    and room :: "'s \<Rightarrow> bool"
    and stamp :: "'s \<Rightarrow> int" +
  assumes get_exact: "inv s \<Longrightarrow> ss_get S k s = (g, s') \<Longrightarrow> g = view s k \<and> s' = s"
    and cas_write: "inv s \<Longrightarrow> room s \<Longrightarrow> ss_cas S k e b s = (r, s') \<Longrightarrow> cr_success r \<Longrightarrow>
      view s' = (view s)(k \<mapsto> (b, cr_version r))"
    and cas_iff: "inv s \<Longrightarrow> room s \<Longrightarrow> ss_cas S k e b s = (r, s') \<Longrightarrow>
      cr_success r \<longleftrightarrow> expects e (view s k)"
    and cas_conflict: "inv s \<Longrightarrow> room s \<Longrightarrow> ss_cas S k e b s = (r, s') \<Longrightarrow> \<not> cr_success r \<Longrightarrow>
      s' = s \<and> cr_version r = (case view s k of None \<Rightarrow> 0 | Some (_, v) \<Rightarrow> v)"
begin

text \<open>With nobody in between, a read followed by a compare-and-swap succeeds.\<close>

lemma get_then_cas:
  assumes "inv s" "room s" "ss_get S k s = (g, s1)" "ss_cas S k (map_option snd g) b s1 = (r, s2)"
  shows "cr_success r"
  using get_exact [OF assms(1,3)] cas_iff [of s1 k _ b r s2] assms by (auto simp: expects_def)

end

end
