(* ===== verification/Limiter.thy ===== *)
theory Limiter
  imports Store
begin

text \<open>
  \<open>src/limiter.rs\<close> and the retry loop that the five \<open>check\<close> methods share. An algorithm
  is a \<open>plan\<close>: what it does with a clock reading before the store is read, and with the
  bytes read afterwards. \<open>check_loop\<close> is the method run by one caller, with the rest of
  the world as an environment; \<open>Concurrent\<close> runs many of them against one store.
\<close>

section \<open>Decision and trait\<close>

record decision =
  d_allowed :: bool
  d_limit :: i64
  d_remaining :: i64
  d_retry_after_ms :: i64
  d_reason :: string

record 'w rate_limiter =
  rl_check :: "string \<Rightarrow> string \<Rightarrow> u32 \<Rightarrow> 'w \<Rightarrow> decision res \<times> 'w"
  rl_name :: string

section \<open>The optimistic retry loop\<close>

type_synonym plan_body = "bytes option \<Rightarrow> (bytes \<times> decision) res"
type_synonym plan = "sys_time \<Rightarrow> plan_body res"

definition conflict_decision :: "i64 \<Rightarrow> decision" where
  "conflict_decision quota =
     \<lparr>d_allowed = False, d_limit = quota, d_remaining = 0, d_retry_after_ms = 100,
      d_reason = ''rate-limit check failed (concurrent update), retry in 100ms''\<rparr>"

definition backoff_ms :: "nat \<Rightarrow> u64" where
  "backoff_ms attempt = 2 ^ attempt"

definition attempts :: "nat list" where
  "attempts = [0..<5]"

text \<open>
  The environment of one call: the clock at each attempt, and what everybody else does to
  the store while the caller sleeps and between its read and its compare-and-swap.
\<close>

record 's env =
  env_clock :: "nat \<Rightarrow> sys_time"
  env_sleep :: "nat \<Rightarrow> u64 \<Rightarrow> 's \<Rightarrow> 's"
  env_gap :: "nat \<Rightarrow> 's \<Rightarrow> 's"

fun check_attempts :: "'s state_store \<Rightarrow> 's env \<Rightarrow> string \<Rightarrow> plan \<Rightarrow> decision \<Rightarrow> nat list \<Rightarrow> 's
    \<Rightarrow> decision res \<times> 's" where
  "check_attempts S E key plan fail [] s = (Inr fail, s)"
| "check_attempts S E key plan fail (a # as) s =
     (let s0 = (if 0 < a then env_sleep E a (backoff_ms a) s else s)
      in case plan (env_clock E a) of
           Inl p \<Rightarrow> (Inl p, s0)
         | Inr body \<Rightarrow>
             (case ss_get S key s0 of (got, s1) \<Rightarrow>
               (case body (map_option fst got) of
                  Inl p \<Rightarrow> (Inl p, s1)
                | Inr (b, d) \<Rightarrow>
                    (case ss_cas S key (map_option snd got) b (env_gap E a s1) of (r, s2) \<Rightarrow>
                       if cr_success r then (Inr d, s2)
                       else check_attempts S E key plan fail as s2))))"

definition check_loop :: "'s state_store \<Rightarrow> 's env \<Rightarrow> string \<Rightarrow> plan \<Rightarrow> decision \<Rightarrow> 's
    \<Rightarrow> decision res \<times> 's" where
  "check_loop S E key plan fail s = check_attempts S E key plan fail attempts s"

definition quiet :: "(nat \<Rightarrow> sys_time) \<Rightarrow> 's env" where
  \<comment> \<open>an environment in which nobody else touches the store\<close>
  "quiet clk = \<lparr>env_clock = clk, env_sleep = (\<lambda>_ _ s. s), env_gap = (\<lambda>_ s. s)\<rparr>"

definition planned :: "plan \<Rightarrow> sys_time \<Rightarrow> bytes option \<Rightarrow> (bytes \<times> decision) res" where
  "planned plan now raw = and_then (plan now) (\<lambda>body. body raw)"

lemma planned_Inl [simp]: "plan now = Inl p \<Longrightarrow> planned plan now raw = Inl p"
  by (simp add: planned_def)

lemma planned_Inr [simp]: "plan now = Inr body \<Longrightarrow> planned plan now raw = body raw"
  by (simp add: planned_def)

lemma planned_InrE:
  assumes "planned plan now raw = Inr x"
  obtains body where "plan now = Inr body" and "body raw = Inr x"
  using assms by (auto simp: planned_def)

subsection \<open>What a call can return\<close>

text \<open>Each attempt panics with the plan, returns the plan's decision, or goes on.\<close>

lemma check_attempts_step:
  assumes "check_attempts S E key plan fail (a # as) s = (x, s')"
  obtains (panic) raw p where "planned plan (env_clock E a) raw = Inl p" "x = Inl p"
  | (decided) raw b d where "planned plan (env_clock E a) raw = Inr (b, d)" "x = Inr d"
  | (retry) s2 where "check_attempts S E key plan fail as s2 = (x, s')"
proof (cases "plan (env_clock E a)")
  case (Inl p)
  with assms show ?thesis by (intro panic [of None p]) (auto simp: Let_def)
next
  case (Inr body)
  define s0 where "s0 = (if 0 < a then env_sleep E a (backoff_ms a) s else s)"
  obtain got s1 where get: "ss_get S key s0 = (got, s1)" by fastforce
  show ?thesis
  proof (cases "body (map_option fst got)")
    case (Inl p)
    with assms Inr get show ?thesis
      by (intro panic [of "map_option fst got" p]) (auto simp: s0_def Let_def)
  next
    case inner: (Inr bd)
    obtain b d r s2 where bd: "bd = (b, d)"
      and cas: "ss_cas S key (map_option snd got) b (env_gap E a s1) = (r, s2)"
      by (metis surj_pair)
    from assms Inr get inner bd cas
    have "(if cr_success r then (Inr d, s2) else check_attempts S E key plan fail as s2) = (x, s')"
      by (simp add: s0_def Let_def)
    then show ?thesis
      using Inr inner bd decided [of "map_option fst got" b d] retry [of s2]
      by (auto split: if_splits)
  qed
qed

text \<open>Every decision is the plan's for some content of the key, or the fallback.\<close>

lemma check_attempts_decision:
  "check_attempts S E key plan fail as s = (Inr d, s') \<Longrightarrow>
    d = fail \<or> (\<exists>a \<in> set as. \<exists>raw b. planned plan (env_clock E a) raw = Inr (b, d))"
proof (induction as arbitrary: s)
  case (Cons a as)
  from Cons.prems show ?case
    by (cases rule: check_attempts_step) (auto dest: Cons.IH)
qed simp

lemma check_attempts_panic:
  "check_attempts S E key plan fail as s = (Inl p, s') \<Longrightarrow>
    \<exists>a \<in> set as. \<exists>raw. planned plan (env_clock E a) raw = Inl p"
proof (induction as arbitrary: s)
  case (Cons a as)
  from Cons.prems show ?case
    by (cases rule: check_attempts_step) (auto dest: Cons.IH)
qed simp

lemma check_loop_decision:
  "check_loop S E key plan fail s = (Inr d, s') \<Longrightarrow>
    d = fail \<or> (\<exists>a < 5. \<exists>raw b. planned plan (env_clock E a) raw = Inr (b, d))"
  unfolding check_loop_def attempts_def by (drule check_attempts_decision) auto

lemma check_loop_total:
  assumes "\<And>a raw. a < 5 \<Longrightarrow> \<exists>x. planned plan (env_clock E a) raw = Inr x"
  shows "\<exists>d. fst (check_loop S E key plan fail s) = Inr d"
proof (cases "check_loop S E key plan fail s")
  case (Pair r s')
  show ?thesis
  proof (cases r)
    case (Inl p)
    with Pair have "check_attempts S E key plan fail attempts s = (Inl p, s')"
      by (simp add: check_loop_def)
    from check_attempts_panic [OF this] obtain a raw
      where "a < 5" and "planned plan (env_clock E a) raw = Inl p"
      unfolding attempts_def set_upt by auto
    with assms [of a raw] show ?thesis by simp
  qed (simp add: Pair)
qed

subsection \<open>Over a reliable store\<close>

context reliable_store
begin

lemma check_attempts_first:
  assumes "inv s" "room s"
    and plan: "planned plan (clk a) (map_option fst (view s key)) = Inr (b, d)"
  shows "\<exists>s' v. check_attempts S (quiet clk) key plan fail (a # as) s = (Inr d, s') \<and>
    inv s' \<and> view s' = (view s)(key \<mapsto> (b, v))"
proof -
  obtain g s1 where get: "ss_get S key s = (g, s1)" by fastforce
  then have g: "g = view s key" "s1 = s" using get_exact assms(1) by auto
  obtain r s2 where cas: "ss_cas S key (map_option snd g) b s = (r, s2)" by fastforce
  then have "cr_success r" using get_then_cas [OF assms(1,2) get] g by simp
  moreover from plan obtain body where "plan (clk a) = Inr body"
    and "body (map_option fst g) = Inr (b, d)"
    using g by (auto elim: planned_InrE)
  ultimately show ?thesis
    using get g cas cas_write [OF assms(1,2) cas] cas_inv [OF assms(1,2) cas]
    by (auto simp: quiet_def)
qed

lemma check_loop_quiet:
  assumes "inv s" "room s"
    and "planned plan (clk 0) (map_option fst (view s key)) = Inr (b, d)"
  shows "\<exists>s' v. check_loop S (quiet clk) key plan fail s = (Inr d, s') \<and>
    inv s' \<and> view s' = (view s)(key \<mapsto> (b, v))"
  unfolding check_loop_def attempts_def
  using check_attempts_first [where clk = clk and a = 0, OF assms, of fail "[Suc 0..<5]"]
  by (simp add: upt_conv_Cons)

end

end
