(* ===== verification/Tcp_Server.thy ===== *)
theory Tcp_Server
  imports Wire_Format Limiter
begin

text \<open>
  \<open>src/server.rs\<close>: the length-prefixed protocol. A connection is the bytes the peer will
  have sent, how they end, the bytes written back and when writing starts to fail;
  \<open>handle_conn\<close> is the loop of one connection over any limiter.
\<close>

unbundle bit_operations_syntax

section \<open>The socket\<close>

datatype io_error = Unexpected_Eof | Other_Io

record conn =
  cn_in :: bytes
  cn_reset :: bool  \<comment> \<open>the input ends in an error instead of an end of file\<close>
  cn_out :: bytes
  cn_room :: "nat option"  \<comment> \<open>how many bytes can still be written, when not all\<close>

definition read_exact :: "nat \<Rightarrow> conn \<Rightarrow> (io_error + bytes) \<times> conn" where
  "read_exact n c =
     (if n \<le> length (cn_in c) then (Inr (take n (cn_in c)), c\<lparr>cn_in := drop n (cn_in c)\<rparr>)
      else (Inl (if cn_reset c then Other_Io else Unexpected_Eof), c\<lparr>cn_in := []\<rparr>))"

definition write_all :: "bytes \<Rightarrow> conn \<Rightarrow> (io_error + unit) \<times> conn" where
  "write_all bs c =
     (case cn_room c of
        None \<Rightarrow> (Inr (), c\<lparr>cn_out := cn_out c @ bs\<rparr>)
      | Some n \<Rightarrow>
          if length bs \<le> n then (Inr (), c\<lparr>cn_out := cn_out c @ bs, cn_room := Some (n - length bs)\<rparr>)
          else (Inl Other_Io, c\<lparr>cn_out := cn_out c @ take n bs, cn_room := Some 0\<rparr>))"

lemma read_exact_shrinks:
  "read_exact n c = (Inr bs, c') \<Longrightarrow> length (cn_in c') = length (cn_in c) - n \<and> n \<le> length (cn_in c)"
  by (auto simp: read_exact_def split: if_splits)

lemma write_all_in [simp]: "write_all bs c = (r, c') \<Longrightarrow> cn_in c' = cn_in c"
  by (auto simp: write_all_def split: option.splits if_splits)

definition u32_to_le_bytes :: "u32 \<Rightarrow> bytes" where
  "u32_to_le_bytes w = [ucast w, ucast (drop_bit 8 w), ucast (drop_bit 16 w), ucast (drop_bit 24 w)]"

definition u32_from_le_bytes :: "bytes \<Rightarrow> u32" where
  "u32_from_le_bytes b = ucast (b ! 0) OR push_bit 8 (ucast (b ! 1)) OR push_bit 16 (ucast (b ! 2))
     OR push_bit 24 (ucast (b ! 3))"

definition len_as_u32 :: "'a list \<Rightarrow> u32" where
  "len_as_u32 xs = word_of_nat (length xs)"

lemma u32_le_roundtrip [simp]: "u32_from_le_bytes (u32_to_le_bytes w) = w"
proof (rule bit_word_eqI)
  fix n :: nat assume "n < LENGTH(32)"
  then show "bit (u32_from_le_bytes (u32_to_le_bytes w)) n = bit w n"
    by (cases "n < 24"; cases "n < 16") (auto simp: u32_from_le_bytes_def u32_to_le_bytes_def bit_simps not_less)
qed

lemma length_u32_to_le_bytes [simp]: "length (u32_to_le_bytes w) = 4"
  by (simp add: u32_to_le_bytes_def)

section \<open>The server\<close>

definition max_msg_bytes :: nat where
  "max_msg_bytes = 2 ^ 20"

definition encode_response :: "('b, 'v) flatbuffers \<Rightarrow> decision \<Rightarrow> bytes" where
  "encode_response F d =
     (let fbb = fb_with_capacity F 256;
          (reason, fbb) = fb_create_string F (d_reason d) fbb;
          rb = rpb_new F fbb;
          rb = rpb_add_allowed F (d_allowed d) rb;
          rb = rpb_add_remaining F (d_remaining d) rb;
          rb = rpb_add_retry_after_ms F (d_retry_after_ms d) rb;
          rb = rpb_add_reason F reason rb;
          (root, fbb) = rpb_finish F rb
      in fb_finished_data F (fb_finish F root fbb))"

datatype conn_end = Closed | Io_Failed io_error | Task_Panicked panic

function handle_conn :: "('b, 'v) flatbuffers \<Rightarrow> 'w rate_limiter \<Rightarrow> conn \<Rightarrow> 'w \<Rightarrow> conn_end \<times> conn \<times> 'w" where
  "handle_conn F L c w =
     (case read_exact 4 c of
        (Inl e, c1) \<Rightarrow> (if e = Unexpected_Eof then Closed else Io_Failed e, c1, w)
      | (Inr len_buf, c1) \<Rightarrow>
          let msg_len = unat (u32_from_le_bytes len_buf) in
          if msg_len = 0 \<or> msg_len > max_msg_bytes then (Closed, c1, w)
          else (case read_exact msg_len c1 of
            (Inl e, c2) \<Rightarrow> (Io_Failed e, c2, w)
          | (Inr body, c2) \<Rightarrow>
              (case root_as_rate_limit_request F body of
                 None \<Rightarrow> (Closed, c2, w)
               | Some req \<Rightarrow>
                   let client_id = (case rq_client_id F req of None \<Rightarrow> ''unknown'' | Some s \<Rightarrow> s);
                       resource = (case rq_resource F req of None \<Rightarrow> ''/'' | Some s \<Rightarrow> s);
                       cost = rq_cost F req
                   in (case rl_check L client_id resource cost w of
                         (Inl p, w') \<Rightarrow> (Task_Panicked p, c2, w')
                       | (Inr d, w') \<Rightarrow>
                           let resp_bytes = encode_response F d in
                           (case write_all (u32_to_le_bytes (len_as_u32 resp_bytes)) c2 of
                              (Inl e, c3) \<Rightarrow> (Io_Failed e, c3, w')
                            | (Inr _, c3) \<Rightarrow>
                                (case write_all resp_bytes c3 of
                                   (Inl e, c4) \<Rightarrow> (Io_Failed e, c4, w')
                                 | (Inr _, c4) \<Rightarrow> handle_conn F L c4 w'))))))"
  by pat_completeness auto

termination
  by (relation "measure (\<lambda>(F, L, c, w). length (cn_in c))") (auto dest!: read_exact_shrinks [OF sym] write_all_in [OF sym])

declare handle_conn.simps [simp del]

section \<open>Frames\<close>

definition frame :: "bytes \<Rightarrow> bytes" where
  "frame body = u32_to_le_bytes (len_as_u32 body) @ body"

definition frame_ok :: "bytes \<Rightarrow> bool" where
  "frame_ok body \<longleftrightarrow> body \<noteq> [] \<and> length body \<le> max_msg_bytes"

lemma unat_len_as_u32: "length xs < 2 ^ 32 \<Longrightarrow> unat (len_as_u32 xs) = length xs"
  by (simp add: len_as_u32_def unat_of_nat)

lemma frame_ok_len: "frame_ok body \<Longrightarrow> unat (len_as_u32 body) = length body"
  by (simp add: frame_ok_def max_msg_bytes_def unat_len_as_u32)

lemma read_header:
  "cn_in c = u32_to_le_bytes w @ rest \<Longrightarrow> read_exact 4 c = (Inr (u32_to_le_bytes w), c\<lparr>cn_in := rest\<rparr>)"
  by (simp add: read_exact_def)

lemma read_body: "cn_in c = body @ rest \<Longrightarrow> read_exact (length body) c = (Inr body, c\<lparr>cn_in := rest\<rparr>)"
  by (simp add: read_exact_def)

lemma write_all_open: "cn_room c = None \<Longrightarrow> write_all bs c = (Inr (), c\<lparr>cn_out := cn_out c @ bs\<rparr>)"
  by (simp add: write_all_def)

section \<open>One connection, request by request\<close>

text \<open>
  \<open>check_body\<close> is what one message asks of the limiter; \<open>serve\<close> runs a list of messages one
  after another, as long as all are well-formed and no check panics.
\<close>

definition check_body :: "('b, 'v) flatbuffers \<Rightarrow> 'w rate_limiter \<Rightarrow> bytes \<Rightarrow> 'w \<Rightarrow> (decision res \<times> 'w) option" where
  "check_body F L body w = map_option (\<lambda>req.
     rl_check L (case rq_client_id F req of None \<Rightarrow> ''unknown'' | Some s \<Rightarrow> s)
       (case rq_resource F req of None \<Rightarrow> ''/'' | Some s \<Rightarrow> s) (rq_cost F req) w)
     (root_as_rate_limit_request F body)"

fun serve :: "('b, 'v) flatbuffers \<Rightarrow> 'w rate_limiter \<Rightarrow> bytes list \<Rightarrow> 'w \<Rightarrow> (decision list \<times> 'w) option" where
  "serve F L [] w = Some ([], w)"
| "serve F L (body # bodies) w =
     (case check_body F L body w of
        Some (Inr d, w') \<Rightarrow> map_option (apfst (Cons d)) (serve F L bodies w')
      | _ \<Rightarrow> None)"

lemma handle_conn_unfold:
  "handle_conn F L c w = (case read_exact 4 c of
      (Inl e, c1) \<Rightarrow> (if e = Unexpected_Eof then Closed else Io_Failed e, c1, w)
    | (Inr len_buf, c1) \<Rightarrow>
        if unat (u32_from_le_bytes len_buf) = 0 \<or> unat (u32_from_le_bytes len_buf) > max_msg_bytes
        then (Closed, c1, w)
        else (case read_exact (unat (u32_from_le_bytes len_buf)) c1 of
            (Inl e, c2) \<Rightarrow> (Io_Failed e, c2, w)
          | (Inr body, c2) \<Rightarrow> (case check_body F L body w of
              None \<Rightarrow> (Closed, c2, w)
            | Some (Inl p, w') \<Rightarrow> (Task_Panicked p, c2, w')
            | Some (Inr d, w') \<Rightarrow>
                (case write_all (u32_to_le_bytes (len_as_u32 (encode_response F d))) c2 of
                   (Inl e, c3) \<Rightarrow> (Io_Failed e, c3, w')
                 | (Inr _, c3) \<Rightarrow>
                     (case write_all (encode_response F d) c3 of
                        (Inl e, c4) \<Rightarrow> (Io_Failed e, c4, w')
                      | (Inr _, c4) \<Rightarrow> handle_conn F L c4 w')))))"
  by (subst handle_conn.simps, unfold check_body_def Let_def)
    (auto split: prod.split sum.split option.split)

lemma handle_conn_body:
  assumes "cn_in c = u32_to_le_bytes n @ body @ rest" "unat n = length body" "frame_ok body"
  shows "handle_conn F L c w = (case check_body F L body w of
      None \<Rightarrow> (Closed, c\<lparr>cn_in := rest\<rparr>, w)
    | Some (Inl p, w') \<Rightarrow> (Task_Panicked p, c\<lparr>cn_in := rest\<rparr>, w')
    | Some (Inr d, w') \<Rightarrow>
        (case write_all (u32_to_le_bytes (len_as_u32 (encode_response F d))) (c\<lparr>cn_in := rest\<rparr>) of
           (Inl e, c3) \<Rightarrow> (Io_Failed e, c3, w')
         | (Inr _, c3) \<Rightarrow>
             (case write_all (encode_response F d) c3 of
                (Inl e, c4) \<Rightarrow> (Io_Failed e, c4, w')
              | (Inr _, c4) \<Rightarrow> handle_conn F L c4 w')))"
  using assms(2,3) read_body [of "c\<lparr>cn_in := body @ rest\<rparr>" body rest]
  by (subst handle_conn_unfold) (simp add: read_header [OF assms(1)] frame_ok_def)

lemma handle_conn_frame:
  assumes "cn_in c = frame body @ rest" "frame_ok body" "cn_room c = None"
    and "check_body F L body w = Some (Inr d, w')"
  shows "handle_conn F L c w
    = handle_conn F L (c\<lparr>cn_in := rest, cn_out := cn_out c @ frame (encode_response F d)\<rparr>) w'"
  using assms
  by (subst handle_conn_body [where n = "len_as_u32 body" and body = body and rest = rest])
    (simp_all add: frame_def frame_ok_len write_all_open)

lemma handle_conn_serve:
  assumes "serve F L bodies w = Some (ds, w')" "list_all frame_ok bodies" "cn_room c = None"
    and "cn_in c = concat (map frame bodies) @ rest"
  shows "handle_conn F L c w = handle_conn F L
    (c\<lparr>cn_in := rest, cn_out := cn_out c @ concat (map (\<lambda>d. frame (encode_response F d)) ds)\<rparr>) w'"
  using assms
proof (induction bodies arbitrary: c w ds)
  case (Cons body bodies)
  from Cons.prems(1) obtain d w1 ds' where one: "check_body F L body w = Some (Inr d, w1)"
    and more: "serve F L bodies w1 = Some (ds', w')" and ds: "ds = d # ds'"
    by (auto split: option.splits sum.splits)
  let ?c = "c\<lparr>cn_in := concat (map frame bodies) @ rest, cn_out := cn_out c @ frame (encode_response F d)\<rparr>"
  have "handle_conn F L c w = handle_conn F L ?c w1"
    using Cons.prems by (intro handle_conn_frame [OF _ _ _ one]) simp_all
  with Cons.IH [OF more, of ?c] Cons.prems(2,3) show ?case by (simp add: ds)
next
  case Nil
  then show ?case by (cases c) simp
qed

lemma handle_conn_eof:
  "length (cn_in c) < 4 \<Longrightarrow> handle_conn F L c w =
    (if cn_reset c then Io_Failed Other_Io else Closed, c\<lparr>cn_in := []\<rparr>, w)"
  by (subst handle_conn.simps) (simp add: read_exact_def)

section \<open>Responses\<close>

definition sendable :: "decision \<Rightarrow> bool" where
  "sendable d \<longleftrightarrow> small_string (d_reason d) \<and> is_i64 (d_remaining d) \<and> is_i64 (d_retry_after_ms d)"

lemma encode_response_root:
  assumes laws: "builder_laws F M" and "sendable d"
  shows "fm_root M (encode_response F d)
    (response_fields (d_allowed d) (d_remaining d) (d_retry_after_ms d) (Some (d_reason d)))"
proof -
  obtain off b where str: "fb_create_string F (d_reason d) (fb_with_capacity F 256) = (off, b)"
    and view: "fm_view M b = (fm_view M (fb_with_capacity F 256))\<lparr>bv_strs :=
      (bv_strs (fm_view M (fb_with_capacity F 256)))(off \<mapsto> d_reason d)\<rparr>"
    by (rule view_create_string [OF laws idle_new [OF laws]]) (use assms(2) in \<open>auto simp: sendable_def\<close>)
  have idle: "bv_open (fm_view M b) = None" and off: "bv_strs (fm_view M b) off = Some (d_reason d)"
    using view idle_new [OF laws, of 256] by simp_all
  define B1 where "B1 = rpb_add_allowed F (d_allowed d) (rpb_new F b)"
  define B2 where "B2 = rpb_add_remaining F (d_remaining d) B1"
  define B3 where "B3 = rpb_add_retry_after_ms F (d_retry_after_ms d) B2"
  define B4 where "B4 = rpb_add_reason F off B3"
  let ?f1 = "push_field vt_allowed (Fb_Bool (d_allowed d)) (d_allowed d = False) Map.empty"
  let ?f2 = "push_field vt_remaining (Fb_I64 (d_remaining d)) (d_remaining d = 0) ?f1"
  let ?f3 = "push_field vt_retry_after_ms (Fb_I64 (d_retry_after_ms d)) (d_retry_after_ms d = 0) ?f2"
  have range: "is_i64 (d_remaining d)" "is_i64 (d_retry_after_ms d)" using assms(2) by (simp_all add: sendable_def)
  have B1: "rpb_has M B1 (bv_strs (fm_view M b)) ?f1"
    unfolding B1_def by (rule rpb_has_add_allowed [OF laws rpb_has_new [OF laws idle]]) simp
  have B2: "rpb_has M B2 (bv_strs (fm_view M b)) ?f2"
    unfolding B2_def by (rule rpb_has_add_remaining [OF laws B1 _ range(1)]) (simp add: push_field_def vt_defs)
  have B3: "rpb_has M B3 (bv_strs (fm_view M b)) ?f3"
    unfolding B3_def by (rule rpb_has_add_retry_after_ms [OF laws B2 _ range(2)]) (simp add: push_field_def vt_defs)
  have B4: "rpb_has M B4 (bv_strs (fm_view M b)) (?f3(vt_reason \<mapsto> Fb_Str (d_reason d)))"
    unfolding B4_def by (rule rpb_has_add_reason [OF laws B3 _ off]) (simp add: push_field_def vt_defs)
  have fields: "?f3(vt_reason \<mapsto> Fb_Str (d_reason d))
      = response_fields (d_allowed d) (d_remaining d) (d_retry_after_ms d) (Some (d_reason d))"
    by (auto simp: response_fields_def push_field_def vt_defs)
  obtain root b' where fin: "rpb_finish F B4 = (root, b')" by fastforce
  have "encode_response F d = fb_finished_data F (fb_finish F root b')"
    using fin by (simp add: encode_response_def str B4_def B3_def B2_def B1_def)
  with rpb_close [OF laws B4 fin] fields show ?thesis by simp
qed

lemma response_readable:
  assumes "flatbuffers_laws F M" "sendable d"
  shows "\<exists>r. root_as_rate_limit_response F (encode_response F d) = Some r \<and>
    rp_allowed F r = d_allowed d \<and> rp_remaining F r = d_remaining d \<and>
    rp_retry_after_ms F r = d_retry_after_ms d \<and> rp_reason F r = Some (d_reason d)"
  using read_response [OF assms(1) encode_response_root] assms by (simp add: flatbuffers_laws_def)

section \<open>Counting the checks\<close>

definition counting :: "'w rate_limiter \<Rightarrow> ('w \<times> nat) rate_limiter" where
  "counting L = \<lparr>rl_check = (\<lambda>cid res cost (w, n). case rl_check L cid res cost w of (x, w') \<Rightarrow> (x, (w', Suc n))),
     rl_name = rl_name L\<rparr>"

lemma check_body_counting:
  "check_body F (counting L) body (w, n) = map_option (apsnd (\<lambda>w'. (w', Suc n))) (check_body F L body w)"
  by (simp add: check_body_def counting_def option.map_comp comp_def apsnd_def map_prod_def split_beta)

lemma handle_conn_counts:
  "snd (snd (snd (handle_conn F (counting L) c (w, n)))) * 5 \<le> n * 5 + length (cn_in c)"
proof (induction "length (cn_in c)" arbitrary: c w n rule: less_induct)
  case less
  obtain r1 c1 where hdr: "read_exact 4 c = (r1, c1)" by fastforce
  show ?case
  proof (cases "\<exists>len_buf bs c2. r1 = Inr len_buf \<and> 0 < unat (u32_from_le_bytes len_buf) \<and>
      unat (u32_from_le_bytes len_buf) \<le> max_msg_bytes \<and>
      read_exact (unat (u32_from_le_bytes len_buf)) c1 = (Inr bs, c2)")
    case False
    with hdr show ?thesis by (subst handle_conn_unfold) (auto split: prod.split sum.split)
  next
    case True
    then obtain len_buf bs c2 where ok: "r1 = Inr len_buf" "0 < unat (u32_from_le_bytes len_buf)"
      "unat (u32_from_le_bytes len_buf) \<le> max_msg_bytes"
      "read_exact (unat (u32_from_le_bytes len_buf)) c1 = (Inr bs, c2)" by blast
    then have shrink: "length (cn_in c2) + 5 \<le> length (cn_in c)"
      using read_exact_shrinks [OF hdr [unfolded ok(1)]] read_exact_shrinks [OF ok(4)] by linarith
    have IH: "snd (snd (snd (handle_conn F (counting L) c4 (w', Suc n)))) * 5 \<le> n * 5 + length (cn_in c)"
      if "cn_in c4 = cn_in c2" for c4 w'
      using less [of c4 w' "Suc n"] that shrink by simp
    show ?thesis
      using hdr ok shrink
      by (subst handle_conn_unfold)
        (auto simp: check_body_counting intro!: IH dest!: write_all_in split: prod.split sum.split option.split)
  qed
qed

end
