(* ===== verification/Concurrent.thy ===== *)
theory Concurrent
  imports Limiter
begin

text \<open>
  Many \<open>check\<close> calls at once against one store: the tasks of one process, or of several
  replicas. Each call is a small state machine whose steps are its store operations; a
  scheduler picks the next task and the clock reading it would see. A ghost log records
  every compare-and-swap that took effect. The main lemma is that the content of each key
  is what running the logged plans one after another gives: the calls are linearizable
  at their compare-and-swap.
\<close>

section \<open>Tasks and steps\<close>

record task =
  t_key :: string
  t_plan :: plan
  t_fail :: decision

datatype pc =
  Attempt nat
| Fetch nat sys_time
| Swap nat sys_time "(bytes \<times> i64) option" bytes decision
| Done decision
| Crashed panic

record commit =
  c_task :: nat
  c_now :: sys_time
  c_decision :: decision
  c_acked :: bool

record 's sys =
  sys_store :: 's
  sys_pc :: "nat \<Rightarrow> pc"
  sys_log :: "commit list"

definition sys_init :: "'s \<Rightarrow> 's sys" where
  "sys_init s0 = \<lparr>sys_store = s0, sys_pc = (\<lambda>_. Attempt 0), sys_log = []\<rparr>"

definition set_pc :: "nat \<Rightarrow> pc \<Rightarrow> 's sys \<Rightarrow> 's sys" where
  "set_pc i q \<sigma> = \<sigma>\<lparr>sys_pc := (sys_pc \<sigma>)(i := q)\<rparr>"

definition next_attempt :: "nat \<Rightarrow> decision \<Rightarrow> pc" where
  "next_attempt a fail = (if Suc a < 5 then Attempt (Suc a) else Done fail)"

fun sys_step :: "'s state_store \<Rightarrow> ('s \<Rightarrow> string \<Rightarrow> (bytes \<times> i64) option) \<Rightarrow> (nat \<Rightarrow> task)
    \<Rightarrow> nat \<times> sys_time \<Rightarrow> 's sys \<Rightarrow> 's sys" where
  "sys_step S view tk (i, clk) \<sigma> =
     (let t = tk i; s = sys_store \<sigma> in
      case sys_pc \<sigma> i of
        Attempt a \<Rightarrow> (case t_plan t clk of
            Inl p \<Rightarrow> set_pc i (Crashed p) \<sigma>
          | Inr _ \<Rightarrow> set_pc i (Fetch a clk) \<sigma>)
      | Fetch a now \<Rightarrow> (case ss_get S (t_key t) s of (got, s') \<Rightarrow>
          (case planned (t_plan t) now (map_option fst got) of
             Inl p \<Rightarrow> set_pc i (Crashed p) (\<sigma>\<lparr>sys_store := s'\<rparr>)
           | Inr (b, d) \<Rightarrow> set_pc i (Swap a now got b d) (\<sigma>\<lparr>sys_store := s'\<rparr>)))
      | Swap a now got b d \<Rightarrow> (case ss_cas S (t_key t) (map_option snd got) b s of (r, s') \<Rightarrow>
          let applied = (cr_success r \<or> view s' (t_key t) \<noteq> view s (t_key t));
              entry = \<lparr>c_task = i, c_now = now, c_decision = d, c_acked = cr_success r\<rparr>;
              log' = (if applied then sys_log \<sigma> @ [entry] else sys_log \<sigma>)
          in set_pc i (if cr_success r then Done d else next_attempt a (t_fail t))
               (\<sigma>\<lparr>sys_store := s', sys_log := log'\<rparr>))
      | Done d \<Rightarrow> \<sigma>
      | Crashed p \<Rightarrow> \<sigma>)"

declare sys_step.simps [simp del]

definition sys_run :: "'s state_store \<Rightarrow> ('s \<Rightarrow> string \<Rightarrow> (bytes \<times> i64) option) \<Rightarrow> (nat \<Rightarrow> task)
    \<Rightarrow> (nat \<times> sys_time) list \<Rightarrow> 's sys \<Rightarrow> 's sys" where
  "sys_run S view tk evs \<sigma> = foldl (\<lambda>\<sigma> ev. sys_step S view tk ev \<sigma>) \<sigma> evs"

inductive reach :: "'s state_store \<Rightarrow> ('s \<Rightarrow> string \<Rightarrow> (bytes \<times> i64) option) \<Rightarrow> ('s \<Rightarrow> bool)
    \<Rightarrow> (nat \<Rightarrow> task) \<Rightarrow> 's \<Rightarrow> 's sys \<Rightarrow> bool"
  for S view room tk s0 where
  reach_init: "reach S view room tk s0 (sys_init s0)"
| reach_step: "reach S view room tk s0 \<sigma> \<Longrightarrow> room (sys_store \<sigma>) \<Longrightarrow>
    reach S view room tk s0 (sys_step S view tk ev \<sigma>)"

section \<open>The sequential reference\<close>

text \<open>
  Running the logged plans on one key, one after another, each at its own clock reading.
  \<open>replay_ok\<close> says that each logged decision is the one its plan takes at its turn.
\<close>

definition commit_eval :: "(nat \<Rightarrow> task) \<Rightarrow> commit \<Rightarrow> bytes option \<Rightarrow> (bytes \<times> decision) res" where
  "commit_eval tk c raw = planned (t_plan (tk (c_task c))) (c_now c) raw"

fun replay :: "(nat \<Rightarrow> task) \<Rightarrow> string \<Rightarrow> bytes option \<Rightarrow> commit list \<Rightarrow> bytes option" where
  "replay tk k raw [] = raw"
| "replay tk k raw (c # cs) =
     replay tk k (if t_key (tk (c_task c)) = k
                  then (case commit_eval tk c raw of Inl _ \<Rightarrow> raw | Inr (b, _) \<Rightarrow> Some b)
                  else raw) cs"

fun replay_ok :: "(nat \<Rightarrow> task) \<Rightarrow> string \<Rightarrow> bytes option \<Rightarrow> commit list \<Rightarrow> bool" where
  "replay_ok tk k raw [] = True"
| "replay_ok tk k raw (c # cs) =
     (if t_key (tk (c_task c)) = k
      then (case commit_eval tk c raw of
              Inl _ \<Rightarrow> False
            | Inr (b, d) \<Rightarrow> d = c_decision c \<and> replay_ok tk k (Some b) cs)
      else replay_ok tk k raw cs)"

definition on_key :: "(nat \<Rightarrow> task) \<Rightarrow> string \<Rightarrow> commit list \<Rightarrow> commit list" where
  "on_key tk k cs = filter (\<lambda>c. t_key (tk (c_task c)) = k) cs"

lemma on_key_simps [simp]:
  "on_key tk k [] = []"
  "on_key tk k (cs @ [c]) = on_key tk k cs @ (if t_key (tk (c_task c)) = k then [c] else [])"
  by (simp_all add: on_key_def)

lemma on_key_subset: "set (on_key tk k cs) \<subseteq> set cs"
  by (auto simp: on_key_def)

lemma replay_append: "replay tk k raw (cs @ ds) = replay tk k (replay tk k raw cs) ds"
  by (induction cs arbitrary: raw) auto

lemma replay_ok_append:
  "replay_ok tk k raw (cs @ ds) \<longleftrightarrow>
    replay_ok tk k raw cs \<and> replay_ok tk k (replay tk k raw cs) ds"
  by (induction cs arbitrary: raw) (auto split: sum.splits)

lemma replay_ok_prefix: "replay_ok tk k raw (cs @ ds) \<Longrightarrow> replay_ok tk k raw cs"
  by (simp add: replay_ok_append)

section \<open>Linearizability\<close>

definition contents :: "('s \<Rightarrow> string \<Rightarrow> (bytes \<times> i64) option) \<Rightarrow> 's \<Rightarrow> string \<Rightarrow> bytes option" where
  "contents view s k = map_option fst (view s k)"

definition linearized :: "('s \<Rightarrow> string \<Rightarrow> (bytes \<times> i64) option) \<Rightarrow> (nat \<Rightarrow> task) \<Rightarrow> 's \<Rightarrow> 's sys \<Rightarrow> bool" where
  "linearized view tk s0 \<sigma> \<longleftrightarrow> (\<forall>k.
     contents view (sys_store \<sigma>) k = replay tk k (contents view s0 k) (sys_log \<sigma>) \<and>
     replay_ok tk k (contents view s0 k) (sys_log \<sigma>))"

text \<open>What a step does, by the state of the task that moves.\<close>

lemma set_pc_simps [simp]:
  "sys_store (set_pc i q \<sigma>) = sys_store \<sigma>"
  "sys_log (set_pc i q \<sigma>) = sys_log \<sigma>"
  "sys_pc (set_pc i q \<sigma>) = (sys_pc \<sigma>)(i := q)"
  by (simp_all add: set_pc_def)

lemma sys_step_pc_other: "j \<noteq> i \<Longrightarrow> sys_pc (sys_step S view tk (i, clk) \<sigma>) j = sys_pc \<sigma> j"
  by (simp add: sys_step.simps Let_def split: pc.splits sum.splits prod.splits)

context versioned_store
begin

definition pc_ok :: "(nat \<Rightarrow> task) \<Rightarrow> 's \<Rightarrow> nat \<Rightarrow> pc \<Rightarrow> bool" where
  "pc_ok tk s i q \<longleftrightarrow> (\<forall>a now got b d. q = Swap a now got b d \<longrightarrow>
     planned (t_plan (tk i)) now (map_option fst got) = Inr (b, d) \<and>
     remembers s (t_key (tk i)) got)"

definition sys_inv :: "(nat \<Rightarrow> task) \<Rightarrow> 's \<Rightarrow> 's sys \<Rightarrow> bool" where
  "sys_inv tk s0 \<sigma> \<longleftrightarrow> inv (sys_store \<sigma>) \<and> linearized view tk s0 \<sigma> \<and>
     (\<forall>i. pc_ok tk (sys_store \<sigma>) i (sys_pc \<sigma> i))"

lemma pc_ok_simps [simp]:
  "pc_ok tk s i (Attempt a)" "pc_ok tk s i (Fetch a now)" "pc_ok tk s i (Done d)"
  "pc_ok tk s i (Crashed p)"
  "pc_ok tk s i (Swap a now got b d) \<longleftrightarrow>
     planned (t_plan (tk i)) now (map_option fst got) = Inr (b, d) \<and> remembers s (t_key (tk i)) got"
  by (simp_all add: pc_ok_def)

lemma pc_ok_next_attempt [simp]: "pc_ok tk s i (next_attempt a f)"
  by (simp add: next_attempt_def)

lemma sys_inv_init: "inv s0 \<Longrightarrow> sys_inv tk s0 (sys_init s0)"
  by (simp add: sys_inv_def sys_init_def linearized_def)

text \<open>Steps that leave the contents and the log alone.\<close>

lemma sys_inv_frame:
  assumes "sys_inv tk s0 \<sigma>" "inv s'" "view s' = view (sys_store \<sigma>)" "stamp (sys_store \<sigma>) \<le> stamp s'"
    and "pc_ok tk s' i q"
  shows "sys_inv tk s0 (set_pc i q (\<sigma>\<lparr>sys_store := s'\<rparr>))"
  using assms
  by (auto simp: sys_inv_def linearized_def contents_def pc_ok_def
      intro: remembers_mono [where s = "sys_store \<sigma>"])

lemma sys_inv_set_pc:
  "sys_inv tk s0 \<sigma> \<Longrightarrow> pc_ok tk (sys_store \<sigma>) i q \<Longrightarrow> sys_inv tk s0 (set_pc i q \<sigma>)"
  by (auto simp: sys_inv_def linearized_def)

text \<open>A compare-and-swap that took effect appends one plan to the sequential run.\<close>

lemma linearized_commit:
  assumes "linearized view tk s0 \<sigma>"
    and "planned (t_plan (tk i)) now (map_option fst got) = Inr (b, d)"
    and "contents view (sys_store \<sigma>) (t_key (tk i)) = map_option fst got"
    and "view s' = (view (sys_store \<sigma>))(t_key (tk i) \<mapsto> (b, v))"
  shows "linearized view tk s0 (set_pc i q (\<sigma>\<lparr>sys_store := s',
      sys_log := sys_log \<sigma> @ [\<lparr>c_task = i, c_now = now, c_decision = d, c_acked = ack\<rparr>]\<rparr>))"
proof -
  have "contents view s' k = (if t_key (tk i) = k then Some b
      else contents view (sys_store \<sigma>) k)" for k
    using assms(4) by (simp add: contents_def)
  then show ?thesis
    using assms(1-3)
    by (auto simp: linearized_def replay_append replay_ok_append commit_eval_def)
qed

lemma sys_inv_swap:
  assumes "sys_inv tk s0 \<sigma>" "room (sys_store \<sigma>)" "sys_pc \<sigma> i = Swap a now got b d"
  shows "sys_inv tk s0 (sys_step S view tk (i, clk) \<sigma>)"
proof -
  let ?k = "t_key (tk i)" and ?s = "sys_store \<sigma>"
  obtain r s' where cas: "ss_cas S ?k (map_option snd got) b ?s = (r, s')" by fastforce
  have inv: "inv ?s" and lin: "linearized view tk s0 \<sigma>"
    and others: "\<And>j. pc_ok tk ?s j (sys_pc \<sigma> j)"
    using assms(1) by (auto simp: sys_inv_def)
  from others [of i] assms(3) have plan: "planned (t_plan (tk i)) now (map_option fst got) = Inr (b, d)"
    and rem: "remembers ?s ?k got" by auto
  note inv' = cas_inv [OF inv assms(2) cas]
  have pcs: "pc_ok tk s' j (sys_pc \<sigma> j)" for j
    using others [of j] remembers_cas [OF _ inv assms(2) cas remembers_nonzero [OF rem]] by (auto simp: pc_ok_def)
  consider (same) "view s' = view ?s" "\<not> cr_success r"
    | (wrote) v where "expects (map_option snd got) (view ?s ?k)" "stamp ?s \<le> v"
      "view s' = (view ?s)(?k \<mapsto> (b, v))"
    using cas_effect [OF inv assms(2) cas remembers_nonzero [OF rem]] by blast
  then show ?thesis
  proof cases
    case same
    with assms(3) cas have "sys_step S view tk (i, clk) \<sigma> =
        set_pc i (next_attempt a (t_fail (tk i))) (\<sigma>\<lparr>sys_store := s'\<rparr>)"
      by (simp add: sys_step.simps)
    with same inv' assms(1) show ?thesis by (auto intro: sys_inv_frame)
  next
    case wrote
    have "view ?s ?k \<noteq> Some (b, v)" using view_stamp [OF inv] wrote(2) by fastforce
    with assms(3) cas wrote(3) have step: "sys_step S view tk (i, clk) \<sigma> =
        set_pc i (if cr_success r then Done d else next_attempt a (t_fail (tk i)))
          (\<sigma>\<lparr>sys_store := s', sys_log := sys_log \<sigma> @
             [\<lparr>c_task = i, c_now = now, c_decision = d, c_acked = cr_success r\<rparr>]\<rparr>)"
      by (auto simp: sys_step.simps Let_def)
    have "contents view ?s ?k = map_option fst got"
      using cas_replaces_read [OF rem wrote(1)] by (simp add: contents_def)
    from linearized_commit [OF lin plan this wrote(3)] show ?thesis
      using inv' pcs by (simp add: sys_inv_def step)
  qed
qed

lemma sys_inv_step:
  assumes "sys_inv tk s0 \<sigma>" "room (sys_store \<sigma>)"
  shows "sys_inv tk s0 (sys_step S view tk ev \<sigma>)"
proof -
  obtain i clk where ev: "ev = (i, clk)" by fastforce
  have inv: "inv (sys_store \<sigma>)" using assms(1) by (simp add: sys_inv_def)
  show ?thesis
  proof (cases "sys_pc \<sigma> i")
    case (Fetch a now)
    obtain got s' where get: "ss_get S (t_key (tk i)) (sys_store \<sigma>) = (got, s')" by fastforce
    note facts = get_inv [OF inv get] remembers_get [OF inv get]
    show ?thesis
    proof (cases "planned (t_plan (tk i)) now (map_option fst got)")
      case (Inl p)
      with facts assms(1) Fetch get show ?thesis
        by (auto simp: ev sys_step.simps intro!: sys_inv_frame)
    next
      case (Inr bd)
      with facts assms(1) Fetch get show ?thesis
        by (cases bd) (auto simp: ev sys_step.simps intro!: sys_inv_frame)
    qed
  next
    case (Attempt a)
    with assms(1) show ?thesis
      by (auto simp: ev sys_step.simps intro: sys_inv_set_pc split: sum.splits)
  next
    case (Swap a now got b d)
    with assms show ?thesis unfolding ev by (rule sys_inv_swap)
  qed (use assms(1) in \<open>auto simp: ev sys_step.simps\<close>)
qed

lemma reach_sys_inv: "reach S view room tk s0 \<sigma> \<Longrightarrow> inv s0 \<Longrightarrow> sys_inv tk s0 \<sigma>"
  by (induction rule: reach.induct) (auto intro: sys_inv_init sys_inv_step)

lemma reach_linearized: "reach S view room tk s0 \<sigma> \<Longrightarrow> inv s0 \<Longrightarrow> linearized view tk s0 \<sigma>"
  using reach_sys_inv by (simp add: sys_inv_def)

end

section \<open>Every call ends\<close>

text \<open>At most fifteen steps of its own end a call: three for each of the five attempts.\<close>

fun pc_fuel :: "pc \<Rightarrow> nat" where
  "pc_fuel (Attempt a) = 3 * (5 - a)"
| "pc_fuel (Fetch a now) = 3 * (5 - a) - 1"
| "pc_fuel (Swap a now got b d) = 3 * (5 - a) - 2"
| "pc_fuel (Done d) = 0"
| "pc_fuel (Crashed p) = 0"

fun pc_range :: "pc \<Rightarrow> bool" where
  "pc_range (Attempt a) = (a < 5)"
| "pc_range (Fetch a now) = (a < 5)"
| "pc_range (Swap a now got b d) = (a < 5)"
| "pc_range _ = True"

fun outcome :: "pc \<Rightarrow> decision res option" where
  "outcome (Done d) = Some (Inr d)"
| "outcome (Crashed p) = Some (Inl p)"
| "outcome _ = None"

lemma next_attempt_fuel: "pc_range (next_attempt a f) \<and> pc_fuel (next_attempt a f) \<le> 3 * (5 - Suc a)"
  by (simp add: next_attempt_def)

lemma sys_step_fuel:
  assumes "pc_range (sys_pc \<sigma> i)"
  shows "pc_range (sys_pc (sys_step S view tk (i, clk) \<sigma>) i) \<and>
    pc_fuel (sys_pc (sys_step S view tk (i, clk) \<sigma>) i) \<le> pc_fuel (sys_pc \<sigma> i) - 1"
proof (cases "sys_pc \<sigma> i")
  case (Swap a now got b d)
  have "3 * (5 - Suc a) \<le> 3 * (5 - a) - 3" by simp
  with next_attempt_fuel [of a "t_fail (tk i)"] Swap assms show ?thesis
    by (auto simp: sys_step.simps Let_def split: prod.splits)
qed (use assms in \<open>auto simp: sys_step.simps Let_def split: sum.splits prod.splits\<close>)

lemma pc_fuel_0: "pc_range q \<Longrightarrow> pc_fuel q = 0 \<Longrightarrow> outcome q \<noteq> None"
  by (cases q) auto

lemma sys_run_simps [simp]:
  "sys_run S view tk [] \<sigma> = \<sigma>"
  "sys_run S view tk (ev # evs) \<sigma> = sys_run S view tk evs (sys_step S view tk ev \<sigma>)"
  by (simp_all add: sys_run_def)

lemma sys_run_append:
  "sys_run S view tk (evs @ evs') \<sigma> = sys_run S view tk evs' (sys_run S view tk evs \<sigma>)"
  by (simp add: sys_run_def)

lemma sys_run_fuel:
  assumes "pc_range (sys_pc \<sigma> i)"
  shows "pc_range (sys_pc (sys_run S view tk evs \<sigma>) i) \<and>
    pc_fuel (sys_pc (sys_run S view tk evs \<sigma>) i)
      \<le> pc_fuel (sys_pc \<sigma> i) - length (filter (\<lambda>ev. fst ev = i) evs)"
  using assms
proof (induction evs arbitrary: \<sigma>)
  case (Cons ev evs)
  obtain j clk where ev: "ev = (j, clk)" by fastforce
  show ?case
  proof (cases "j = i")
    case True
    with Cons.IH [of "sys_step S view tk ev \<sigma>"] sys_step_fuel [OF Cons.prems, of S view tk clk]
    show ?thesis by (auto simp: ev)
  next
    case False
    with Cons.IH [of "sys_step S view tk ev \<sigma>"] Cons.prems show ?thesis
      by (simp add: ev sys_step_pc_other)
  qed
qed simp

lemma sys_run_ends:
  assumes "15 \<le> length (filter (\<lambda>ev. fst ev = i) evs)"
  shows "outcome (sys_pc (sys_run S view tk evs (sys_init s0)) i) \<noteq> None"
  using sys_run_fuel [of "sys_init s0" i S view tk evs] assms
  by (intro pc_fuel_0) (auto simp: sys_init_def)

lemma sys_step_final: "outcome (sys_pc \<sigma> i) \<noteq> None \<Longrightarrow> sys_step S view tk (i, clk) \<sigma> = \<sigma>"
  by (cases "sys_pc \<sigma> i") (auto simp: sys_step.simps)

section \<open>The loop of one caller is this machine\<close>

text \<open>
  Scheduled alone, a task does what \<open>check_loop\<close> says, for any store whatsoever.
\<close>

definition solo :: "nat \<Rightarrow> (nat \<Rightarrow> sys_time) \<Rightarrow> nat list \<Rightarrow> (nat \<times> sys_time) list" where
  "solo i clk as = concat (map (\<lambda>a. replicate 3 (i, clk a)) as)"

lemma sys_run_final:
  "outcome (sys_pc \<sigma> i) \<noteq> None \<Longrightarrow> sys_run S view tk (solo i clk as) \<sigma> = \<sigma>"
  by (induction as) (simp_all add: solo_def sys_run_append eval_nat_numeral sys_step_final)

lemma attempt_run:
  assumes pc: "sys_pc \<sigma> i = Attempt a"
    and \<sigma>': "\<sigma>' = sys_run S view tk (replicate 3 (i, clk a)) \<sigma>"
  shows "(\<exists>x. outcome (sys_pc \<sigma>' i) = Some x \<and>
      check_attempts S (quiet clk) (t_key (tk i)) (t_plan (tk i)) fail (a # as) (sys_store \<sigma>)
        = (x, sys_store \<sigma>')) \<or>
    sys_pc \<sigma>' i = next_attempt a (t_fail (tk i)) \<and>
      check_attempts S (quiet clk) (t_key (tk i)) (t_plan (tk i)) fail (a # as) (sys_store \<sigma>)
        = check_attempts S (quiet clk) (t_key (tk i)) (t_plan (tk i)) fail as (sys_store \<sigma>')"
proof (cases "t_plan (tk i) (clk a)")
  case (Inl p)
  with pc \<sigma>' show ?thesis by (simp add: eval_nat_numeral sys_step.simps quiet_def)
next
  case (Inr body)
  obtain got s1 where get: "ss_get S (t_key (tk i)) (sys_store \<sigma>) = (got, s1)" by fastforce
  show ?thesis
  proof (cases "body (map_option fst got)")
    case (Inl p)
    with pc \<sigma>' Inr get show ?thesis by (simp add: eval_nat_numeral sys_step.simps quiet_def)
  next
    case inner: (Inr bd)
    obtain b d r s2 where "bd = (b, d)"
      and "ss_cas S (t_key (tk i)) (map_option snd got) b s1 = (r, s2)"
      by (metis surj_pair)
    with pc \<sigma>' Inr get inner show ?thesis
      by (simp add: eval_nat_numeral sys_step.simps quiet_def Let_def)
  qed
qed

lemma solo_run:
  assumes "sys_pc \<sigma> i = (if a < 5 then Attempt a else Done (t_fail (tk i)))"
    and "check_attempts S (quiet clk) (t_key (tk i)) (t_plan (tk i)) (t_fail (tk i)) [a..<5]
      (sys_store \<sigma>) = (x, s')"
  shows "sys_store (sys_run S view tk (solo i clk [a..<5]) \<sigma>) = s' \<and>
    outcome (sys_pc (sys_run S view tk (solo i clk [a..<5]) \<sigma>) i) = Some x"
  using assms
proof (induction "5 - a" arbitrary: a \<sigma>)
  case 0
  then show ?case by (simp add: solo_def)
next
  case (Suc n)
  then have a: "a < 5" and upt: "[a..<5] = a # [Suc a..<5]" by (simp_all add: upt_conv_Cons)
  define \<sigma>' where "\<sigma>' = sys_run S view tk (replicate 3 (i, clk a)) \<sigma>"
  have run: "sys_run S view tk (solo i clk [a..<5]) \<sigma> = sys_run S view tk (solo i clk [Suc a..<5]) \<sigma>'"
    by (simp add: upt solo_def sys_run_append \<sigma>'_def)
  have pc: "sys_pc \<sigma> i = Attempt a" using Suc.prems(1) a by simp
  from attempt_run [where clk = clk and fail = "t_fail (tk i)" and as = "[Suc a..<5]",
      OF pc \<sigma>'_def] show ?case
  proof (elim disjE exE conjE)
    fix y assume "outcome (sys_pc \<sigma>' i) = Some y"
      and "check_attempts S (quiet clk) (t_key (tk i)) (t_plan (tk i)) (t_fail (tk i))
        (a # [Suc a..<5]) (sys_store \<sigma>) = (y, sys_store \<sigma>')"
    with Suc.prems(2) [unfolded upt] show ?thesis
      by (simp add: run sys_run_final del: check_attempts.simps)
  next
    assume "sys_pc \<sigma>' i = next_attempt a (t_fail (tk i))"
      and "check_attempts S (quiet clk) (t_key (tk i)) (t_plan (tk i)) (t_fail (tk i))
          (a # [Suc a..<5]) (sys_store \<sigma>)
        = check_attempts S (quiet clk) (t_key (tk i)) (t_plan (tk i)) (t_fail (tk i))
          [Suc a..<5] (sys_store \<sigma>')"
    then show ?thesis
      using Suc.hyps(1) [of "Suc a" \<sigma>'] Suc.hyps(2) Suc.prems(2) [unfolded upt] unfolding run
      by (simp add: next_attempt_def del: check_attempts.simps)
  qed
qed

section \<open>What a caller is told, and what it is charged\<close>

text \<open>
  A returned decision is the fallback or that of an acknowledged log entry of the same
  call, and a call has at most one acknowledged entry.
\<close>

definition reports :: "(nat \<Rightarrow> task) \<Rightarrow> 's sys \<Rightarrow> bool" where
  "reports tk \<sigma> \<longleftrightarrow>
     (\<forall>i d. sys_pc \<sigma> i = Done d \<longrightarrow> d = t_fail (tk i) \<or>
        (\<exists>c \<in> set (sys_log \<sigma>). c_task c = i \<and> c_decision c = d \<and> c_acked c)) \<and>
     (\<forall>c \<in> set (sys_log \<sigma>). c_acked c \<longrightarrow> sys_pc \<sigma> (c_task c) = Done (c_decision c)) \<and>
     distinct (map c_task (filter c_acked (sys_log \<sigma>)))"

lemma reports_init: "reports tk (sys_init s0)"
  by (simp add: reports_def sys_init_def)

lemma reports_same_log:
  assumes "reports tk \<sigma>" "outcome (sys_pc \<sigma> i) = None" "\<And>d. q = Done d \<Longrightarrow> d = t_fail (tk i)"
    and "sys_log \<sigma>' = sys_log \<sigma>" "sys_pc \<sigma>' = (sys_pc \<sigma>)(i := q)"
  shows "reports tk \<sigma>'"
  using assms by (fastforce simp: reports_def)

lemma reports_log:
  assumes "reports tk \<sigma>" "outcome (sys_pc \<sigma> i) = None" "c_task e = i"
    and "q = (if c_acked e then Done (c_decision e) else next_attempt a (t_fail (tk i)))"
    and "sys_log \<sigma>' = sys_log \<sigma> @ [e]" "sys_pc \<sigma>' = (sys_pc \<sigma>)(i := q)"
  shows "reports tk \<sigma>'"
proof -
  have "c_task c \<noteq> i" if "c \<in> set (sys_log \<sigma>)" "c_acked c" for c
    using assms(1,2) that by (force simp: reports_def)
  then show ?thesis using assms by (fastforce simp: reports_def next_attempt_def)
qed

lemma reports_step: "reports tk \<sigma> \<Longrightarrow> reports tk (sys_step S view tk (i, clk) \<sigma>)"
proof (cases "sys_pc \<sigma> i")
  case (Swap a now got b d)
  assume rep: "reports tk \<sigma>"
  obtain r s' where cas: "ss_cas S (t_key (tk i)) (map_option snd got) b (sys_store \<sigma>) = (r, s')"
    by fastforce
  let ?\<sigma>' = "sys_step S view tk (i, clk) \<sigma>"
  let ?e = "\<lparr>c_task = i, c_now = now, c_decision = d, c_acked = cr_success r\<rparr>"
  let ?q = "if cr_success r then Done d else next_attempt a (t_fail (tk i))"
  have pc: "sys_pc ?\<sigma>' = (sys_pc \<sigma>)(i := ?q)" and none: "outcome (sys_pc \<sigma> i) = None"
    using Swap cas by (auto simp: sys_step.simps Let_def)
  consider (applied) "sys_log ?\<sigma>' = sys_log \<sigma> @ [?e]"
    | (idle) "sys_log ?\<sigma>' = sys_log \<sigma>" "\<not> cr_success r"
    using Swap cas
    by (cases "cr_success r"; cases "view s' (t_key (tk i)) = view (sys_store \<sigma>) (t_key (tk i))")
      (simp_all add: sys_step.simps Let_def)
  then show ?thesis
  proof cases
    case applied
    show ?thesis by (rule reports_log [where a = a, OF rep none _ _ applied pc]) simp_all
  next
    case idle
    show ?thesis
      by (rule reports_same_log [OF rep none _ idle(1) pc])
        (use idle(2) in \<open>auto simp: next_attempt_def split: if_splits\<close>)
  qed
next
  case (Attempt a)
  assume "reports tk \<sigma>"
  then show ?thesis
    by (rule reports_same_log [where i = i and
          q = "case t_plan (tk i) clk of Inl p \<Rightarrow> Crashed p | Inr _ \<Rightarrow> Fetch a clk"])
      (use Attempt in \<open>auto simp: sys_step.simps split: sum.splits\<close>)
next
  case (Fetch a now)
  assume "reports tk \<sigma>"
  then show ?thesis
    by (rule reports_same_log [where i = i and
          q = "case ss_get S (t_key (tk i)) (sys_store \<sigma>) of (got, _) \<Rightarrow>
            (case planned (t_plan (tk i)) now (map_option fst got) of
               Inl p \<Rightarrow> Crashed p | Inr (b, d) \<Rightarrow> Swap a now got b d)"])
      (use Fetch in \<open>auto simp: sys_step.simps Let_def split: sum.splits prod.splits\<close>)
qed (auto simp: sys_step.simps)

lemma reach_reports: "reach S view room tk s0 \<sigma> \<Longrightarrow> reports tk \<sigma>"
  by (induction rule: reach.induct) (auto simp: reports_init intro: reports_step)

fun rooms :: "'s state_store \<Rightarrow> ('s \<Rightarrow> string \<Rightarrow> (bytes \<times> i64) option) \<Rightarrow> ('s \<Rightarrow> bool)
    \<Rightarrow> (nat \<Rightarrow> task) \<Rightarrow> (nat \<times> sys_time) list \<Rightarrow> 's sys \<Rightarrow> bool" where
  "rooms S view room tk [] \<sigma> = True"
| "rooms S view room tk (ev # evs) \<sigma> =
     (room (sys_store \<sigma>) \<and> rooms S view room tk evs (sys_step S view tk ev \<sigma>))"

lemma reach_sys_run:
  "reach S view room tk s0 \<sigma> \<Longrightarrow> rooms S view room tk evs \<sigma> \<Longrightarrow>
    reach S view room tk s0 (sys_run S view tk evs \<sigma>)"
  by (induction evs arbitrary: \<sigma>) (auto intro: reach_step)

definition rivals :: "(nat \<Rightarrow> task) \<Rightarrow> nat \<Rightarrow> 's sys \<Rightarrow> nat" where
  "rivals tk i \<sigma> = length (on_key tk (t_key (tk i)) (sys_log \<sigma>))"

section \<open>Over a reliable store every effect is acknowledged\<close>

context reliable_store
begin

lemma log_acked:
  "reach S view room tk s0 \<sigma> \<Longrightarrow> inv s0 \<Longrightarrow> \<forall>c \<in> set (sys_log \<sigma>). c_acked c"
proof (induction rule: reach.induct)
  case (reach_step \<sigma> ev)
  obtain i clk where ev: "ev = (i, clk)" by fastforce
  have inv: "inv (sys_store \<sigma>)"
    using reach_sys_inv [OF reach_step.hyps(1) reach_step.prems] by (simp add: sys_inv_def)
  note IH = reach_step.IH [OF reach_step.prems]
  show ?case
  proof (cases "sys_pc \<sigma> i")
    case (Swap a now got b d)
    obtain r s' where cas:
      "ss_cas S (t_key (tk i)) (map_option snd got) b (sys_store \<sigma>) = (r, s')" by fastforce
    with cas_conflict [OF inv reach_step.hyps(2) cas] Swap IH show ?thesis
      by (auto simp: ev sys_step.simps Let_def)
  qed (use IH in \<open>auto simp: ev sys_step.simps Let_def split: sum.splits prod.splits\<close>)
qed (simp add: sys_init_def)

lemma charged_once:
  "reach S view room tk s0 \<sigma> \<Longrightarrow> inv s0 \<Longrightarrow> distinct (map c_task (sys_log \<sigma>))"
  using log_acked [of tk s0 \<sigma>] reach_reports [of S view room tk s0 \<sigma>]
  by (simp add: reports_def filter_True)

text \<open>
  Lock-freedom: an attempt is lost only to a commit on the same key, so a call that gives up
  has seen five of them.
\<close>

definition progress_pc :: "(nat \<Rightarrow> task) \<Rightarrow> 's sys \<Rightarrow> nat \<Rightarrow> pc \<Rightarrow> bool" where
  "progress_pc tk \<sigma> i q \<longleftrightarrow> (case q of
     Attempt a \<Rightarrow> a \<le> rivals tk i \<sigma>
   | Fetch a now \<Rightarrow> a \<le> rivals tk i \<sigma>
   | Swap a now got b d \<Rightarrow> a \<le> rivals tk i \<sigma> \<and>
       (map_option snd (view (sys_store \<sigma>) (t_key (tk i))) \<noteq> map_option snd got \<longrightarrow> a < rivals tk i \<sigma>)
   | Done d \<Rightarrow> i \<in> c_task ` set (sys_log \<sigma>) \<or> 5 \<le> rivals tk i \<sigma>
   | Crashed p \<Rightarrow> True)"

definition progress :: "(nat \<Rightarrow> task) \<Rightarrow> 's sys \<Rightarrow> bool" where
  "progress tk \<sigma> \<longleftrightarrow> (\<forall>i. progress_pc tk \<sigma> i (sys_pc \<sigma> i))"

lemma progress_pc_frame:
  "sys_store \<sigma>' = sys_store \<sigma> \<Longrightarrow> sys_log \<sigma>' = sys_log \<sigma> \<Longrightarrow> progress_pc tk \<sigma>' j q = progress_pc tk \<sigma> j q"
  by (cases q) (simp_all add: progress_pc_def rivals_def)

lemma progress_frame:
  assumes "progress tk \<sigma>" "sys_store \<sigma>' = sys_store \<sigma>" "sys_log \<sigma>' = sys_log \<sigma>"
    and "sys_pc \<sigma>' = (sys_pc \<sigma>)(i := q)" "progress_pc tk \<sigma> i q"
  shows "progress tk \<sigma>'"
  using assms(1,5) by (simp add: progress_def progress_pc_frame [OF assms(2,3)] assms(4))

lemma progress_pc_write:
  assumes "progress_pc tk \<sigma> j q" "view (sys_store \<sigma>') = (view (sys_store \<sigma>))(k \<mapsto> e)"
    and "sys_log \<sigma>' = sys_log \<sigma> @ [c]" "t_key (tk (c_task c)) = k"
  shows "progress_pc tk \<sigma>' j q"
  using assms by (auto simp: progress_pc_def rivals_def split: pc.splits)

lemma progress_swap:
  assumes prog: "progress tk \<sigma>" and pc: "sys_pc \<sigma> i = Swap a now got b d"
    and inv: "inv (sys_store \<sigma>)" and room: "room (sys_store \<sigma>)"
  shows "progress tk (sys_step S view tk (i, clk) \<sigma>)"
proof -
  obtain r s' where cas: "ss_cas S (t_key (tk i)) (map_option snd got) b (sys_store \<sigma>) = (r, s')"
    by fastforce
  have own: "progress_pc tk \<sigma> i (Swap a now got b d)"
    using prog pc by (metis progress_def)
  show ?thesis
  proof (cases "cr_success r")
    case True
    let ?\<sigma>' = "sys_step S view tk (i, clk) \<sigma>"
    let ?e = "\<lparr>c_task = i, c_now = now, c_decision = d, c_acked = True\<rparr>"
    have log: "sys_log ?\<sigma>' = sys_log \<sigma> @ [?e]" and pcs: "sys_pc ?\<sigma>' = (sys_pc \<sigma>)(i := Done d)"
      and store: "sys_store ?\<sigma>' = s'"
      using pc cas True by (simp_all add: sys_step.simps Let_def)
    from cas_write [OF inv room cas True] have
      v: "view (sys_store ?\<sigma>') = (view (sys_store \<sigma>))(t_key (tk i) \<mapsto> (b, cr_version r))"
      by (simp add: store)
    have "progress_pc tk ?\<sigma>' j (sys_pc \<sigma> j)" for j
      using prog by (intro progress_pc_write [OF _ v log]) (auto simp: progress_def)
    moreover have "progress_pc tk ?\<sigma>' i (Done d)" by (simp add: progress_pc_def log)
    ultimately show ?thesis by (simp add: progress_def pcs)
  next
    case False
    from cas_conflict [OF inv room cas False] have s': "s' = sys_store \<sigma>" by simp
    have "map_option snd (view (sys_store \<sigma>) (t_key (tk i))) \<noteq> map_option snd got"
      using cas_iff [OF inv room cas] False by (auto simp: expects_def)
    with own have "a < rivals tk i \<sigma>" by (simp add: progress_pc_def)
    then have "progress_pc tk \<sigma> i (next_attempt a (t_fail (tk i)))"
      by (auto simp: progress_pc_def next_attempt_def)
    then show ?thesis
      by (rule progress_frame [OF prog, rotated -1]) (use pc cas s' False in \<open>simp_all add: sys_step.simps Let_def\<close>)
  qed
qed

lemma progress_step:
  assumes prog: "progress tk \<sigma>" and inv: "inv (sys_store \<sigma>)" and room: "room (sys_store \<sigma>)"
  shows "progress tk (sys_step S view tk (i, clk) \<sigma>)"
proof (cases "sys_pc \<sigma> i")
  case (Attempt a)
  with prog have "a \<le> rivals tk i \<sigma>" by (auto simp: progress_def progress_pc_def dest!: spec [of _ i])
  then have "progress_pc tk \<sigma> i (case t_plan (tk i) clk of Inl p \<Rightarrow> Crashed p | Inr _ \<Rightarrow> Fetch a clk)"
    by (simp add: progress_pc_def split: sum.splits)
  then show ?thesis
    by (rule progress_frame [OF prog, rotated -1])
      (use Attempt in \<open>simp_all add: sys_step.simps split: sum.splits\<close>)
next
  case (Fetch a now)
  obtain got s' where get: "ss_get S (t_key (tk i)) (sys_store \<sigma>) = (got, s')" by fastforce
  with get_exact [OF inv get] have s': "s' = sys_store \<sigma>"
    and got: "got = view (sys_store \<sigma>) (t_key (tk i))" by auto
  from Fetch prog have "a \<le> rivals tk i \<sigma>" by (auto simp: progress_def progress_pc_def dest!: spec [of _ i])
  with got have "progress_pc tk \<sigma> i (case planned (t_plan (tk i)) now (map_option fst got) of
      Inl p \<Rightarrow> Crashed p | Inr (b, d) \<Rightarrow> Swap a now got b d)"
    by (auto simp: progress_pc_def split: sum.splits)
  then show ?thesis
    by (rule progress_frame [OF prog, rotated -1])
      (use Fetch get s' in \<open>auto simp: sys_step.simps Let_def split: sum.splits\<close>)
next
  case (Swap a now got b d)
  then show ?thesis by (rule progress_swap [OF prog _ inv room])
qed (use prog in \<open>simp_all add: sys_step.simps\<close>)

lemma reach_progress:
  "reach S view room tk s0 \<sigma> \<Longrightarrow> inv s0 \<Longrightarrow> progress tk \<sigma>"
proof (induction rule: reach.induct)
  case reach_init
  show ?case by (simp add: progress_def progress_pc_def sys_init_def)
next
  case (reach_step \<sigma> ev)
  then have "inv (sys_store \<sigma>)" using reach_sys_inv by (simp add: sys_inv_def)
  with reach_step show ?case by (cases ev) (simp add: progress_step)
qed

lemma gives_up_late:
  assumes "reach S view room tk s0 \<sigma>" "inv s0" "sys_pc \<sigma> i = Done d"
    and "i \<notin> c_task ` set (sys_log \<sigma>)"
  shows "d = t_fail (tk i) \<and> 5 \<le> rivals tk i \<sigma>"
  using reach_progress [OF assms(1,2)] reach_reports [OF assms(1)] assms(3,4)
  by (force simp: progress_def progress_pc_def reports_def dest!: spec [of _ i])

end

end
