(* ===== verification/Refined_Plan.thy ===== *)
theory Refined_Plan
  imports Concurrent
begin

text \<open>
  The contract by which an algorithm's plan implements an abstract step function, and its
  lift from one plan to the committed log of any number of concurrent calls. The abstract
  state, its events and its steps are parameters; each algorithm provides its own.
\<close>

section \<open>A condition along a run\<close>

fun along :: "('a \<Rightarrow> 'e \<Rightarrow> bool) \<Rightarrow> ('a \<Rightarrow> 'e \<Rightarrow> 'a) \<Rightarrow> 'a \<Rightarrow> 'e list \<Rightarrow> bool" where
  "along P f a [] = True"
| "along P f a (e # es) = (P a e \<and> along P f (f a e) es)"

lemma along_append [simp]:
  "along P f a (es @ es') \<longleftrightarrow> along P f a es \<and> along P f (foldl f a es) es'"
  by (induction es arbitrary: a) auto

lemma along_mono: "along P f a es \<Longrightarrow> (\<And>a e. P a e \<Longrightarrow> Q a e) \<Longrightarrow> along Q f a es"
  by (induction es arbitrary: a) auto

lemma along_True: "along (\<lambda>_ _. True) f a es"
  by (induction es arbitrary: a) auto

section \<open>Events of a log\<close>

definition log_events :: "(nat \<Rightarrow> task) \<Rightarrow> (nat \<Rightarrow> u32) \<Rightarrow> (sys_time \<Rightarrow> u32 \<Rightarrow> decision \<Rightarrow> 'e) \<Rightarrow> string
    \<Rightarrow> commit list \<Rightarrow> 'e list" where
  \<comment> \<open>the entries of one key, each as the abstract event it stands for\<close>
  "log_events tk cost ev k cs =
     map (\<lambda>c. ev (c_now c) (cost (c_task c)) (c_decision c)) (on_key tk k cs)"

lemma log_events_Nil [simp]: "log_events tk cost ev k [] = []"
  by (simp add: log_events_def)

lemma log_events_snoc [simp]:
  "log_events tk cost ev k (cs @ [c]) = log_events tk cost ev k cs @
    (if t_key (tk (c_task c)) = k then [ev (c_now c) (cost (c_task c)) (c_decision c)] else [])"
  by (simp add: log_events_def)

section \<open>The contract\<close>

locale refined_plan =
  fixes plan :: "'cfg \<Rightarrow> u32 \<Rightarrow> plan"
    and valid :: "'cfg \<Rightarrow> bool"
    and good :: "'cfg \<Rightarrow> bytes option \<Rightarrow> bool"
    and abs :: "'cfg \<Rightarrow> bytes option \<Rightarrow> 'a"
    and event :: "'cfg \<Rightarrow> sys_time \<Rightarrow> u32 \<Rightarrow> decision \<Rightarrow> 'e"
    and next_abs :: "'cfg \<Rightarrow> 'a \<Rightarrow> 'e \<Rightarrow> 'a"
    and init :: "'cfg \<Rightarrow> 'a"
    and pre :: "'cfg \<Rightarrow> 'a \<Rightarrow> 'e \<Rightarrow> bool"
    and guard :: "'cfg \<Rightarrow> 'a \<Rightarrow> 'e \<Rightarrow> bool"
  assumes start: "valid L \<Longrightarrow> good L None \<and> abs L None = init L"
    and refines: "valid L \<Longrightarrow> good L raw \<Longrightarrow> clock_ok t \<Longrightarrow>
      planned (plan L cost) t raw = Inr (b, d) \<Longrightarrow> pre L (abs L raw) (event L t cost d) \<Longrightarrow>
      good L (Some b) \<and> abs L (Some b) = next_abs L (abs L raw) (event L t cost d) \<and>
      guard L (abs L raw) (event L t cost d)"
begin

lemma replay_refines:
  assumes "valid L"
    and clients: "\<And>i. t_key (tk i) = k \<Longrightarrow> t_plan (tk i) = plan L (cost i)"
    and "\<And>c. c \<in> set cs \<Longrightarrow> clock_ok (c_now c)"
    and "along (pre L) (next_abs L) (init L) (log_events tk cost (event L) k cs)"
    and "replay_ok tk k None cs"
  shows "good L (replay tk k None cs) \<and>
    abs L (replay tk k None cs) = foldl (next_abs L) (init L) (log_events tk cost (event L) k cs) \<and>
    along (guard L) (next_abs L) (init L) (log_events tk cost (event L) k cs)"
  using assms(3-5)
proof (induction cs rule: rev_induct)
  case Nil
  then show ?case using start [OF assms(1)] by simp
next
  case (snoc c cs)
  let ?es = "log_events tk cost (event L) k cs"
  have ok: "replay_ok tk k None cs" using snoc.prems(3) by (rule replay_ok_prefix)
  have pre: "along (pre L) (next_abs L) (init L) ?es" using snoc.prems(2) by simp
  from snoc.IH [OF _ pre ok] snoc.prems(1)
  have IH: "good L (replay tk k None cs)" "abs L (replay tk k None cs) = foldl (next_abs L) (init L) ?es"
    "along (guard L) (next_abs L) (init L) ?es" by auto
  show ?case
  proof (cases "t_key (tk (c_task c)) = k")
    case False
    with IH show ?thesis by (simp add: replay_append)
  next
    case True
    from True snoc.prems(3) obtain b where
      eval: "planned (plan L (cost (c_task c))) (c_now c) (replay tk k None cs) = Inr (b, c_decision c)"
      by (auto simp: replay_ok_append commit_eval_def clients split: sum.splits)
    have "pre L (abs L (replay tk k None cs)) (event L (c_now c) (cost (c_task c)) (c_decision c))"
      using snoc.prems(2) True IH(2) by simp
    with refines [OF assms(1) IH(1) _ eval] snoc.prems(1) IH eval True show ?thesis
      by (simp add: replay_append commit_eval_def clients)
  qed
qed

end

end
