(* ===== verification/Window_Budget.thy ===== *)
theory Window_Budget
  imports Refined_Plan
begin

text \<open>
  The abstract promise of the two window-counter algorithms: a counter tagged with a
  window number, reset when the window changes. An event is a window number, a cost and
  whether it was allowed. When the windows come in order, the counter of a window is the
  cost admitted in it, so a bound on the counter is a bound on every window.
\<close>

type_synonym wevent = "nat \<times> nat \<times> bool"

definition wcount :: "(nat \<times> nat) option \<Rightarrow> nat \<Rightarrow> nat" where
  \<comment> \<open>the counter as a request in window \<open>w\<close> sees it\<close>
  "wcount st w = (case st of None \<Rightarrow> 0 | Some (w', n) \<Rightarrow> if w' = w then n else 0)"

definition wstep :: "(nat \<times> nat) option \<Rightarrow> wevent \<Rightarrow> (nat \<times> nat) option" where
  "wstep st e = (case e of (w, c, ok) \<Rightarrow> Some (w, wcount st w + (if ok then c else 0)))"

definition wrun :: "wevent list \<Rightarrow> (nat \<times> nat) option" where
  "wrun es = foldl wstep None es"

definition wcost :: "nat \<Rightarrow> wevent \<Rightarrow> nat" where
  "wcost w e = (case e of (w', c, ok) \<Rightarrow> if ok \<and> w' = w then c else 0)"

definition admitted :: "nat \<Rightarrow> wevent list \<Rightarrow> nat" where
  "admitted w es = sum_list (map (wcost w) es)"

definition fits :: "nat \<Rightarrow> (nat \<times> nat) option \<Rightarrow> wevent \<Rightarrow> bool" where
  \<comment> \<open>an event is allowed only if it fits on top of the counter it sees\<close>
  "fits q st e = (case e of (w, c, ok) \<Rightarrow> ok \<longrightarrow> wcount st w + c \<le> q)"

definition within_budget :: "nat \<Rightarrow> wevent list \<Rightarrow> bool" where
  "within_budget q es = along (fits q) wstep None es"

lemma wrun_Nil [simp]: "wrun [] = None"
  by (simp add: wrun_def)

lemma wrun_snoc [simp]: "wrun (es @ [e]) = wstep (wrun es) e"
  by (simp add: wrun_def)

lemma admitted_Nil [simp]: "admitted w [] = 0"
  by (simp add: admitted_def)

lemma admitted_snoc [simp]: "admitted w (es @ [e]) = admitted w es + wcost w e"
  by (simp add: admitted_def)

lemma within_budget_snoc:
  "within_budget b (es @ [(w, c, ok)]) \<longleftrightarrow>
    within_budget b es \<and> (ok \<longrightarrow> wcount (wrun es) w + c \<le> b)"
  by (simp add: within_budget_def wrun_def fits_def)

lemma admitted_beyond: "(\<And>e. e \<in> set es \<Longrightarrow> fst e < w) \<Longrightarrow> admitted w es = 0"
  by (induction es rule: rev_induct) (fastforce simp: wcost_def split: prod.splits)+

text \<open>In order, the counter a request sees is what its window has admitted.\<close>

lemma wcount_admitted:
  "sorted (map fst (es @ [(w, c, ok)])) \<Longrightarrow> wcount (wrun es) w = admitted w es"
proof (induction es arbitrary: w c ok rule: rev_induct)
  case Nil
  then show ?case by (simp add: wcount_def)
next
  case (snoc e es)
  obtain w1 c1 ok1 where e: "e = (w1, c1, ok1)" by (cases e)
  from snoc.prems have sorted: "sorted (map fst (es @ [(w1, c1, ok1)]))" and le: "w1 \<le> w"
    by (simp_all add: sorted_append e)
  show ?case
  proof (cases "w1 = w")
    case True
    then show ?thesis using snoc.IH [OF sorted] by (simp add: e wstep_def wcount_def [of "Some _"] wcost_def)
  next
    case False
    with le sorted have "admitted w (es @ [e]) = 0"
      by (intro admitted_beyond) (fastforce simp: sorted_append e)
    with False show ?thesis by (simp add: e wstep_def wcount_def)
  qed
qed

theorem admitted_within_budget:
  "sorted (map fst es) \<Longrightarrow> within_budget b es \<Longrightarrow> admitted w es \<le> b"
proof (induction es rule: rev_induct)
  case (snoc e es)
  obtain w1 c ok where e: "e = (w1, c, ok)" by (cases e)
  from snoc.prems have "admitted w es \<le> b" and "ok \<Longrightarrow> wcount (wrun es) w1 + c \<le> b"
    by (auto intro: snoc.IH simp: e within_budget_snoc sorted_append)
  with wcount_admitted [of es w1 c ok] snoc.prems(1) show ?case
    by (auto simp: e wcost_def)
qed simp

end
