(* ===== verification/Window_Limiter.thy ===== *)
theory Window_Limiter
  imports Refined_Plan Window_Budget
begin

text \<open>
  The contract that the two window-counter algorithms share, and what it gives for any
  number of concurrent calls: as long as the compare-and-swaps of a key commit in the
  order of their windows, no window admits more than the quota.
\<close>

definition in_order :: "(nat \<times> nat) option \<Rightarrow> nat \<Rightarrow> bool" where
  "in_order st w \<longleftrightarrow> (\<forall>w' n. st = Some (w', n) \<longrightarrow> w' \<le> w)"

definition window_event :: "(sys_time \<Rightarrow> nat) \<Rightarrow> sys_time \<Rightarrow> u32 \<Rightarrow> decision \<Rightarrow> wevent" where
  "window_event win t cost d = (win t, unat cost, d_allowed d)"

definition window_events :: "(nat \<Rightarrow> task) \<Rightarrow> (nat \<Rightarrow> u32) \<Rightarrow> (sys_time \<Rightarrow> nat) \<Rightarrow> string
    \<Rightarrow> commit list \<Rightarrow> wevent list" where
  \<comment> \<open>the log entries of one key as window, cost and outcome\<close>
  "window_events tk cost win k cs = log_events tk cost (window_event win) k cs"

definition commits_in_order :: "(nat \<Rightarrow> task) \<Rightarrow> (sys_time \<Rightarrow> nat) \<Rightarrow> string \<Rightarrow> commit list \<Rightarrow> bool" where
  "commits_in_order tk win k cs \<longleftrightarrow> sorted (map (\<lambda>c. win (c_now c)) (on_key tk k cs))"

lemma commits_in_order_events:
  "commits_in_order tk win k cs \<longleftrightarrow> sorted (map fst (window_events tk cost win k cs))"
  by (simp add: commits_in_order_def window_events_def log_events_def window_event_def comp_def)

lemma sorted_in_order:
  "sorted (map fst es) \<Longrightarrow> along (\<lambda>st e. in_order st (fst e)) wstep None es"
proof (induction es rule: rev_induct)
  case (snoc e es)
  have "in_order (wrun es) (fst e)"
    using snoc.prems
    by (cases es rule: rev_cases)
      (auto simp: in_order_def wrun_def wstep_def sorted_append split: prod.splits)
  with snoc show ?case by (simp add: sorted_append wrun_def)
qed simp

locale window_counter =
  fixes plan :: "'cfg \<Rightarrow> u32 \<Rightarrow> plan"
    and valid :: "'cfg \<Rightarrow> bool"
    and abs :: "'cfg \<Rightarrow> bytes option \<Rightarrow> (nat \<times> nat) option"
    and win :: "'cfg \<Rightarrow> sys_time \<Rightarrow> nat"
    and quota :: "'cfg \<Rightarrow> nat"
    and good :: "'cfg \<Rightarrow> bytes option \<Rightarrow> bool"
  assumes good_None: "valid L \<Longrightarrow> good L None \<and> abs L None = None"
    and step: "valid L \<Longrightarrow> good L raw \<Longrightarrow> clock_ok t \<Longrightarrow> in_order (abs L raw) (win L t) \<Longrightarrow>
      planned (plan L cost) t raw = Inr (b, d) \<Longrightarrow>
      good L (Some b) \<and> abs L (Some b) = wstep (abs L raw) (win L t, unat cost, d_allowed d) \<and>
      (d_allowed d \<longrightarrow> wcount (abs L raw) (win L t) + unat cost \<le> quota L)"

sublocale window_counter \<subseteq> refined_plan plan valid good abs "\<lambda>L. window_event (win L)"
  "\<lambda>_. wstep" "\<lambda>_. None" "\<lambda>_ st e. in_order st (fst e)" "\<lambda>L. fits (quota L)"
  by unfold_locales (auto simp: good_None step window_event_def fits_def)

context window_counter
begin

lemma admitted_quota:
  assumes "valid L"
    and "\<And>i. t_key (tk i) = k \<Longrightarrow> t_plan (tk i) = plan L (cost i)"
    and "\<And>c. c \<in> set cs \<Longrightarrow> clock_ok (c_now c)"
    and order: "commits_in_order tk (win L) k cs"
    and "replay_ok tk k None cs"
  shows "admitted w (window_events tk cost (win L) k cs) \<le> quota L"
proof -
  let ?es = "window_events tk cost (win L) k cs"
  have sorted: "sorted (map fst ?es)" using order by (simp add: commits_in_order_events [of _ _ _ _ cost])
  then have "along (\<lambda>st e. in_order st (fst e)) wstep None (log_events tk cost (window_event (win L)) k cs)"
    using sorted_in_order by (simp add: window_events_def)
  from replay_refines [OF assms(1,2,3) this assms(5)] have "within_budget (quota L) ?es"
    by (simp add: window_events_def within_budget_def)
  with sorted show ?thesis by (rule admitted_within_budget)
qed

end

end
