(* ===== verification/Local_Store.thy ===== *)
theory Local_Store
  imports Concurrent
begin

text \<open>
  \<open>src/store/local.rs\<close>: the in-process store, a map behind a mutex and an atomic version
  counter. \<open>get\<close> and \<open>cas\<close> run under the lock and are atomic; \<open>put\<close> takes its version
  before it takes the lock, so its two halves are separate steps.
\<close>

section \<open>State and operations\<close>

record local_store =
  ls_state :: "string \<rightharpoonup> bytes \<times> i64"
  ls_counter :: i64

definition local_new :: local_store where
  "local_new = \<lparr>ls_state = Map.empty, ls_counter = 1\<rparr>"

definition next_version :: "local_store \<Rightarrow> i64 \<times> local_store" where
  \<comment> \<open>\<open>fetch_add\<close> returns the old value and wraps around\<close>
  "next_version s = (ls_counter s, s\<lparr>ls_counter := wrap_i64 (ls_counter s + 1)\<rparr>)"

definition local_insert :: "string \<Rightarrow> bytes \<times> i64 \<Rightarrow> local_store \<Rightarrow> local_store" where
  "local_insert key e s = s\<lparr>ls_state := (ls_state s)(key \<mapsto> e)\<rparr>"

definition local_get :: "string \<Rightarrow> local_store \<Rightarrow> (bytes \<times> i64) option \<times> local_store" where
  "local_get key s = (ls_state s key, s)"

definition local_put :: "string \<Rightarrow> bytes \<Rightarrow> local_store \<Rightarrow> i64 \<times> local_store" where
  "local_put key value s = (case next_version s of (v, s') \<Rightarrow> (v, local_insert key (value, v) s'))"

definition local_cas :: "string \<Rightarrow> i64 option \<Rightarrow> bytes \<Rightarrow> local_store \<Rightarrow> cas_result \<times> local_store" where
  "local_cas key expected value s =
     (let current = ls_state s key;
          matches = (case (expected, current) of
              (None, None) \<Rightarrow> True
            | (Some ev, Some (_, cv)) \<Rightarrow> ev = cv
            | _ \<Rightarrow> False)
      in if matches
         then (case next_version s of
                 (v, s') \<Rightarrow> (\<lparr>cr_success = True, cr_version = v\<rparr>, local_insert key (value, v) s'))
         else (\<lparr>cr_success = False,
                cr_version = (case map_option snd current of None \<Rightarrow> 0 | Some v \<Rightarrow> v)\<rparr>, s))"

definition local_ops :: "local_store state_store" where
  "local_ops = \<lparr>ss_get = local_get, ss_put = local_put, ss_cas = local_cas, ss_ping = default_ping\<rparr>"

definition local_inv :: "local_store \<Rightarrow> bool" where
  "local_inv s \<longleftrightarrow> 0 < ls_counter s \<and>
     (\<forall>k b v. ls_state s k = Some (b, v) \<longrightarrow> 0 < v \<and> v < ls_counter s)"

definition local_room :: "local_store \<Rightarrow> bool" where
  "local_room s \<longleftrightarrow> - (2 ^ 63) \<le> ls_counter s \<and> ls_counter s < 2 ^ 63 - 1"

lemmas local_ops_defs = local_ops_def local_get_def local_put_def local_cas_def default_ping_def
  next_version_def local_insert_def

lemma next_version_room:
  "local_room s \<Longrightarrow> next_version s = (ls_counter s, s\<lparr>ls_counter := ls_counter s + 1\<rparr>)"
  by (simp add: next_version_def local_room_def wrap_i64_id is_i64_def)

lemma matches_iff_expects:
  "(case (e, cur) of (None, None) \<Rightarrow> True | (Some ev, Some (_, cv)) \<Rightarrow> ev = cv | _ \<Rightarrow> False)
    \<longleftrightarrow> expects e cur"
  by (auto split: option.splits)

lemma local_cas_eq:
  "local_room s \<Longrightarrow> local_cas k e b s =
    (if expects e (ls_state s k)
     then (\<lparr>cr_success = True, cr_version = ls_counter s\<rparr>,
           s\<lparr>ls_counter := ls_counter s + 1, ls_state := (ls_state s)(k \<mapsto> (b, ls_counter s))\<rparr>)
     else (\<lparr>cr_success = False, cr_version = (case ls_state s k of None \<Rightarrow> 0 | Some (_, v) \<Rightarrow> v)\<rparr>, s))"
  by (auto simp: local_cas_def matches_iff_expects next_version_room local_insert_def Let_def
      split: option.splits)

section \<open>The store keeps its contract\<close>

lemma local_invD: "local_inv s \<Longrightarrow> ls_state s k = Some (b, v) \<Longrightarrow> 0 < v \<and> v < ls_counter s"
  by (auto simp: local_inv_def)

lemma local_inv_write:
  "local_inv s \<Longrightarrow>
    local_inv (s\<lparr>ls_counter := ls_counter s + 1, ls_state := (ls_state s)(k \<mapsto> (b, ls_counter s))\<rparr>)"
  by (subst local_inv_def) (fastforce split: if_splits dest: local_invD simp: local_inv_def)

lemma local_cas_inv:
  "local_inv s \<Longrightarrow> local_room s \<Longrightarrow> local_cas k e b s = (r, s') \<Longrightarrow>
    local_inv s' \<and> ls_counter s \<le> ls_counter s'"
  by (auto simp: local_cas_eq local_inv_write split: if_splits)

interpretation ls: reliable_store local_ops ls_state local_inv local_room ls_counter
  by unfold_locales
    (auto simp: local_ops_def local_get_def local_cas_eq local_inv_write
      dest: local_invD split: if_splits)

end
