(* ===== verification/Local_Runs.thy ===== *)
theory Local_Runs
  imports Local_Store
begin

text \<open>
  Any number of concurrent \<open>check\<close> calls against one fresh \<open>LocalStore\<close>, whatever the
  algorithm. A schedule is the list of the tasks that move, each with the clock reading it
  would see; the only bound is that the version counter does not run out.
\<close>

section \<open>Runs\<close>

definition local_run :: "(nat \<Rightarrow> task) \<Rightarrow> (nat \<times> sys_time) list \<Rightarrow> local_store sys" where
  "local_run tk evs = sys_run local_ops ls_state tk evs (sys_init local_new)"

lemma local_inv_new [simp]: "local_inv local_new"
  by (simp add: local_inv_def local_new_def)

lemma local_contents_new [simp]: "contents ls_state local_new k = None"
  by (simp add: contents_def local_new_def)

lemma local_check_quiet:
  assumes "local_inv s" "local_room s"
    and "planned plan (clk 0) (contents ls_state s key) = Inr (b, d)"
  shows "\<exists>s' v. check_loop local_ops (quiet clk) key plan fail s = (Inr d, s') \<and>
    ls_state s' = (ls_state s)(key \<mapsto> (b, v))"
  using ls.check_loop_quiet [where clk = clk, OF assms(1,2) assms(3) [unfolded contents_def]] by blast

lemma local_check_exact:
  assumes "local_room s" "planned plan (clk 0) (contents ls_state s key) = Inr (b, d)"
  shows "check_loop local_ops (quiet clk) key plan fail s = (Inr d,
    s\<lparr>ls_counter := ls_counter s + 1, ls_state := (ls_state s)(key \<mapsto> (b, ls_counter s))\<rparr>)"
proof -
  obtain body where "plan (clk 0) = Inr body" "body (map_option fst (ls_state s key)) = Inr (b, d)"
    using assms(2) by (auto simp: contents_def elim: planned_InrE)
  moreover have "[0..<5] = 0 # [Suc 0..<5]" by (simp add: upt_conv_Cons)
  ultimately show ?thesis
    using assms(1)
    by (simp add: check_loop_def attempts_def quiet_def local_ops_def local_get_def local_cas_eq expects_def)
qed

lemma local_cas_counter:
  "local_room s \<Longrightarrow> ls_counter (snd (local_cas k e b s)) \<le> ls_counter s + 1
    \<and> ls_counter s \<le> ls_counter (snd (local_cas k e b s))"
  by (simp add: local_cas_eq)

lemma local_step_counter:
  assumes "local_room (sys_store \<sigma>)"
  shows "ls_counter (sys_store \<sigma>) \<le> ls_counter (sys_store (sys_step local_ops ls_state tk ev \<sigma>)) \<and>
    ls_counter (sys_store (sys_step local_ops ls_state tk ev \<sigma>)) \<le> ls_counter (sys_store \<sigma>) + 1"
proof (cases ev)
  case (Pair i clk)
  show ?thesis
  proof (cases "sys_pc \<sigma> i")
    case (Swap a now got b d)
    then show ?thesis
      using local_cas_counter [OF assms, of "t_key (tk i)" "map_option snd got" b]
      by (auto simp: Pair sys_step.simps Let_def local_ops_def split: prod.splits)
  qed (auto simp: Pair sys_step.simps Let_def local_ops_def local_get_def split: sum.splits)
qed

lemma local_rooms:
  "0 \<le> ls_counter (sys_store \<sigma>) \<Longrightarrow> ls_counter (sys_store \<sigma>) + int (length evs) < 2 ^ 63 \<Longrightarrow>
    rooms local_ops ls_state local_room tk evs \<sigma>"
proof (induction evs arbitrary: \<sigma>)
  case (Cons ev evs)
  then have room: "local_room (sys_store \<sigma>)" by (simp add: local_room_def)
  with Cons.IH [of "sys_step local_ops ls_state tk ev \<sigma>"] Cons.prems local_step_counter [OF room, of tk ev]
  show ?case by simp
qed simp

lemma local_run_reach:
  assumes "length evs < 2 ^ 62"
  shows "reach local_ops ls_state local_room tk local_new (local_run tk evs)"
proof -
  have "int (length evs) < 2 ^ 62" using assms by (metis of_nat_less_numeral_power_cancel_iff)
  then show ?thesis
    unfolding local_run_def
    by (intro reach_sys_run reach_init local_rooms) (simp_all add: sys_init_def local_new_def)
qed

lemma local_run_linearized:
  "length evs < 2 ^ 62 \<Longrightarrow> linearized ls_state tk local_new (local_run tk evs)"
  by (rule ls.reach_linearized [OF local_run_reach local_inv_new])

lemma local_run_replay:
  assumes "length evs < 2 ^ 62"
  shows "replay_ok tk k None (sys_log (local_run tk evs))"
    and "contents ls_state (sys_store (local_run tk evs)) k = replay tk k None (sys_log (local_run tk evs))"
  using local_run_linearized [OF assms, of tk] by (simp_all add: linearized_def)

text \<open>Every clock reading in the log was one of the schedule's.\<close>

definition clocks_in :: "sys_time set \<Rightarrow> 's sys \<Rightarrow> bool" where
  "clocks_in T \<sigma> \<longleftrightarrow> (\<forall>c \<in> set (sys_log \<sigma>). c_now c \<in> T) \<and>
     (\<forall>i a now. sys_pc \<sigma> i = Fetch a now \<longrightarrow> now \<in> T) \<and>
     (\<forall>i a now got b d. sys_pc \<sigma> i = Swap a now got b d \<longrightarrow> now \<in> T)"

lemma clocks_in_step: "clocks_in T \<sigma> \<Longrightarrow> snd ev \<in> T \<Longrightarrow> clocks_in T (sys_step S view tk ev \<sigma>)"
proof (cases ev)
  case (Pair i clk)
  assume ok: "clocks_in T \<sigma>" "snd ev \<in> T"
  show ?thesis
  proof (cases "sys_pc \<sigma> i")
    case (Attempt a)
    with ok show ?thesis by (auto simp: Pair clocks_in_def sys_step.simps split: sum.splits)
  next
    case (Fetch a now)
    with ok show ?thesis
      by (fastforce simp: Pair clocks_in_def sys_step.simps Let_def split: sum.splits prod.splits)
  next
    case (Swap a now got b d)
    with ok have "now \<in> T" unfolding clocks_in_def by blast
    with Swap ok show ?thesis
      by (auto simp: Pair clocks_in_def sys_step.simps Let_def next_attempt_def split: prod.splits if_splits)
  qed (use ok in \<open>simp_all add: Pair sys_step.simps\<close>)
qed

lemma clocks_in_run:
  "clocks_in T \<sigma> \<Longrightarrow> snd ` set evs \<subseteq> T \<Longrightarrow> clocks_in T (sys_run S view tk evs \<sigma>)"
  by (induction evs arbitrary: \<sigma>) (auto intro: clocks_in_step)

lemma local_run_clocks:
  assumes "\<And>i t. (i, t) \<in> set evs \<Longrightarrow> P t" "c \<in> set (sys_log (local_run tk evs))"
  shows "P (c_now c)"
proof -
  have "clocks_in (snd ` set evs) (local_run tk evs)"
    unfolding local_run_def by (rule clocks_in_run) (auto simp: clocks_in_def sys_init_def)
  with assms show ?thesis by (auto simp: clocks_in_def)
qed

section \<open>Charges\<close>

definition charges :: "nat \<Rightarrow> 's sys \<Rightarrow> commit list" where
  \<comment> \<open>the committed entries of one call\<close>
  "charges i \<sigma> = filter (\<lambda>c. c_task c = i) (sys_log \<sigma>)"

lemma distinct_filter_single:
  "distinct (map f xs) \<Longrightarrow> x \<in> set xs \<Longrightarrow> f x = i \<Longrightarrow> filter (\<lambda>x. f x = i) xs = [x]"
proof (induction xs)
  case (Cons y ys)
  show ?case
  proof (cases "f y = i")
    case True
    with Cons.prems have "i \<notin> f ` set ys" by auto
    then have "filter (\<lambda>x. f x = i) ys = []" by (auto simp: filter_empty_conv)
    moreover have "x = y" using Cons.prems \<open>i \<notin> f ` set ys\<close> by (metis image_eqI set_ConsD)
    ultimately show ?thesis using True by simp
  qed (use Cons in auto)
qed simp

lemma local_run_charges:
  fixes tk :: "nat \<Rightarrow> task"
  assumes "length evs < 2 ^ 62"
  defines "\<sigma> \<equiv> local_run tk evs"
  shows "sys_pc \<sigma> i = Done d \<Longrightarrow>
      (\<exists>c. charges i \<sigma> = [c] \<and> c_decision c = d) \<or>
      charges i \<sigma> = [] \<and> d = t_fail (tk i) \<and> 5 \<le> length (on_key tk (t_key (tk i)) (sys_log \<sigma>))"
    and "(\<forall>d. sys_pc \<sigma> i \<noteq> Done d) \<Longrightarrow> charges i \<sigma> = []"
proof -
  note reach = local_run_reach [OF assms(1), of tk, folded \<sigma>_def]
  note rep = reach_reports [OF reach, unfolded reports_def]
  note acked = ls.log_acked [OF reach local_inv_new]
  show "(\<exists>c. charges i \<sigma> = [c] \<and> c_decision c = d) \<or>
      charges i \<sigma> = [] \<and> d = t_fail (tk i) \<and> 5 \<le> length (on_key tk (t_key (tk i)) (sys_log \<sigma>))"
    if pc: "sys_pc \<sigma> i = Done d"
  proof (cases "\<exists>c \<in> set (sys_log \<sigma>). c_task c = i")
    case True
    then obtain c where c: "c \<in> set (sys_log \<sigma>)" "c_task c = i" by blast
    with rep acked pc have "c_decision c = d" by auto
    moreover have "charges i \<sigma> = [c]"
      unfolding charges_def
      by (rule distinct_filter_single [OF ls.charged_once [OF reach local_inv_new] c])
    ultimately show ?thesis by blast
  next
    case False
    then have "i \<notin> c_task ` set (sys_log \<sigma>)" by auto
    from ls.gives_up_late [OF reach local_inv_new pc this] False show ?thesis
      by (simp add: charges_def filter_empty_conv rivals_def)
  qed
  show "charges i \<sigma> = []" if "\<forall>d. sys_pc \<sigma> i \<noteq> Done d"
    using that rep acked by (auto simp: charges_def filter_empty_conv)
qed

section \<open>A rival that never stops\<close>

definition busy :: "(nat \<Rightarrow> sys_time) \<Rightarrow> string \<Rightarrow> bytes \<Rightarrow> local_store env" where
  \<comment> \<open>somebody writes the key between every read and its compare-and-swap\<close>
  "busy clk key b = \<lparr>env_clock = clk, env_sleep = (\<lambda>_ _ s. s),
     env_gap = (\<lambda>_ s. snd (ss_put local_ops key b s))\<rparr>"

lemma busy_attempts:
  assumes "\<And>a raw. a \<in> set as \<Longrightarrow> \<exists>x. planned plan (clk a) raw = Inr x"
    and "local_inv s" "0 \<le> ls_counter s" "ls_counter s + int (length as) < 2 ^ 62"
  shows "\<exists>s'. check_attempts local_ops (busy clk key b) key plan fail as s = (Inr fail, s') \<and>
    ls_state s' = (if as = [] then ls_state s
      else (ls_state s)(key \<mapsto> (b, ls_counter s + int (length as) - 1)))"
  using assms
proof (induction as arbitrary: s)
  case (Cons a as)
  let ?s = "s\<lparr>ls_counter := ls_counter s + 1, ls_state := (ls_state s)(key \<mapsto> (b, ls_counter s))\<rparr>"
  obtain body b' d where body: "plan (clk a) = Inr body"
    "body (map_option fst (ls_state s key)) = Inr (b', d)"
    using Cons.prems(1) [of a "map_option fst (ls_state s key)"] by (auto elim!: planned_InrE)
  have room: "local_room s" "local_room ?s"
    using Cons.prems(3,4) by (simp_all add: local_room_def)
  have put: "snd (local_put key b s) = ?s"
    by (simp add: local_put_def next_version_room [OF room(1)] local_insert_def)
  have "\<not> expects (map_option snd (ls_state s key)) (ls_state ?s key)"
    using local_invD [OF Cons.prems(2), of key] by (auto simp: expects_def)
  then have lost: "local_cas key (map_option snd (ls_state s key)) b' ?s =
      (\<lparr>cr_success = False, cr_version = ls_counter s\<rparr>, ?s)"
    using local_cas_eq [OF room(2), of key "map_option snd (ls_state s key)" b'] by simp
  have "check_attempts local_ops (busy clk key b) key plan fail (a # as) s =
      check_attempts local_ops (busy clk key b) key plan fail as ?s"
    using body lost put by (simp add: busy_def local_ops_def local_get_def Let_def)
  moreover have "\<exists>s'. check_attempts local_ops (busy clk key b) key plan fail as ?s = (Inr fail, s') \<and>
    ls_state s' = (if as = [] then ls_state ?s
      else (ls_state ?s)(key \<mapsto> (b, ls_counter ?s + int (length as) - 1)))"
    using Cons.prems by (intro Cons.IH local_inv_write) simp_all
  ultimately show ?case
    by (cases "as = []") (fastforce simp del: check_attempts.simps simp: fun_eq_iff)+
qed simp

section \<open>A sample plan\<close>

text \<open>Counts its commits in unary; used where a theorem has to be shown applicable.\<close>

definition tick_task :: "nat \<Rightarrow> task" where
  "tick_task i = \<lparr>t_key = ''k'', t_plan = (\<lambda>_. Inr (\<lambda>raw. Inr
     (1 # (case raw of None \<Rightarrow> [] | Some b \<Rightarrow> b),
      \<lparr>d_allowed = True, d_limit = 9, d_remaining = 9, d_retry_after_ms = 0, d_reason = ''''\<rparr>))),
     t_fail = conflict_decision 9\<rparr>"

definition tick_schedule :: "(nat \<times> sys_time) list" where
  \<comment> \<open>task 0 reads, another task commits, task 0 loses: five times\<close>
  "tick_schedule = concat (map (\<lambda>j. [(0, 0), (0, 0), (j, 0), (j, 0), (j, 0), (0, 0)]) [1, 2, 3, 4, 5])"

lemmas run_steps = local_run_def sys_step.simps Let_def sys_init_def local_new_def local_ops_def
  local_get_def local_cas_def next_version_def local_insert_def wrap_i64_def set_pc_def
  next_attempt_def

lemmas run_eval = run_steps planned_def

lemma tick_run:
  "sys_pc (local_run tick_task tick_schedule) 0 = Done (conflict_decision 9)"
  "map c_task (sys_log (local_run tick_task tick_schedule)) = [1, 2, 3, 4, 5]"
  by (simp_all add: run_eval tick_task_def tick_schedule_def cong: if_cong)

section \<open>Properties\<close>

text \<open>C5. Calls on a \<open>LocalStore\<close> are linearizable: under any schedule, what a key holds is
  what running the committed plans of that key one after another leaves, and each committed
  decision is the one its plan takes at its turn.\<close>

theorem local_calls_linearizable:
  assumes "length evs < 2 ^ 62"
  shows "contents ls_state (sys_store (local_run tk evs)) k
      = replay tk k None (sys_log (local_run tk evs)) \<and>
    replay_ok tk k None (sys_log (local_run tk evs))"
  using local_run_replay [OF assms] by simp

theorem local_calls_linearizable_witness:
  "length tick_schedule < 2 ^ 62 \<and>
   contents ls_state (sys_store (local_run tick_task tick_schedule)) ''k'' = Some [1, 1, 1, 1, 1]"
proof -
  have "length tick_schedule < 2 ^ 62" by (simp add: tick_schedule_def)
  moreover from local_calls_linearizable [OF this, where tk = tick_task and k = "''k''"]
  have "contents ls_state (sys_store (local_run tick_task tick_schedule)) ''k''
      = replay tick_task ''k'' None (sys_log (local_run tick_task tick_schedule))" by simp
  ultimately show ?thesis
    by (simp add: run_eval tick_task_def tick_schedule_def commit_eval_def cong: if_cong)
qed

text \<open>C6. A call on a \<open>LocalStore\<close> is charged exactly once and told the decision it was
  charged for; a call that has not returned has charged nothing. It gives up with the
  conflict decision only after five commits on its key, one per lost attempt.\<close>

theorem local_calls_charged_once:
  assumes "length evs < 2 ^ 62"
  shows "case sys_pc (local_run tk evs) i of
      Done d \<Rightarrow> (\<exists>c. charges i (local_run tk evs) = [c] \<and> c_decision c = d) \<or>
        charges i (local_run tk evs) = [] \<and> d = t_fail (tk i) \<and>
        5 \<le> length (on_key tk (t_key (tk i)) (sys_log (local_run tk evs)))
    | _ \<Rightarrow> charges i (local_run tk evs) = []"
  using local_run_charges [OF assms, of tk i] by (cases "sys_pc (local_run tk evs) i") auto

theorem local_calls_charged_once_witness:
  "charges 0 (local_run tick_task tick_schedule) = [] \<and>
   sys_pc (local_run tick_task tick_schedule) 0 = Done (conflict_decision 9) \<and>
   5 \<le> length (on_key tick_task ''k'' (sys_log (local_run tick_task tick_schedule)))"
proof -
  have charges: "charges 0 (local_run tick_task tick_schedule) = []"
    using tick_run(2) by (auto simp: charges_def filter_empty_conv map_eq_Cons_conv)
  have "length tick_schedule < 2 ^ 62" by (simp add: tick_schedule_def)
  from local_calls_charged_once [OF this, where tk = tick_task and i = 0] charges tick_run(1) show ?thesis
    by (auto simp: tick_task_def)
qed

text \<open>C17. Every call returns, on any store and under any schedule: after fifteen steps of
  its own (three for each of five attempts) it has a decision or has panicked.\<close>

theorem check_call_returns:
  assumes "15 \<le> length (filter (\<lambda>ev. fst ev = i) evs)"
  shows "\<exists>x. outcome (sys_pc (sys_run S view tk evs (sys_init s0)) i) = Some x"
  using sys_run_ends [OF assms] by auto

theorem check_call_returns_witness:
  "outcome (sys_pc (sys_run local_ops ls_state tick_task tick_schedule (sys_init local_new)) 0)
    = Some (Inr (conflict_decision 9))"
proof -
  have "15 \<le> length (filter (\<lambda>ev. fst ev = 0) tick_schedule)" by (simp add: tick_schedule_def)
  from check_call_returns [OF this, where S = local_ops and view = ls_state and tk = tick_task and ?s0.0 = local_new] tick_run(1)
  show ?thesis by (auto simp: local_run_def)
qed




end
