(* ===== verification/Fixed_Window.thy ===== *)
theory Fixed_Window
  imports Window_Limiter Local_Runs Sample_Codec
begin

text \<open>
  \<open>src/algorithms/fixed_window.rs\<close>: the fixed-window counter. The plan is the body of the
  retry loop of \<open>check\<close>: clock, window number, decoding with its default, reset of a
  counter from another window, decision, new state.
\<close>

section \<open>State and operations\<close>

record fw_state =
  fw_count :: u64
  fw_window_id :: u64

record fixed_window =
  fw_max_requests :: u64
  fw_window_secs :: u64

definition fw_new :: "u64 \<Rightarrow> u64 \<Rightarrow> fixed_window" where
  "fw_new max_requests window_secs =
     \<lparr>fw_max_requests = max_requests, fw_window_secs = window_secs\<rparr>"

definition fw_name :: string where
  "fw_name = ''fixed_window''"

definition fw_now_secs :: "sys_time \<Rightarrow> u64 res" where
  "fw_now_secs t = and_then (expect_duration t) (\<lambda>d. Inr (as_secs d))"

definition fw_key :: "string \<Rightarrow> string \<Rightarrow> string" where
  "fw_key client_id resource = ''fixed_window/'' @ client_id @ ''/'' @ resource"

definition fw_reason :: "fixed_window \<Rightarrow> bool \<Rightarrow> u64 \<Rightarrow> u64 \<Rightarrow> i64 \<Rightarrow> string" where
  "fw_reason L allowed cnt new_count retry =
     (if allowed
      then ''ok '' @ em_dash @ '' '' @ show_u64 new_count @ ''/'' @ show_u64 (fw_max_requests L) @ '' used''
      else ''fixed-window limit '' @ show_u64 cnt @ ''/'' @ show_u64 (fw_max_requests L) @
           '' exceeded, resets in '' @ show_int retry @ ''ms'')"

definition fw_decide :: "bool \<Rightarrow> fixed_window \<Rightarrow> u64 \<Rightarrow> u64 \<Rightarrow> u64 \<Rightarrow> u64 \<Rightarrow> (u64 \<times> bool \<times> i64) res" where
  "fw_decide oc L now wid cnt cost =
     and_then (u64_add oc cnt cost) (\<lambda>total.
       if total \<le> fw_max_requests L then Inr (total, True, 0)
       else
         and_then (u64_add oc wid 1) (\<lambda>next_wid.
         and_then (u64_mul oc next_wid (fw_window_secs L)) (\<lambda>window_end.
         and_then (u64_mul oc (saturating_sub window_end now) 1000) (\<lambda>wait_ms.
           Inr (cnt, False, u64_as_i64 wait_ms)))))"

definition fw_plan :: "bool \<Rightarrow> fw_state codec \<Rightarrow> fixed_window \<Rightarrow> u32 \<Rightarrow> plan" where
  "fw_plan oc C L cost t =
     and_then (fw_now_secs t) (\<lambda>now.
     and_then (u64_div now (fw_window_secs L)) (\<lambda>wid.
       Inr (\<lambda>raw.
         let st = decode_or C \<lparr>fw_count = 0, fw_window_id = wid\<rparr> raw;
             cnt = (if fw_window_id st = wid then fw_count st else 0)
         in and_then (fw_decide oc L now wid cnt (u32_as_u64 cost)) (\<lambda>(new_count, allowed, retry).
              Inr (to_vec C \<lparr>fw_count = new_count, fw_window_id = wid\<rparr>,
                   \<lparr>d_allowed = allowed,
                    d_limit = u64_as_i64 (fw_max_requests L),
                    d_remaining = u64_as_i64 (saturating_sub (fw_max_requests L) new_count),
                    d_retry_after_ms = retry,
                    d_reason = fw_reason L allowed cnt new_count retry\<rparr>)))))"

definition fw_check :: "bool \<Rightarrow> fw_state codec \<Rightarrow> 's state_store \<Rightarrow> fixed_window \<Rightarrow> 's env
    \<Rightarrow> string \<Rightarrow> string \<Rightarrow> u32 \<Rightarrow> 's \<Rightarrow> decision res \<times> 's" where
  "fw_check oc C S L E client_id resource cost s =
     check_loop S E (fw_key client_id resource) (fw_plan oc C L cost)
       (conflict_decision (u64_as_i64 (fw_max_requests L))) s"

section \<open>Behaviour within the configuration's range\<close>

text \<open>
  \<open>fw_wf\<close>: a non-empty window and a quota that leave the arithmetic in range. Outside it
  the code divides by zero (\<open>window_secs = 0\<close>) or overflows.
\<close>

definition fw_wf :: "fixed_window \<Rightarrow> bool" where
  "fw_wf L \<longleftrightarrow> 0 < unat (fw_window_secs L) \<and> 1000 * unat (fw_window_secs L) < 2 ^ 63 \<and>
     unat (fw_max_requests L) < 2 ^ 63"

abbreviation fw_max :: "fixed_window \<Rightarrow> nat" where
  "fw_max L \<equiv> unat (fw_max_requests L)"

abbreviation fw_window :: "fixed_window \<Rightarrow> sys_time \<Rightarrow> nat" where
  "fw_window L t \<equiv> secs t div unat (fw_window_secs L)"

definition fw_abs :: "fw_state codec \<Rightarrow> bytes option \<Rightarrow> (nat \<times> nat) option" where
  \<comment> \<open>the content of a key as window number and count\<close>
  "fw_abs C raw =
     (case raw of None \<Rightarrow> None | Some b \<Rightarrow>
        map_option (\<lambda>st. (unat (fw_window_id st), unat (fw_count st))) (from_slice C b))"

definition fw_wait :: "fixed_window \<Rightarrow> sys_time \<Rightarrow> nat" where
  "fw_wait L t = 1000 * (Suc (fw_window L t) * unat (fw_window_secs L) - secs t)"

lemma fw_window_word:
  assumes "clock_ok t"
  shows "unat (as_secs (nat t) div fw_window_secs L) = fw_window L t"
  using as_secs_secs [OF assms] by (simp add: unat_div_distrib)

lemma fw_seen_word:
  assumes "unat wid = w"
  shows "unat (if fw_window_id (decode_or C \<lparr>fw_count = 0, fw_window_id = wid\<rparr> raw) = wid
      then fw_count (decode_or C \<lparr>fw_count = 0, fw_window_id = wid\<rparr> raw) else 0)
    = wcount (fw_abs C raw) w"
  using assms
  by (auto simp: fw_abs_def decode_or_def wcount_def word_unat_eq_iff split: option.splits)

text \<open>The wait reaches the start of the next window and is at least a second.\<close>

lemma fw_wait_bounds:
  assumes "fw_wf L"
  shows "0 < fw_wait L t \<and> fw_wait L t \<le> 1000 * unat (fw_window_secs L)"
proof -
  have "0 < unat (fw_window_secs L)" using assms by (simp add: fw_wf_def)
  from next_multiple [OF this, of "secs t"] show ?thesis
    unfolding fw_wait_def by linarith
qed

lemma fw_decide_spec:
  assumes wf: "fw_wf L" and ok: "clock_ok t"
    and fits: "unat cnt + unat cost < 2 ^ 64"
    and now: "unat now = secs t" and wid: "unat wid = fw_window L t"
  shows "\<exists>n. fw_decide oc L now wid cnt cost =
      Inr (n, unat cnt + unat cost \<le> fw_max L,
           if unat cnt + unat cost \<le> fw_max L then 0 else int (fw_wait L t)) \<and>
    unat n = (if unat cnt + unat cost \<le> fw_max L then unat cnt + unat cost else unat cnt)"
proof (cases "unat cnt + unat cost \<le> fw_max L")
  case True
  then have "cnt + cost \<le> fw_max_requests L"
    using fits by (simp add: word_le_nat_alt unat_u64_add)
  with True fits show ?thesis by (simp add: fw_decide_def u64_add_exact unat_u64_add)
next
  case False
  let ?s = "unat (fw_window_secs L)"
  have small: "1000 * secs t < 2 ^ 63" "1000 * ?s < 2 ^ 63" "0 < ?s"
    using clock_ok_secs [OF ok] wf by (simp_all add: fw_wf_def)
  have "fw_window L t * ?s \<le> secs t" by simp
  then have prod: "Suc (fw_window L t) * ?s \<le> secs t + ?s" by simp
  have "unat wid < 2 ^ 62"
    using wid clock_ok_secs_small [OF ok] by (metis div_le_dividend order.strict_trans1)
  then have add: "u64_add oc wid 1 = Inr (wid + 1)" "unat (wid + 1) = Suc (fw_window L t)"
    using wid by (simp_all add: u64_add_exact unat_succ)
  have "secs t + ?s < 2 ^ 64" using small(2) clock_ok_secs_small [OF ok] by simp
  then have "Suc (fw_window L t) * ?s < 2 ^ 64"
    by (rule le_less_trans [OF next_multiple(2) [OF small(3)]])
  with add(2) have mul: "u64_mul oc (wid + 1) (fw_window_secs L) = Inr ((wid + 1) * fw_window_secs L)"
    and end_word: "unat ((wid + 1) * fw_window_secs L) = Suc (fw_window L t) * ?s"
    by (simp_all only: u64_mul_exact unat_u64_mul)
  let ?gap = "saturating_sub ((wid + 1) * fw_window_secs L) now"
  have gap: "1000 * unat ?gap = fw_wait L t"
    by (simp add: end_word now fw_wait_def)
  have wait: "fw_wait L t < 2 ^ 63" using fw_wait_bounds [OF wf, of t] small(2) by linarith
  have "u64_mul oc ?gap 1000 = Inr (?gap * 1000)" and "unat (?gap * 1000) = fw_wait L t"
    using gap wait by (simp_all add: u64_mul_exact unat_u64_mul mult.commute)
  then have "u64_as_i64 (?gap * 1000) = int (fw_wait L t)"
    using wait u64_as_i64_small [of "?gap * 1000"] by simp
  moreover have "\<not> cnt + cost \<le> fw_max_requests L"
    using False fits by (simp add: word_le_nat_alt unat_u64_add)
  ultimately show ?thesis
    using False fits add(1) mul \<open>u64_mul oc ?gap 1000 = _\<close>
    by (simp add: fw_decide_def u64_add_exact)
qed

definition fw_spec :: "fixed_window \<Rightarrow> sys_time \<Rightarrow> nat \<Rightarrow> nat \<Rightarrow> bool \<times> nat \<times> nat" where
  \<comment> \<open>outcome, new count and wait for a request of cost \<open>c\<close> that finds the count \<open>seen\<close>\<close>
  "fw_spec L t seen c =
     (if seen + c \<le> fw_max L then (True, seen + c, 0) else (False, seen, fw_wait L t))"

lemma fw_plan_eval:
  assumes wf: "fw_wf L" and ok: "clock_ok t" and rt: "codec_roundtrip C"
    and fits: "wcount (fw_abs C raw) (fw_window L t) + unat cost < 2 ^ 64"
    and spec: "fw_spec L t (wcount (fw_abs C raw) (fw_window L t)) (unat cost) = (allowed, n, wait)"
  shows "\<exists>b rsn. planned (fw_plan oc C L cost) t raw = Inr (b,
      \<lparr>d_allowed = allowed, d_limit = int (fw_max L), d_remaining = int (fw_max L - n),
       d_retry_after_ms = int wait, d_reason = rsn\<rparr>) \<and>
    fw_abs C (Some b) = Some (fw_window L t, n)"
proof -
  let ?now = "as_secs (nat t)" and ?def = "\<lparr>fw_count = 0, fw_window_id = as_secs (nat t) div fw_window_secs L\<rparr>"
  let ?wid = "?now div fw_window_secs L" and ?st = "decode_or C ?def raw"
  let ?cnt = "if fw_window_id ?st = ?wid then fw_count ?st else 0"
  have wid: "unat ?wid = fw_window L t" by (rule fw_window_word [OF ok])
  note cnt = fw_seen_word [OF wid, of C raw]
  have "fw_window_secs L \<noteq> 0" using wf by (auto simp: fw_wf_def)
  then have plan: "fw_plan oc C L cost t = Inr (\<lambda>raw.
      let st = decode_or C ?def raw; cnt = (if fw_window_id st = ?wid then fw_count st else 0)
      in and_then (fw_decide oc L ?now ?wid cnt (u32_as_u64 cost)) (\<lambda>(new_count, allowed, retry).
              Inr (to_vec C \<lparr>fw_count = new_count, fw_window_id = ?wid\<rparr>,
                   \<lparr>d_allowed = allowed,
                    d_limit = u64_as_i64 (fw_max_requests L),
                    d_remaining = u64_as_i64 (saturating_sub (fw_max_requests L) new_count),
                    d_retry_after_ms = retry,
                    d_reason = fw_reason L allowed cnt new_count retry\<rparr>)))"
    using clock_ok_nonneg [OF ok] by (simp add: fw_plan_def fw_now_secs_def u64_div_def)
  have "unat ?cnt + unat (u32_as_u64 cost) < 2 ^ 64" using fits cnt by simp
  from fw_decide_spec [OF wf ok this as_secs_secs [OF ok] wid, of oc] obtain m
    where dec: "fw_decide oc L ?now ?wid ?cnt (u32_as_u64 cost) = Inr (m, allowed, int wait)"
      and m: "unat m = n"
    using spec cnt by (auto simp: fw_spec_def split: if_splits)
  have "u64_as_i64 (fw_max_requests L) = int (fw_max L)"
    and "u64_as_i64 (saturating_sub (fw_max_requests L) m) = int (fw_max L - n)"
    using wf m by (simp_all add: u64_as_i64_small u64_as_i64_saturating_sub fw_wf_def)
  then show ?thesis
    using dec m wid rt by (auto simp: planned_Inr [of "fw_plan oc C L cost", OF plan] Let_def fw_abs_def codec_roundtrip_def)
qed

text \<open>One check refines one step of the abstract window counter.\<close>

lemma fw_refines:
  assumes wf: "fw_wf L" "codec_roundtrip C" "clock_ok t"
    and fits: "wcount (fw_abs C raw) (fw_window L t) + unat cost < 2 ^ 64"
    and "planned (fw_plan oc C L cost) t raw = Inr (b, d)"
  shows "fw_abs C (Some b) = wstep (fw_abs C raw) (fw_window L t, unat cost, d_allowed d)"
    and "d_allowed d \<longleftrightarrow> wcount (fw_abs C raw) (fw_window L t) + unat cost \<le> fw_max L"
proof -
  obtain allowed n wait where spec:
    "fw_spec L t (wcount (fw_abs C raw) (fw_window L t)) (unat cost) = (allowed, n, wait)"
    by (metis prod_cases3)
  from fw_plan_eval [OF wf(1,3,2) fits spec, of oc] assms(5)
  have "fw_abs C (Some b) = Some (fw_window L t, n)" "d_allowed d = allowed" by auto
  with spec show "fw_abs C (Some b) = wstep (fw_abs C raw) (fw_window L t, unat cost, d_allowed d)"
    and "d_allowed d \<longleftrightarrow> wcount (fw_abs C raw) (fw_window L t) + unat cost \<le> fw_max L"
    by (auto simp: fw_spec_def wstep_def split: if_splits)
qed

section \<open>The window contract\<close>

type_synonym fw_cfg = "bool \<times> fw_state codec \<times> fixed_window"

definition fw_plan_of :: "fw_cfg \<Rightarrow> u32 \<Rightarrow> plan" where
  "fw_plan_of = (\<lambda>(oc, C, L). fw_plan oc C L)"

definition fw_good :: "fixed_window \<Rightarrow> (nat \<times> nat) option \<Rightarrow> bool" where
  "fw_good L st \<longleftrightarrow> (\<forall>w n. st = Some (w, n) \<longrightarrow> n \<le> fw_max L)"

lemma fw_good_fits:
  assumes "fw_wf L" "fw_good L st"
  shows "wcount st w + unat (cost :: u32) < 2 ^ 64"
proof -
  have "wcount st w \<le> fw_max L"
    using assms(2) by (auto simp: wcount_def fw_good_def split: option.splits)
  moreover have "fw_max L < 2 ^ 63" using assms(1) by (simp add: fw_wf_def)
  moreover have "unat cost < 2 ^ 32" using unsigned_less [of cost] by simp
  ultimately show ?thesis by simp
qed

interpretation fw: window_counter fw_plan_of
  "\<lambda>(oc, C, L). fw_wf L \<and> codec_roundtrip C" "\<lambda>(oc, C, L). fw_abs C"
  "\<lambda>(oc, C, L). fw_window L" "\<lambda>(oc, C, L). fw_max L" "\<lambda>(oc, C, L) raw. fw_good L (fw_abs C raw)"
proof (unfold_locales, goal_cases)
  case (1 cfg)
  then show ?case by (auto simp: fw_good_def fw_abs_def)
next
  case (2 cfg raw t cost b d)
  obtain oc C L where cfg: "cfg = (oc, C, L)" by (cases cfg)
  with 2 have wf: "fw_wf L" "codec_roundtrip C" "clock_ok t" and good: "fw_good L (fw_abs C raw)"
    and run: "planned (fw_plan oc C L cost) t raw = Inr (b, d)"
    by (simp_all add: fw_plan_of_def)
  note step = fw_refines [OF wf fw_good_fits [OF wf(1) good] run]
  then have "fw_good L (fw_abs C (Some b))"
    using good by (auto simp: fw_good_def wstep_def wcount_def split: option.splits)
  with step show ?case by (auto simp: cfg)
qed

section \<open>Runs used as examples\<close>

definition fw_sample :: "fw_state codec" where
  "fw_sample = sample_codec (\<lambda>s. [unat (fw_count s), unat (fw_window_id s)])
     (\<lambda>ns. \<lparr>fw_count = of_nat (ns ! 0), fw_window_id = of_nat (ns ! 1)\<rparr>)"

lemma fw_sample_roundtrip [simp]: "codec_roundtrip fw_sample"
  unfolding fw_sample_def by (rule sample_codec_roundtrip) simp

definition fw_task :: "fw_state codec \<Rightarrow> fixed_window \<Rightarrow> nat \<Rightarrow> task" where
  "fw_task C L i = \<lparr>t_key = fw_key ''a'' ''r'', t_plan = fw_plan False C L 1,
     t_fail = conflict_decision (u64_as_i64 (fw_max_requests L))\<rparr>"

definition race_schedule :: "(nat \<times> sys_time) list" where
  \<comment> \<open>task 0 reads the clock in window 1 and is overtaken by task 1 in window 2\<close>
  "race_schedule =
     [(0, 1000000000),
      (1, 2000000000), (1, 2000000000), (1, 2000000000),
      (0, 2000000000), (0, 2000000000),
      (2, 2000000000), (2, 2000000000), (2, 2000000000)]"

definition calm_schedule :: "(nat \<times> sys_time) list" where
  \<comment> \<open>three overlapping calls in one window\<close>
  "calm_schedule = [(0, 5), (1, 5), (0, 5), (1, 5), (0, 6), (1, 6), (2, 6), (1, 7), (1, 7), (1, 7),
     (2, 7), (2, 8)]"

lemmas fw_eval = fw_plan_def fw_new_def fw_now_secs_def as_secs_def u64_div_def
  fw_decide_def u64_add_def u64_mul_def u32_as_u64_def saturating_sub_def fw_task_def

lemma race_run:
  assumes "codec_roundtrip C"
  shows "map (\<lambda>c. (secs (c_now c), d_allowed (c_decision c)))
    (sys_log (local_run (fw_task C (fw_new 1 1)) race_schedule)) = [(2, True), (1, True), (2, True)]"
  using assms by (simp add: race_schedule_def run_eval fw_eval secs_def cong: if_cong)

lemma calm_run:
  assumes "codec_roundtrip C"
  shows "map (\<lambda>c. (c_task c, c_now c, d_allowed (c_decision c)))
    (sys_log (local_run (fw_task C (fw_new 2 60)) calm_schedule))
      = [(0, 5, True), (1, 7, True), (2, 6, False)]"
  using assms by (simp add: calm_schedule_def run_eval fw_eval cong: if_cong)

section \<open>Properties\<close>

text \<open>C1. The promise of the algorithm, under concurrency: whatever the interleaving of any
  number of calls on a \<open>LocalStore\<close>, if the commits of a key come in the order of their
  windows, no window admits more than \<open>max_requests\<close>.\<close>

theorem fw_concurrent_budget:
  assumes "fw_wf L" "codec_roundtrip C" "length evs < 2 ^ 62"
    and "\<And>i t. (i, t) \<in> set evs \<Longrightarrow> clock_ok t"
    and "\<And>i. t_key (tk i) = k \<Longrightarrow> t_plan (tk i) = fw_plan oc C L (cost i)"
    and "commits_in_order tk (fw_window L) k (sys_log (local_run tk evs))"
  shows "admitted w (window_events tk cost (fw_window L) k (sys_log (local_run tk evs))) \<le> fw_max L"
  using fw.admitted_quota [of "(oc, C, L)" tk k cost "sys_log (local_run tk evs)" w]
    local_run_replay(1) [OF assms(3), of tk k] local_run_clocks [of evs clock_ok _ tk] assms
  by (simp add: fw_plan_of_def)

theorem fw_concurrent_budget_witness:
  "admitted 0 (window_events (fw_task fw_sample (fw_new 2 60)) (\<lambda>_. 1) (fw_window (fw_new 2 60))
     (fw_key ''a'' ''r'') (sys_log (local_run (fw_task fw_sample (fw_new 2 60)) calm_schedule))) \<le> 2 \<and>
   length (filter d_allowed
     (map c_decision (sys_log (local_run (fw_task fw_sample (fw_new 2 60)) calm_schedule)))) = 2"
proof -
  let ?L = "fw_new 2 60" and ?tk = "fw_task fw_sample (fw_new 2 60)"
  let ?log = "sys_log (local_run ?tk calm_schedule)"
  note run = calm_run [OF fw_sample_roundtrip]
  have log: "\<exists>c0 c1 c2. ?log = [c0, c1, c2] \<and> c_now c0 = 5 \<and> c_now c1 = 7 \<and> c_now c2 = 6 \<and>
      d_allowed (c_decision c0) \<and> d_allowed (c_decision c1) \<and> \<not> d_allowed (c_decision c2)"
    using run by (auto simp: map_eq_Cons_conv)
  then have "commits_in_order ?tk (fw_window ?L) (fw_key ''a'' ''r'') ?log"
    by (auto simp: commits_in_order_def on_key_def fw_task_def secs_def)
  then have "admitted 0 (window_events ?tk (\<lambda>_. 1) (fw_window ?L) (fw_key ''a'' ''r'') ?log) \<le> fw_max ?L"
    by (intro fw_concurrent_budget [where oc = False and C = fw_sample])
      (auto simp: fw_wf_def fw_new_def fw_task_def calm_schedule_def clock_ok_def)
  with log show ?thesis by (auto simp: fw_new_def)
qed



text \<open>C8. One undisturbed \<open>check\<close> on a \<open>LocalStore\<close>: it decides as \<open>fw_spec\<close> says on the count
  its window has, reports limit, remaining quota and wait accordingly, stores the new count
  under the current window and leaves every other key alone.\<close>

theorem fw_check_undisturbed:
  assumes "fw_wf L" "codec_roundtrip C" "local_inv s" "local_room s" "clock_ok (clk 0)"
    and "fw_good L (fw_abs C (contents ls_state s (fw_key client res)))"
    and "fw_spec L (clk 0) (wcount (fw_abs C (contents ls_state s (fw_key client res))) (fw_window L (clk 0)))
      (unat cost) = (allowed, n, wait)"
  shows "\<exists>rsn b v s'. fw_check oc C local_ops L (quiet clk) client res cost s =
      (Inr \<lparr>d_allowed = allowed, d_limit = int (fw_max L), d_remaining = int (fw_max L - n),
        d_retry_after_ms = int wait, d_reason = rsn\<rparr>, s') \<and>
    fw_abs C (Some b) = Some (fw_window L (clk 0), n) \<and>
    ls_state s' = (ls_state s)(fw_key client res \<mapsto> (b, v))"
proof -
  let ?raw = "contents ls_state s (fw_key client res)"
  from fw_plan_eval [OF assms(1,5,2) fw_good_fits [OF assms(1,6)] assms(7), of oc] obtain b rsn
    where "planned (fw_plan oc C L cost) (clk 0) ?raw = Inr (b, \<lparr>d_allowed = allowed,
        d_limit = int (fw_max L), d_remaining = int (fw_max L - n), d_retry_after_ms = int wait,
        d_reason = rsn\<rparr>)"
      and b: "fw_abs C (Some b) = Some (fw_window L (clk 0), n)" by blast
  from local_check_quiet [where clk = clk, OF assms(3,4) this(1)] b
  show ?thesis unfolding fw_check_def by blast
qed

theorem fw_check_undisturbed_witness:
  "\<exists>rsn b v s'. fw_check False fw_sample local_ops (fw_new 2 60) (quiet (\<lambda>_. 61 * 10 ^ 9)) ''a'' ''r'' 3 local_new =
      (Inr \<lparr>d_allowed = False, d_limit = 2, d_remaining = 2, d_retry_after_ms = 59000, d_reason = rsn\<rparr>, s') \<and>
    fw_abs fw_sample (Some b) = Some (1, 0) \<and>
    ls_state s' = (ls_state local_new)(fw_key ''a'' ''r'' \<mapsto> (b, v))"
  using fw_check_undisturbed [of "fw_new 2 60" fw_sample local_new "\<lambda>_. 61 * 10 ^ 9" "''a''" "''r''" 3
      False 0 59000 False]
  by (simp add: fw_wf_def fw_new_def local_inv_def local_room_def local_new_def clock_ok_def
      contents_def fw_abs_def fw_good_def fw_spec_def wcount_def fw_wait_def secs_def)

text \<open>C14. The wait is enough: after a denial with \<open>retry_after_ms\<close>, a request for at most the
  quota that comes that much later (with nobody in between) is allowed.\<close>

theorem fw_retry_admits:
  assumes "fw_wf L" "codec_roundtrip C" "clock_ok t" "fw_good L (fw_abs C raw)"
    and denied: "planned (fw_plan oc C L cost) t raw = Inr (b, d)" "\<not> d_allowed d"
    and later: "t + d_retry_after_ms d * 10 ^ 6 \<le> t'" "clock_ok t'"
    and "unat cost' \<le> fw_max L"
  shows "\<exists>b' d'. planned (fw_plan oc C L cost') t' (Some b) = Inr (b', d') \<and> d_allowed d'"
proof -
  let ?seen = "wcount (fw_abs C raw) (fw_window L t)" and ?s = "unat (fw_window_secs L)"
  obtain allowed n wait where spec: "fw_spec L t ?seen (unat cost) = (allowed, n, wait)"
    by (metis prod_cases3)
  from fw_plan_eval [OF assms(1,3,2) fw_good_fits [OF assms(1,4)] spec, of oc] denied
  have d: "d_retry_after_ms d = int wait" "\<not> allowed" "fw_abs C (Some b) = Some (fw_window L t, n)"
    by auto
  from spec d(2) have wait: "wait = fw_wait L t" by (auto simp: fw_spec_def split: if_splits)
  have "int (Suc (fw_window L t) * ?s) \<le> int (secs t')"
  proof -
    have t: "int (secs t) \<le> t div 10 ^ 9" "t div 10 ^ 9 \<le> int (secs t)"
      and t': "t' div 10 ^ 9 \<le> int (secs t')"
      using clock_ok_nonneg assms(3) later(2) by (simp_all add: secs_def zdiv_int)
    have "(t + int (fw_wait L t) * 10 ^ 6) div 10 ^ 9 \<le> t' div 10 ^ 9"
      using later(1) d(1) wait by (intro zdiv_mono1) simp_all
    moreover have "(t + int (fw_wait L t) * 10 ^ 6) div 10 ^ 9
        = t div 10 ^ 9 + int (Suc (fw_window L t) * ?s - secs t)"
      unfolding fw_wait_def by simp
    moreover have "secs t \<le> Suc (fw_window L t) * ?s"
      using assms(1) next_multiple(1) [of ?s "secs t"] by (simp add: fw_wf_def)
    ultimately show ?thesis using t t' by linarith
  qed
  then have "Suc (fw_window L t) * ?s \<le> secs t'" by (simp only: of_nat_le_iff)
  then have "Suc (fw_window L t) \<le> fw_window L t'"
    using assms(1) by (simp add: less_eq_div_iff_mult_less_eq fw_wf_def)
  then have zero: "wcount (fw_abs C (Some b)) (fw_window L t') = 0"
    by (simp add: d(3) wcount_def)
  have "wcount (fw_abs C (Some b)) (fw_window L t') + unat cost' < 2 ^ 64"
    using assms(9) assms(1) by (simp add: zero fw_wf_def)
  from fw_plan_eval [OF assms(1) later(2) assms(2) this, of True "unat cost'" 0 oc] assms(9)
  show ?thesis by (auto simp: fw_spec_def zero)
qed

theorem fw_retry_admits_witness:
  "\<exists>b' d'. planned (fw_plan False fw_sample (fw_new 2 60) 2) (120 * 10 ^ 9)
      (Some (to_vec fw_sample \<lparr>fw_count = 0, fw_window_id = 1\<rparr>)) = Inr (b', d') \<and> d_allowed d'"
proof -
  let ?d = "\<lparr>d_allowed = False, d_limit = 2, d_remaining = 2, d_retry_after_ms = 59000,
    d_reason = fw_reason (fw_new 2 60) False 0 0 59000\<rparr>"
  have "planned (fw_plan False fw_sample (fw_new 2 60) 3) (61 * 10 ^ 9) None
      = Inr (to_vec fw_sample \<lparr>fw_count = 0, fw_window_id = 1\<rparr>, ?d)"
    by (simp add: planned_def fw_eval u64_as_i64_def)
  from fw_retry_admits [OF _ _ _ _ this, where cost' = 2 and t' = "120 * 10 ^ 9"] show ?thesis
    by (simp add: fw_wf_def fw_new_def clock_ok_def fw_good_def fw_abs_def)
qed



text \<open>C21. A limiter with \<open>window_secs = 0\<close> panics on every call, on any store, before it
  reads anything: with a division by zero, or with the clock's own panic when the clock is
  before the epoch.\<close>

theorem fw_zero_window_panics:
  "fw_check oc C S (fw_new m 0) E client res cost s =
    (Inl (if env_clock E 0 < 0 then Clock_Backwards else Div_By_Zero), s)"
  by (simp add: fw_check_def check_loop_def attempts_def upt_conv_Cons fw_plan_def fw_now_secs_def
      expect_duration_def duration_since_epoch_def u64_div_def fw_new_def)

end
