(* ===== verification/Log_Budget.thy ===== *)
theory Log_Budget
  imports Refined_Plan
begin

text \<open>
  The abstract promise of the sliding-window log: a list of admission times from which
  everything older than the window is dropped at each request. Requests may commit out of
  the order of their clocks by at most \<open>\<delta>\<close>; the promise is then about every interval that
  is shorter than the window by \<open>\<delta>\<close>. With \<open>\<delta> = 0\<close> it is about every interval of the
  window's length, wherever it starts.
\<close>

type_synonym levent = "int \<times> nat \<times> bool"

definition lkeep :: "int \<Rightarrow> int \<Rightarrow> int list \<Rightarrow> int list" where
  "lkeep W t ts = filter (\<lambda>u. t - W < u) ts"

definition lstep :: "int \<Rightarrow> int list \<Rightarrow> levent \<Rightarrow> int list" where
  "lstep W ts e = (case e of (t, c, ok) \<Rightarrow> lkeep W t ts @ (if ok then replicate c t else []))"

lemma lstep_simp: "lstep W ts (t, c, ok) = lkeep W t ts @ (if ok then replicate c t else [])"
  by (simp add: lstep_def)

definition lfits :: "int \<Rightarrow> nat \<Rightarrow> int list \<Rightarrow> levent \<Rightarrow> bool" where
  "lfits W q ts e = (case e of (t, c, ok) \<Rightarrow> ok \<longrightarrow> length (lkeep W t ts) + c \<le> q)"

definition lcost :: "int \<Rightarrow> int \<Rightarrow> levent \<Rightarrow> nat" where
  "lcost a x e = (case e of (t, c, ok) \<Rightarrow> if ok \<and> a < t \<and> t \<le> x then c else 0)"

definition admitted_between :: "int \<Rightarrow> int \<Rightarrow> levent list \<Rightarrow> nat" where
  \<comment> \<open>the cost admitted in the interval \<open>(a, x]\<close>\<close>
  "admitted_between a x es = sum_list (map (lcost a x) es)"

fun disorder :: "int \<Rightarrow> int list \<Rightarrow> bool" where
  \<comment> \<open>no clock reading is more than \<open>\<delta>\<close> behind one that committed before it\<close>
  "disorder \<delta> [] = True"
| "disorder \<delta> (t # ts) = ((\<forall>u \<in> set ts. t \<le> u + \<delta>) \<and> disorder \<delta> ts)"

lemma disorder_snoc: "disorder \<delta> (ts @ [u]) \<longleftrightarrow> disorder \<delta> ts \<and> (\<forall>t \<in> set ts. t \<le> u + \<delta>)"
  by (induction ts) auto

lemma sorted_disorder: "sorted ts \<Longrightarrow> disorder 0 ts"
  by (induction ts) auto

lemma admitted_between_snoc:
  "admitted_between a x (es @ [e]) = admitted_between a x es + lcost a x e"
  by (simp add: admitted_between_def)

text \<open>What was admitted after \<open>a\<close> is still in the log as long as nobody has come later than \<open>a + W\<close>.\<close>

lemma log_remembers:
  "(\<And>e. e \<in> set es \<Longrightarrow> fst e - W \<le> a) \<Longrightarrow>
    length (filter (\<lambda>u. a < u \<and> u \<le> x) (foldl (lstep W) [] es)) = admitted_between a x es"
proof (induction es rule: rev_induct)
  case Nil
  then show ?case by (simp add: admitted_between_def)
next
  case (snoc e es)
  obtain t c ok where e: "e = (t, c, ok)" by (cases e)
  have "t - W \<le> a" using snoc.prems [of e] by (simp add: e)
  then have same: "t - W < u \<and> a < u \<and> u \<le> x \<longleftrightarrow> a < u \<and> u \<le> x" for u by auto
  have "length (filter (\<lambda>u. a < u \<and> u \<le> x) (foldl (lstep W) [] es)) = admitted_between a x es"
    using snoc.prems by (intro snoc.IH) simp
  then show ?case
    by (simp add: e lstep_simp lkeep_def same admitted_between_snoc lcost_def)
qed

theorem admitted_between_quota:
  assumes "0 \<le> \<delta>" "disorder \<delta> (map fst es)" "along (lfits W q) (lstep W) [] es"
  shows "admitted_between (x - W + \<delta>) x es \<le> q"
  using assms(2,3)
proof (induction es rule: rev_induct)
  case Nil
  then show ?case by (simp add: admitted_between_def)
next
  case (snoc e es)
  obtain t c ok where e: "e = (t, c, ok)" by (cases e)
  from snoc have IH: "admitted_between (x - W + \<delta>) x es \<le> q"
    and late: "\<And>e'. e' \<in> set es \<Longrightarrow> fst e' \<le> t + \<delta>"
    and fits: "ok \<Longrightarrow> length (lkeep W t (foldl (lstep W) [] es)) + c \<le> q"
    by (auto simp: disorder_snoc lfits_def e)
  show ?case
  proof (cases "ok \<and> x - W + \<delta> < t \<and> t \<le> x")
    case False
    with IH show ?thesis by (auto simp: admitted_between_snoc lcost_def e)
  next
    case True
    have "fst e' - W \<le> x - W + \<delta>" if "e' \<in> set es" for e'
      using late [OF that] True by linarith
    from log_remembers [of es W "x - W + \<delta>" x, OF this]
    have "admitted_between (x - W + \<delta>) x es
        = length (filter (\<lambda>u. x - W + \<delta> < u \<and> u \<le> x) (foldl (lstep W) [] es))" by simp
    also have "\<dots> = length (filter (\<lambda>u. x - W + \<delta> < u \<and> u \<le> x) (lkeep W t (foldl (lstep W) [] es)))"
      unfolding lkeep_def filter_filter
      by (rule arg_cong [where f = length], rule filter_cong [OF refl])
        (use True assms(1) in auto)
    also have "\<dots> \<le> length (lkeep W t (foldl (lstep W) [] es))" by (rule length_filter_le)
    finally show ?thesis
      using fits True by (simp add: admitted_between_snoc lcost_def e)
  qed
qed

end
