(* ===== verification/Sliding_Log.thy ===== *)
theory Sliding_Log
  imports Log_Budget Local_Runs Sample_Codec
begin

text \<open>
  \<open>src/algorithms/sliding_window_log.rs\<close>: the sliding-window log. The state is the list of
  admission times in milliseconds; a request drops the old ones, counts the rest and
  appends its own time once per unit of cost.
\<close>

section \<open>State and operations\<close>

record swl_state =
  swl_timestamps_ms :: "i64 list"

record sliding_log =
  swl_max_requests :: u64
  swl_window_ms :: i64

definition swl_new :: "bool \<Rightarrow> u64 \<Rightarrow> u64 \<Rightarrow> sliding_log res" where
  "swl_new oc max_requests window_secs =
     and_then (u64_mul oc window_secs 1000) (\<lambda>ms.
       Inr \<lparr>swl_max_requests = max_requests, swl_window_ms = u64_as_i64 ms\<rparr>)"

definition swl_name :: string where
  "swl_name = ''sliding_window_log''"

definition swl_now_ms :: "sys_time \<Rightarrow> i64 res" where
  "swl_now_ms t = and_then (expect_duration t) (\<lambda>d. Inr (u128_as_i64 (as_millis d)))"

definition swl_key :: "string \<Rightarrow> string \<Rightarrow> string" where
  "swl_key client_id resource = ''sliding_window_log/'' @ client_id @ ''/'' @ resource"

definition swl_retain :: "i64 \<Rightarrow> i64 list \<Rightarrow> i64 list" where
  "swl_retain cutoff ts = filter (\<lambda>t. t > cutoff) ts"

definition swl_decide :: "bool \<Rightarrow> sliding_log \<Rightarrow> i64 \<Rightarrow> i64 list \<Rightarrow> u64 \<Rightarrow> (i64 list \<times> bool \<times> i64) res" where
  \<comment> \<open>on the log already pruned: the new log, the outcome and the wait\<close>
  "swl_decide oc L now ts cost =
     and_then (u64_add oc (len_as_u64 ts) cost) (\<lambda>total.
       if total \<le> swl_max_requests L then Inr (ts @ replicate (unat cost) now, True, 0)
       else
         let oldest = (case ts of [] \<Rightarrow> now | t # _ \<Rightarrow> t)
         in and_then (i64_add oc oldest (swl_window_ms L)) (\<lambda>expiry.
            and_then (i64_sub oc expiry now) (\<lambda>wait. Inr (ts, False, max wait 0))))"

definition swl_reason :: "sliding_log \<Rightarrow> bool \<Rightarrow> u64 \<Rightarrow> u64 \<Rightarrow> i64 \<Rightarrow> string" where
  "swl_reason L allowed current used retry =
     (if allowed
      then ''ok '' @ em_dash @ '' '' @ show_u64 used @ ''/'' @ show_u64 (swl_max_requests L) @ '' in window''
      else ''sliding-log limit '' @ show_u64 current @ ''/'' @ show_u64 (swl_max_requests L) @
           '' exceeded, retry in '' @ show_int retry @ ''ms'')"

definition swl_plan :: "bool \<Rightarrow> swl_state codec \<Rightarrow> sliding_log \<Rightarrow> u32 \<Rightarrow> plan" where
  "swl_plan oc C L cost t =
     and_then (swl_now_ms t) (\<lambda>now.
     and_then (i64_sub oc now (swl_window_ms L)) (\<lambda>cutoff.
       Inr (\<lambda>raw.
         let ts = swl_retain cutoff (swl_timestamps_ms (decode_or C \<lparr>swl_timestamps_ms = []\<rparr> raw));
             current = len_as_u64 ts; c = u32_as_u64 cost
         in and_then (swl_decide oc L now ts c) (\<lambda>(ts', allowed, retry).
            and_then (u64_add oc current (if allowed then c else 0)) (\<lambda>used.
              Inr (to_vec C \<lparr>swl_timestamps_ms = ts'\<rparr>,
                   \<lparr>d_allowed = allowed,
                    d_limit = u64_as_i64 (swl_max_requests L),
                    d_remaining = u64_as_i64 (saturating_sub (swl_max_requests L) used),
                    d_retry_after_ms = retry,
                    d_reason = swl_reason L allowed current used retry\<rparr>))))))"

definition swl_check :: "bool \<Rightarrow> swl_state codec \<Rightarrow> 's state_store \<Rightarrow> sliding_log \<Rightarrow> 's env
    \<Rightarrow> string \<Rightarrow> string \<Rightarrow> u32 \<Rightarrow> 's \<Rightarrow> decision res \<times> 's" where
  "swl_check oc C S L E client_id resource cost s =
     check_loop S E (swl_key client_id resource) (swl_plan oc C L cost)
       (conflict_decision (u64_as_i64 (swl_max_requests L))) s"

section \<open>Behaviour within the configuration's range\<close>

definition swl_wf :: "sliding_log \<Rightarrow> bool" where
  "swl_wf L \<longleftrightarrow> 0 < swl_window_ms L \<and> swl_window_ms L < 2 ^ 62 \<and> unat (swl_max_requests L) < 2 ^ 63"

abbreviation swl_max :: "sliding_log \<Rightarrow> nat" where
  "swl_max L \<equiv> unat (swl_max_requests L)"

definition swl_abs :: "swl_state codec \<Rightarrow> bytes option \<Rightarrow> int list" where
  \<comment> \<open>the content of a key as admission times; bytes that do not parse count as an empty log\<close>
  "swl_abs C raw = swl_timestamps_ms (decode_or C \<lparr>swl_timestamps_ms = []\<rparr> raw)"

definition swl_good :: "sliding_log \<Rightarrow> int list \<Rightarrow> bool" where
  "swl_good L ts \<longleftrightarrow> length ts \<le> swl_max L \<and> (\<forall>u \<in> set ts. 0 \<le> u \<and> u < 2 ^ 62)"

definition swl_wait :: "sliding_log \<Rightarrow> int \<Rightarrow> int list \<Rightarrow> int" where
  "swl_wait L now ts = max ((case ts of [] \<Rightarrow> now | u # _ \<Rightarrow> u) + swl_window_ms L - now) 0"

definition swl_spec :: "sliding_log \<Rightarrow> int \<Rightarrow> int list \<Rightarrow> nat \<Rightarrow> bool \<times> nat \<times> int" where
  \<comment> \<open>outcome, units used afterwards and wait, on the pruned log\<close>
  "swl_spec L now ts c =
     (if length ts + c \<le> swl_max L then (True, length ts + c, 0)
      else (False, length ts, swl_wait L now ts))"

lemma swl_retain_lkeep: "swl_retain (t - W) ts = lkeep W t ts"
  by (simp add: swl_retain_def lkeep_def)

lemma len_as_u64_unat: "length xs < 2 ^ 64 \<Longrightarrow> unat (len_as_u64 xs) = length xs"
  by (simp add: len_as_u64_def unat_of_nat)

lemma cost_small: "unat (cost :: u32) < 2 ^ 32"
  using unsigned_less [of cost] by simp

lemma swl_good_lkeep: "swl_good L ts \<Longrightarrow> swl_good L (lkeep W t ts)"
  unfolding swl_good_def lkeep_def by (auto intro: order_trans [OF length_filter_le])

lemma swl_decide_spec:
  assumes wf: "swl_wf L" and good: "swl_good L ts" and now: "0 \<le> now" "now < 2 ^ 62"
    and spec: "swl_spec L now ts (unat cost) = (allowed, n, wait)"
  shows "\<exists>used. swl_decide oc L now ts (u32_as_u64 cost) =
      Inr (ts @ (if allowed then replicate (unat cost) now else []), allowed, wait) \<and>
    u64_add oc (len_as_u64 ts) (if allowed then u32_as_u64 cost else 0) = Inr used \<and> unat used = n"
proof -
  have len: "length ts < 2 ^ 63" using wf good by (simp add: swl_wf_def swl_good_def)
  then have u: "unat (len_as_u64 ts) = length ts" by (simp add: len_as_u64_unat)
  have fits: "unat (len_as_u64 ts) + unat (u32_as_u64 cost) < 2 ^ 64"
    using len cost_small [of cost] by (simp add: u)
  note add = u64_add_exact [OF fits, of oc] unat_u64_add [OF fits]
  have le: "len_as_u64 ts + u32_as_u64 cost \<le> swl_max_requests L \<longleftrightarrow> length ts + unat cost \<le> swl_max L"
    using add(2) by (simp add: word_le_nat_alt u)
  show ?thesis
  proof (cases "length ts + unat cost \<le> swl_max L")
    case True
    with spec add u show ?thesis by (auto simp: swl_decide_def swl_spec_def le)
  next
    case False
    define oldest where "oldest = (case ts of [] \<Rightarrow> now | u # _ \<Rightarrow> u)"
    have old: "0 \<le> oldest \<and> oldest < 2 ^ 62"
      using good now by (auto simp: oldest_def swl_good_def split: list.splits)
    with wf now have "is_i64 (oldest + swl_window_ms L)" "is_i64 (oldest + swl_window_ms L - now)"
      by (simp_all add: is_i64_def swl_wf_def)
    moreover have "u64_add oc (len_as_u64 ts) 0 = Inr (len_as_u64 ts)"
      using len u by (simp add: u64_add_def)
    ultimately show ?thesis
      using False spec add(1) u
      by (auto simp: swl_decide_def swl_spec_def le swl_wait_def oldest_def [symmetric])
  qed
qed

lemma swl_plan_eval:
  assumes wf: "swl_wf L" and ok: "clock_ok t" and rt: "codec_roundtrip C"
    and good: "swl_good L (swl_abs C raw)"
    and spec: "swl_spec L (msecs t) (lkeep (swl_window_ms L) (msecs t) (swl_abs C raw)) (unat cost)
      = (allowed, n, wait)"
  shows "\<exists>b rsn. planned (swl_plan oc C L cost) t raw = Inr (b,
      \<lparr>d_allowed = allowed, d_limit = int (swl_max L), d_remaining = int (swl_max L - n),
       d_retry_after_ms = wait, d_reason = rsn\<rparr>) \<and>
    swl_abs C (Some b) = lstep (swl_window_ms L) (swl_abs C raw) (msecs t, unat cost, allowed)"
proof -
  let ?now = "msecs t" and ?W = "swl_window_ms L"
  let ?ts = "lkeep ?W ?now (swl_abs C raw)"
  note now = msecs_range [OF ok]
  have clock: "swl_now_ms t = Inr ?now"
    using clock_ok_nonneg [OF ok] by (simp add: swl_now_ms_def as_millis_msecs [OF ok])
  have "is_i64 (?now - ?W)" using now wf by (simp add: is_i64_def swl_wf_def)
  with clock have plan: "planned (swl_plan oc C L cost) t raw =
      and_then (swl_decide oc L ?now ?ts (u32_as_u64 cost)) (\<lambda>(ts', allowed, retry).
      and_then (u64_add oc (len_as_u64 ?ts) (if allowed then u32_as_u64 cost else 0)) (\<lambda>used.
        Inr (to_vec C \<lparr>swl_timestamps_ms = ts'\<rparr>,
             \<lparr>d_allowed = allowed,
              d_limit = u64_as_i64 (swl_max_requests L),
              d_remaining = u64_as_i64 (saturating_sub (swl_max_requests L) used),
              d_retry_after_ms = retry,
              d_reason = swl_reason L allowed (len_as_u64 ?ts) used retry\<rparr>)))"
    by (simp add: planned_def swl_plan_def Let_def swl_retain_lkeep swl_abs_def)
  from swl_decide_spec [OF wf swl_good_lkeep [OF good] _ _ spec, of oc] now obtain used
    where "swl_decide oc L ?now ?ts (u32_as_u64 cost) =
        Inr (?ts @ (if allowed then replicate (unat cost) ?now else []), allowed, wait)"
      and "u64_add oc (len_as_u64 ?ts) (if allowed then u32_as_u64 cost else 0) = Inr used"
      and "unat used = n" by blast
  moreover from this have "u64_as_i64 (swl_max_requests L) = int (swl_max L)"
    and "u64_as_i64 (saturating_sub (swl_max_requests L) used) = int (swl_max L - n)"
    using wf by (simp_all add: u64_as_i64_small u64_as_i64_saturating_sub swl_wf_def)
  ultimately show ?thesis
    using rt by (auto simp: plan swl_abs_def lstep_simp)
qed

lemma swl_refines:
  assumes wf: "swl_wf L" and ok: "clock_ok t" and rt: "codec_roundtrip C"
    and good: "swl_good L (swl_abs C raw)"
    and run: "planned (swl_plan oc C L cost) t raw = Inr (b, d)"
  shows "swl_abs C (Some b) = lstep (swl_window_ms L) (swl_abs C raw) (msecs t, unat cost, d_allowed d)"
    and "d_allowed d \<longleftrightarrow>
      length (lkeep (swl_window_ms L) (msecs t) (swl_abs C raw)) + unat cost \<le> swl_max L"
    and "swl_good L (swl_abs C (Some b))"
proof -
  obtain allowed n wait where spec: "swl_spec L (msecs t)
      (lkeep (swl_window_ms L) (msecs t) (swl_abs C raw)) (unat cost) = (allowed, n, wait)"
    by (metis prod_cases3)
  from swl_plan_eval [OF wf ok rt good spec, of oc] run
  show abs: "swl_abs C (Some b) = lstep (swl_window_ms L) (swl_abs C raw) (msecs t, unat cost, d_allowed d)"
    by auto
  from swl_plan_eval [OF wf ok rt good spec, of oc] run spec
  show allow: "d_allowed d \<longleftrightarrow>
      length (lkeep (swl_window_ms L) (msecs t) (swl_abs C raw)) + unat cost \<le> swl_max L"
    by (auto simp: swl_spec_def split: if_splits)
  show "swl_good L (swl_abs C (Some b))"
    using swl_good_lkeep [OF good, of "swl_window_ms L" "msecs t"] msecs_range [OF ok] allow
    by (auto simp: abs lstep_simp swl_good_def)
qed

section \<open>The log contract\<close>

definition swl_event :: "sys_time \<Rightarrow> u32 \<Rightarrow> decision \<Rightarrow> levent" where
  "swl_event t cost d = (msecs t, unat cost, d_allowed d)"

interpretation swl: refined_plan "\<lambda>(oc, C, L). swl_plan oc C L"
  "\<lambda>(oc, C, L). swl_wf L \<and> codec_roundtrip C" "\<lambda>(oc, C, L) raw. swl_good L (swl_abs C raw)"
  "\<lambda>(oc, C, L). swl_abs C" "\<lambda>_. swl_event" "\<lambda>(oc, C, L). lstep (swl_window_ms L)" "\<lambda>_. []"
  "\<lambda>_ _ _. True" "\<lambda>(oc, C, L). lfits (swl_window_ms L) (swl_max L)"
  by unfold_locales
    (auto simp: swl_good_def swl_abs_def swl_event_def lfits_def dest: swl_refines [unfolded swl_good_def swl_abs_def])

section \<open>Runs used as examples\<close>

definition swl_sample :: "swl_state codec" where
  "swl_sample = sample_codec (\<lambda>s. List.map int_code (swl_timestamps_ms s))
     (\<lambda>ns. \<lparr>swl_timestamps_ms = List.map int_decode ns\<rparr>)"

lemma swl_sample_roundtrip [simp]: "codec_roundtrip swl_sample"
  unfolding swl_sample_def by (rule sample_codec_roundtrip) (simp add: comp_def)

definition swl_task :: "swl_state codec \<Rightarrow> sliding_log \<Rightarrow> nat \<Rightarrow> task" where
  "swl_task C L i = \<lparr>t_key = swl_key ''a'' ''r'', t_plan = swl_plan False C L 1,
     t_fail = conflict_decision (u64_as_i64 (swl_max_requests L))\<rparr>"

definition swl_schedule :: "(nat \<times> sys_time) list" where
  \<comment> \<open>task 0 reads the clock at 5 ms and commits after task 1, which read it at 7 ms\<close>
  "swl_schedule = [(0, 5000000), (1, 7000000), (1, 7000000), (1, 7000000), (0, 8000000), (0, 8000000),
     (2, 9000000), (2, 9000000), (2, 9000000)]"

lemmas swl_eval = swl_plan_def swl_now_ms_def u128_as_i64_def as_millis_def swl_decide_def
  swl_retain_def u64_add_def u32_as_u64_def len_as_u64_def i64_sub_def i64_add_def is_i64_def
  swl_task_def

lemma swl_run:
  assumes "codec_roundtrip C"
  shows "map (\<lambda>c. (c_task c, c_now c, d_allowed (c_decision c)))
    (sys_log (local_run (swl_task C \<lparr>swl_max_requests = 2, swl_window_ms = 1000\<rparr>) swl_schedule))
      = [(1, 7000000, True), (0, 5000000, True), (2, 9000000, False)]"
  using assms by (simp add: swl_schedule_def run_eval swl_eval cong: if_cong)

section \<open>Properties\<close>

text \<open>C2. The promise of the algorithm, under concurrency: if no call commits after one whose
  clock reading is more than \<open>\<delta>\<close> ms ahead of its own, every interval shorter than the window
  by \<open>\<delta>\<close> admits at most \<open>max_requests\<close>, wherever it starts. With commits in clock order
  (\<open>\<delta> = 0\<close>) this is every interval of the window's length: there is no boundary burst.\<close>

theorem swl_concurrent_interval:
  assumes "swl_wf L" "codec_roundtrip C" "length evs < 2 ^ 62"
    and "\<And>i t. (i, t) \<in> set evs \<Longrightarrow> clock_ok t"
    and "\<And>i. t_key (tk i) = k \<Longrightarrow> t_plan (tk i) = swl_plan oc C L (cost i)"
    and "0 \<le> \<delta>"
    and "disorder \<delta> (map (\<lambda>c. msecs (c_now c)) (on_key tk k (sys_log (local_run tk evs))))"
  shows "admitted_between (x - swl_window_ms L + \<delta>) x
    (log_events tk cost swl_event k (sys_log (local_run tk evs))) \<le> swl_max L"
proof -
  have "along (lfits (swl_window_ms L) (swl_max L)) (lstep (swl_window_ms L)) []
      (log_events tk cost swl_event k (sys_log (local_run tk evs)))"
    using swl.replay_refines [of "(oc, C, L)" tk k cost "sys_log (local_run tk evs)"]
      local_run_replay(1) [OF assms(3), of tk k] local_run_clocks [of evs clock_ok _ tk] assms
    by (simp add: along_True)
  with assms(6,7) show ?thesis
    by (intro admitted_between_quota)
      (simp_all add: log_events_def swl_event_def comp_def)
qed

theorem swl_concurrent_interval_witness:
  "admitted_between (- 993 + 2) 7 (log_events (swl_task swl_sample \<lparr>swl_max_requests = 2, swl_window_ms = 1000\<rparr>)
     (\<lambda>_. 1) swl_event (swl_key ''a'' ''r'')
     (sys_log (local_run (swl_task swl_sample \<lparr>swl_max_requests = 2, swl_window_ms = 1000\<rparr>) swl_schedule))) \<le> 2"
proof -
  let ?L = "\<lparr>swl_max_requests = 2, swl_window_ms = 1000\<rparr>"
  let ?log = "sys_log (local_run (swl_task swl_sample ?L) swl_schedule)"
  have "\<exists>c0 c1 c2. ?log = [c0, c1, c2] \<and> c_now c0 = 7000000 \<and> c_now c1 = 5000000 \<and> c_now c2 = 9000000"
    using swl_run [OF swl_sample_roundtrip] by (auto simp: map_eq_Cons_conv)
  then have "disorder 2 (map (\<lambda>c. msecs (c_now c)) (on_key (swl_task swl_sample ?L) (swl_key ''a'' ''r'') ?log))"
    by (auto simp: on_key_def swl_task_def msecs_def)
  then have "admitted_between (7 - swl_window_ms ?L + 2) 7
      (log_events (swl_task swl_sample ?L) (\<lambda>_. 1) swl_event (swl_key ''a'' ''r'') ?log) \<le> swl_max ?L"
    by (intro swl_concurrent_interval [where oc = False and C = swl_sample])
      (auto simp: swl_wf_def swl_task_def swl_schedule_def clock_ok_def)
  then show ?thesis by simp
qed

text \<open>C9. One undisturbed \<open>check\<close> on a \<open>LocalStore\<close>: it decides as \<open>swl_spec\<close> says on the log
  pruned at its clock, reports limit, remaining quota and wait accordingly, stores the pruned
  log with its own time appended once per unit of cost when it is allowed, and leaves every
  other key alone.\<close>

theorem swl_check_undisturbed:
  assumes "swl_wf L" "codec_roundtrip C" "local_inv s" "local_room s" "clock_ok (clk 0)"
    and good: "swl_good L (swl_abs C (contents ls_state s (swl_key client res)))"
    and spec: "swl_spec L (msecs (clk 0)) (lkeep (swl_window_ms L) (msecs (clk 0))
        (swl_abs C (contents ls_state s (swl_key client res)))) (unat cost) = (allowed, n, wait)"
  shows "\<exists>rsn b v s'. swl_check oc C local_ops L (quiet clk) client res cost s =
      (Inr \<lparr>d_allowed = allowed, d_limit = int (swl_max L), d_remaining = int (swl_max L - n),
        d_retry_after_ms = wait, d_reason = rsn\<rparr>, s') \<and>
    swl_abs C (Some b) = lstep (swl_window_ms L) (swl_abs C (contents ls_state s (swl_key client res)))
      (msecs (clk 0), unat cost, allowed) \<and>
    ls_state s' = (ls_state s)(swl_key client res \<mapsto> (b, v))"
proof -
  let ?raw = "contents ls_state s (swl_key client res)"
  from swl_plan_eval [OF assms(1,5,2) good spec, of oc] obtain b rsn
    where run: "planned (swl_plan oc C L cost) (clk 0) ?raw = Inr (b, \<lparr>d_allowed = allowed,
        d_limit = int (swl_max L), d_remaining = int (swl_max L - n), d_retry_after_ms = wait,
        d_reason = rsn\<rparr>)"
      and b: "swl_abs C (Some b) = lstep (swl_window_ms L) (swl_abs C ?raw) (msecs (clk 0), unat cost, allowed)"
    by blast
  from local_check_quiet [where clk = clk, OF assms(3,4) run] b
  show ?thesis unfolding swl_check_def by blast
qed

theorem swl_check_undisturbed_witness:
  "\<exists>rsn b v s'. swl_check False swl_sample local_ops \<lparr>swl_max_requests = 2, swl_window_ms = 1000\<rparr>
       (quiet (\<lambda>_. 7000000)) ''a'' ''r'' 1 local_new =
      (Inr \<lparr>d_allowed = True, d_limit = 2, d_remaining = 1, d_retry_after_ms = 0, d_reason = rsn\<rparr>, s') \<and>
    swl_abs swl_sample (Some b) = [7] \<and>
    ls_state s' = (ls_state local_new)(swl_key ''a'' ''r'' \<mapsto> (b, v))"
  using swl_check_undisturbed [of "\<lparr>swl_max_requests = 2, swl_window_ms = 1000\<rparr>" swl_sample local_new
      "\<lambda>_. 7000000" "''a''" "''r''" 1 True 1 0 False]
  by (simp add: swl_wf_def local_inv_def local_room_def local_new_def clock_ok_def
      contents_def swl_abs_def swl_good_def swl_spec_def lkeep_def msecs_def lstep_simp)

text \<open>C15. The wait is enough for one unit: after a request of cost 1 is denied, a request of
  cost 1 that comes \<open>retry_after_ms\<close> later (with nobody in between) is allowed.\<close>

theorem swl_retry_admits_one:
  assumes "swl_wf L" "codec_roundtrip C" "clock_ok t" "swl_good L (swl_abs C raw)" "0 < swl_max L"
    and denied: "planned (swl_plan oc C L 1) t raw = Inr (b, d)" "\<not> d_allowed d"
    and later: "msecs t + d_retry_after_ms d \<le> msecs t'" "clock_ok t'"
  shows "\<exists>b' d'. planned (swl_plan oc C L 1) t' (Some b) = Inr (b', d') \<and> d_allowed d'"
proof -
  let ?W = "swl_window_ms L" and ?ts = "lkeep (swl_window_ms L) (msecs t) (swl_abs C raw)"
  obtain allowed n wait where spec: "swl_spec L (msecs t) ?ts (unat (1 :: u32)) = (allowed, n, wait)"
    by (metis prod_cases3)
  from swl_plan_eval [OF assms(1,3,2,4) spec, of oc] denied
  have d: "d_retry_after_ms d = wait" "\<not> allowed" and b: "swl_abs C (Some b) = ?ts"
    by (auto simp: lstep_simp)
  from spec d(2) have full: "swl_max L < length ?ts + 1" and wait: "wait = swl_wait L (msecs t) ?ts"
    by (auto simp: swl_spec_def split: if_splits)
  from full assms(5) obtain u us where ts: "?ts = u # us" by (cases ?ts) auto
  have "u + ?W \<le> msecs t'" using later(1) by (simp add: d(1) wait swl_wait_def ts)
  then have "length (lkeep ?W (msecs t') ?ts) \<le> length us"
    unfolding ts by (simp add: lkeep_def)
  moreover have "Suc (length us) \<le> swl_max L"
    using swl_good_lkeep [OF assms(4), of ?W "msecs t"] ts by (simp add: swl_good_def)
  ultimately have fits: "length (lkeep ?W (msecs t') (swl_abs C (Some b))) + unat (1 :: u32) \<le> swl_max L"
    by (simp add: b)
  have good: "swl_good L (swl_abs C (Some b))" unfolding b by (rule swl_good_lkeep [OF assms(4)])
  from fits have "swl_spec L (msecs t') (lkeep ?W (msecs t') (swl_abs C (Some b))) (unat (1 :: u32))
      = (True, length (lkeep ?W (msecs t') (swl_abs C (Some b))) + 1, 0)"
    by (simp add: swl_spec_def)
  from swl_plan_eval [OF assms(1) later(2) assms(2) good this, of oc] show ?thesis by auto
qed

theorem swl_retry_admits_one_witness:
  "\<exists>b' d'. planned (swl_plan False swl_sample \<lparr>swl_max_requests = 1, swl_window_ms = 1000\<rparr> 1) 1003000000
      (Some (to_vec swl_sample \<lparr>swl_timestamps_ms = [3]\<rparr>)) = Inr (b', d') \<and> d_allowed d'"
proof -
  let ?L = "\<lparr>swl_max_requests = 1, swl_window_ms = 1000\<rparr>"
  let ?d = "\<lparr>d_allowed = False, d_limit = 1, d_remaining = 0, d_retry_after_ms = 996,
    d_reason = swl_reason ?L False 1 1 996\<rparr>"
  have "planned (swl_plan False swl_sample ?L 1) 7000000
      (Some (to_vec swl_sample \<lparr>swl_timestamps_ms = [3]\<rparr>))
      = Inr (to_vec swl_sample \<lparr>swl_timestamps_ms = [3]\<rparr>, ?d)"
    by (simp add: planned_def swl_eval wrap_i64_def u64_as_i64_def saturating_sub_def
        Let_def word_le_nat_alt)
  from swl_retry_admits_one [OF _ _ _ _ _ this, where t' = 1003000000] show ?thesis
    by (simp add: swl_wf_def clock_ok_def swl_good_def swl_abs_def msecs_def)
qed

text \<open>For a larger cost the wait looks at the oldest entry only and is too short: with a
  quota of 2 in 1000 ms and admissions at 0 and 500 ms, a request of cost 2 at 999 ms is told to
  come back in 1 ms and is denied again.\<close>

theorem swl_retry_too_short:
  assumes "codec_roundtrip C"
  shows "\<exists>b d d'. planned (swl_plan oc C \<lparr>swl_max_requests = 2, swl_window_ms = 1000\<rparr> 2) 999000000
        (Some (to_vec C \<lparr>swl_timestamps_ms = [0, 500]\<rparr>)) = Inr (b, d) \<and> d_retry_after_ms d = 1 \<and>
      planned (swl_plan oc C \<lparr>swl_max_requests = 2, swl_window_ms = 1000\<rparr> 2) 1000000000 (Some b)
        = Inr (to_vec C \<lparr>swl_timestamps_ms = [500]\<rparr>, d') \<and> \<not> d_allowed d' \<and> d_retry_after_ms d' = 500"
  using assms by (simp add: planned_def swl_eval wrap_i64_def)

theorem swl_retry_too_short_witness:
  "\<exists>d'. planned (swl_plan False swl_sample \<lparr>swl_max_requests = 2, swl_window_ms = 1000\<rparr> 2) 1000000000
      (Some (to_vec swl_sample \<lparr>swl_timestamps_ms = [0, 500]\<rparr>)) = Inr (to_vec swl_sample \<lparr>swl_timestamps_ms = [500]\<rparr>, d') \<and>
    \<not> d_allowed d'"
proof -
  from swl_retry_too_short [OF swl_sample_roundtrip, of False] show ?thesis
    by (auto simp: planned_def swl_eval wrap_i64_def)
qed

end
