(* ===== verification/Sliding_Counter.thy ===== *)
theory Sliding_Counter
  imports F64 Window_Limiter Local_Runs Sample_Codec
begin

text \<open>
  \<open>src/algorithms/sliding_window_counter.rs\<close>: the sliding-window counter, two window counts
  blended in \<open>f64\<close>. The plan is the body of the retry loop of \<open>check\<close>.
\<close>

section \<open>State and operations\<close>

record swc_state =
  swc_prev_count :: u64
  swc_curr_count :: u64
  swc_curr_window_id :: u64

record sliding_counter =
  swc_max_requests :: u64
  swc_window_secs :: u64

definition swc_new :: "u64 \<Rightarrow> u64 \<Rightarrow> sliding_counter" where
  "swc_new max_requests window_secs =
     \<lparr>swc_max_requests = max_requests, swc_window_secs = window_secs\<rparr>"

definition swc_name :: string where
  "swc_name = ''sliding_window_counter''"

definition swc_now_secs :: "sys_time \<Rightarrow> u64 res" where
  "swc_now_secs t = and_then (expect_duration t) (\<lambda>d. Inr (as_secs d))"

definition swc_key :: "string \<Rightarrow> string \<Rightarrow> string" where
  "swc_key client_id resource = ''sliding_window_counter/'' @ client_id @ ''/'' @ resource"

definition swc_fraction :: "sliding_counter \<Rightarrow> u64 \<Rightarrow> f64" where
  \<comment> \<open>the fraction of the window gone, from the seconds into it\<close>
  "swc_fraction L into = f64_div (f64_of_u64 into) (f64_of_u64 (swc_window_secs L))"

definition swc_counts :: "swc_state \<Rightarrow> u64 \<Rightarrow> u64 \<times> u64" where
  \<comment> \<open>the counts of the previous and the current window, as seen from window \<open>wid\<close>\<close>
  "swc_counts st wid =
     (let diff = saturating_sub wid (swc_curr_window_id st) in
      if diff = 0 then (swc_prev_count st, swc_curr_count st)
      else if diff = 1 then (swc_curr_count st, 0)
      else (0, 0))"

definition swc_weighted :: "f64 \<Rightarrow> u64 \<Rightarrow> u64 \<Rightarrow> f64" where
  "swc_weighted elapsed pc cc =
     f64_add (f64_mul (f64_of_u64 pc) (f64_sub (Num 1) elapsed)) (f64_of_u64 cc)"

definition swc_decide :: "bool \<Rightarrow> sliding_counter \<Rightarrow> f64 \<Rightarrow> f64 \<Rightarrow> u64 \<Rightarrow> u64 \<Rightarrow> (u64 \<times> bool \<times> i64) res" where
  "swc_decide oc L elapsed weighted cc cost =
     (if f64_le (f64_add weighted (f64_of_u64 cost)) (f64_of_u64 (swc_max_requests L))
      then and_then (u64_add oc cc cost) (\<lambda>n. Inr (n, True, 0))
      else Inr (cc, False, f64_as_i64 (f64_mul (f64_mul (f64_sub (Num 1) elapsed)
             (f64_of_u64 (swc_window_secs L))) (Num 1000))))"

definition swc_remaining :: "sliding_counter \<Rightarrow> f64 \<Rightarrow> u64 \<Rightarrow> i64" where
  "swc_remaining L weighted cost =
     f64_as_i64 (f64_max (f64_sub (f64_sub (f64_of_u64 (swc_max_requests L)) weighted)
       (f64_of_u64 cost)) (Num 0))"

definition swc_reason :: "sliding_counter \<Rightarrow> bool \<Rightarrow> f64 \<Rightarrow> u64 \<Rightarrow> i64 \<Rightarrow> string" where
  "swc_reason L allowed weighted cost retry =
     (if allowed
      then ''ok '' @ em_dash @ '' weighted '' @ show_f64 1 (f64_add weighted (f64_of_u64 cost)) @ ''/'' @
           show_u64 (swc_max_requests L) @ '' in window''
      else ''sliding-counter limit exceeded (weighted '' @ show_f64 1 weighted @ ''/'' @
           show_u64 (swc_max_requests L) @ ''), retry in '' @ show_int retry @ ''ms'')"

definition swc_plan :: "bool \<Rightarrow> swc_state codec \<Rightarrow> sliding_counter \<Rightarrow> u32 \<Rightarrow> plan" where
  "swc_plan oc C L cost t =
     and_then (swc_now_secs t) (\<lambda>now.
     and_then (u64_div now (swc_window_secs L)) (\<lambda>wid.
     and_then (u64_rem now (swc_window_secs L)) (\<lambda>into.
       Inr (\<lambda>raw.
         let elapsed = swc_fraction L into;
             st = decode_or C \<lparr>swc_prev_count = 0, swc_curr_count = 0, swc_curr_window_id = wid\<rparr> raw
         in case swc_counts st wid of (pc, cc) \<Rightarrow>
           let c = u32_as_u64 cost;
               weighted = swc_weighted elapsed pc cc
           in and_then (swc_decide oc L elapsed weighted cc c) (\<lambda>(new_curr, allowed, retry).
                Inr (to_vec C \<lparr>swc_prev_count = pc, swc_curr_count = new_curr, swc_curr_window_id = wid\<rparr>,
                     \<lparr>d_allowed = allowed,
                      d_limit = u64_as_i64 (swc_max_requests L),
                      d_remaining = (if allowed then swc_remaining L weighted c else 0),
                      d_retry_after_ms = retry,
                      d_reason = swc_reason L allowed weighted c retry\<rparr>))))))"

definition swc_check :: "bool \<Rightarrow> swc_state codec \<Rightarrow> 's state_store \<Rightarrow> sliding_counter \<Rightarrow> 's env
    \<Rightarrow> string \<Rightarrow> string \<Rightarrow> u32 \<Rightarrow> 's \<Rightarrow> decision res \<times> 's" where
  "swc_check oc C S L E client_id resource cost s =
     check_loop S E (swc_key client_id resource) (swc_plan oc C L cost)
       (conflict_decision (u64_as_i64 (swc_max_requests L))) s"

section \<open>The blended count\<close>

text \<open>
  \<open>swc_wf\<close>: a non-empty window, and a quota whose sums with a cost are exact in \<open>f64\<close>.
\<close>

definition swc_wf :: "sliding_counter \<Rightarrow> bool" where
  "swc_wf L \<longleftrightarrow> 0 < unat (swc_window_secs L) \<and> unat (swc_max_requests L) \<le> 2 ^ 52"

abbreviation swc_max :: "sliding_counter \<Rightarrow> nat" where
  "swc_max L \<equiv> unat (swc_max_requests L)"

abbreviation swc_window :: "sliding_counter \<Rightarrow> sys_time \<Rightarrow> nat" where
  "swc_window L t \<equiv> secs t div unat (swc_window_secs L)"

lemma representable_1: "representable 1"
  using representable_int [of 1] by simp

lemma swc_fraction_bounds:
  assumes "0 < unat (swc_window_secs L)" "unat into \<le> unat (swc_window_secs L)"
  shows "fin (swc_fraction L into)" and "0 \<le> val (swc_fraction L into)" and "val (swc_fraction L into) \<le> 1"
proof -
  let ?r = "val (f64_of_u64 into)" and ?W = "val (f64_of_u64 (swc_window_secs L))"
  have "of_nat 1 \<le> (of_nat (unat (swc_window_secs L)) :: rat)"
    using assms(1) by (intro of_nat_mono) simp
  then have "1 \<le> ?W"
    unfolding f64_of_u64_fin(2) using representable_1 by (intro round_rat_ge) simp_all
  moreover have "0 \<le> ?r" "?r \<le> ?W" using f64_of_u64_fin(3) f64_of_u64_mono [OF assms(2)] by auto
  ultimately have q: "0 \<le> ?r / ?W" "?r / ?W \<le> 1" and nz: "?W \<noteq> 0"
    by (auto simp: divide_le_eq)
  then have "fits_f64 (?r / ?W)" by (intro fits_f64_nonneg [of _ 0]) simp_all
  note div = f64_div_fin [OF f64_of_u64_fin(1) f64_of_u64_fin(1) nz this]
  from div q show "fin (swc_fraction L into)" "0 \<le> val (swc_fraction L into)" "val (swc_fraction L into) \<le> 1"
    by (simp_all add: swc_fraction_def round_rat_nonneg round_rat_le representable_1)
qed

lemma swc_complement_bounds:
  assumes "fin f" "0 \<le> val f" "val f \<le> 1"
  shows "fin (f64_sub (Num 1) f)" and "0 \<le> val (f64_sub (Num 1) f)" and "val (f64_sub (Num 1) f) \<le> 1"
proof -
  have "fits_f64 (val (Num 1) - val f)" using assms by (intro fits_f64_nonneg [of _ 0]) simp_all
  note sub = f64_sub_fin [OF fin_simps(4) assms(1) this]
  from sub assms show "fin (f64_sub (Num 1) f)" "0 \<le> val (f64_sub (Num 1) f)" "val (f64_sub (Num 1) f) \<le> 1"
    by (simp_all add: round_rat_nonneg round_rat_le representable_1)
qed

text \<open>The blend lies between the current count and the sum of both counts.\<close>

lemma swc_previous_part:
  fixes pc :: u64
  assumes "fin f" "0 \<le> val f" "val f \<le> 1"
  defines "p \<equiv> f64_mul (f64_of_u64 pc) (f64_sub (Num 1) f)"
  shows "fin p" and "0 \<le> val p" and "val p \<le> val (f64_of_u64 pc)" and "val p \<le> 2 ^ 64"
proof -
  note c = swc_complement_bounds [OF assms(1-3)]
  let ?x = "val (f64_of_u64 pc)" and ?c = "val (f64_sub (Num 1) f)"
  have x: "0 \<le> ?x" "?x \<le> 2 ^ 64" by (rule f64_of_u64_fin)+
  then have prod: "0 \<le> ?x * ?c" "?x * ?c \<le> ?x"
    using c mult_left_mono [of ?c 1 ?x] by simp_all
  then have "fits_f64 (?x * ?c)" using x by (intro fits_f64_nonneg [of _ 64]) simp_all
  note mul = f64_mul_fin [OF f64_of_u64_fin(1) c(1) this]
  have "representable ?x" by (simp add: f64_of_u64_fin(2) representable_round_rat)
  with mul prod x show "fin p" "0 \<le> val p" "val p \<le> val (f64_of_u64 pc)" "val p \<le> 2 ^ 64"
    by (auto simp: p_def round_rat_nonneg intro: round_rat_le order_trans)
qed

lemma swc_weighted_bounds:
  assumes elapsed: "fin f" "0 \<le> val f" "val f \<le> 1" and cc: "unat cc \<le> 2 ^ 53"
  shows "fin (swc_weighted f pc cc)"
    and "of_nat (unat cc) \<le> val (swc_weighted f pc cc)"
    and "unat pc + unat cc \<le> 2 ^ 53 \<Longrightarrow> val (swc_weighted f pc cc) \<le> of_nat (unat pc + unat cc)"
    and "val (swc_weighted f pc cc) \<le> 2 ^ 65"
proof -
  let ?p = "f64_mul (f64_of_u64 pc) (f64_sub (Num 1) f)"
  note p = swc_previous_part [OF elapsed, of pc]
  have c: "val (f64_of_u64 cc) = of_nat (unat cc)" by (rule f64_of_u64_exact [OF cc])
  have c64: "val (f64_of_u64 cc) \<le> 2 ^ 64" "0 \<le> val (f64_of_u64 cc)" by (rule f64_of_u64_fin)+
  have sum: "0 \<le> val ?p + val (f64_of_u64 cc)" "val ?p + val (f64_of_u64 cc) \<le> 2 ^ 65"
    using p c64 by simp_all
  then have "fits_f64 (val ?p + val (f64_of_u64 cc))" by (intro fits_f64_nonneg [of _ 65]) simp_all
  note add = f64_add_fin [OF p(1) f64_of_u64_fin(1) this]
  then have w: "val (swc_weighted f pc cc) = round_rat (val ?p + of_nat (unat cc))"
    by (simp add: swc_weighted_def c)
  show "fin (swc_weighted f pc cc)" using add by (simp add: swc_weighted_def)
  have "representable (of_int (int (unat cc)))"
    using cc by (intro representable_int) (metis abs_of_nat of_nat_le_numeral_power_cancel_iff)
  then show "of_nat (unat cc) \<le> val (swc_weighted f pc cc)"
    using p(2) by (auto simp: w intro!: round_rat_ge)
  show "val (swc_weighted f pc cc) \<le> 2 ^ 65"
    using sum c representable_pow2 [of 65] by (auto simp: w intro!: round_rat_le)
  assume le: "unat pc + unat cc \<le> 2 ^ 53"
  then have "representable (of_int (int (unat pc + unat cc)))"
    by (intro representable_int) (metis abs_of_nat of_nat_le_numeral_power_cancel_iff)
  moreover have "val (f64_of_u64 pc) = of_nat (unat pc)"
    using le by (intro f64_of_u64_exact) simp
  ultimately show "val (swc_weighted f pc cc) \<le> of_nat (unat pc + unat cc)"
    using p(3) by (auto simp: w intro!: round_rat_le)
qed

section \<open>Behaviour within the configuration's range\<close>

definition swc_abs :: "swc_state codec \<Rightarrow> bytes option \<Rightarrow> (nat \<times> nat) option" where
  \<comment> \<open>the content of a key as window number and current count\<close>
  "swc_abs C raw =
     (case raw of None \<Rightarrow> None | Some b \<Rightarrow>
        map_option (\<lambda>st. (unat (swc_curr_window_id st), unat (swc_curr_count st))) (from_slice C b))"

definition swc_seen :: "swc_state codec \<Rightarrow> bytes option \<Rightarrow> u64 \<Rightarrow> u64 \<times> u64" where
  \<comment> \<open>the previous and current counts a request in window \<open>wid\<close> finds\<close>
  "swc_seen C raw wid =
     swc_counts (decode_or C \<lparr>swc_prev_count = 0, swc_curr_count = 0, swc_curr_window_id = wid\<rparr> raw) wid"

definition swc_good :: "sliding_counter \<Rightarrow> (nat \<times> nat) option \<Rightarrow> bool" where
  "swc_good L st \<longleftrightarrow> (\<forall>w n. st = Some (w, n) \<longrightarrow> n \<le> swc_max L)"

lemma swc_abs_to_vec:
  "codec_roundtrip C \<Longrightarrow> swc_abs C (Some (to_vec C st))
    = Some (unat (swc_curr_window_id st), unat (swc_curr_count st))"
  by (simp add: swc_abs_def codec_roundtrip_def)

lemma swc_window_word:
  assumes "clock_ok t"
  shows "unat (as_secs (nat t) div swc_window_secs L) = swc_window L t"
  using as_secs_secs [OF assms] by (simp add: unat_div_distrib)

lemma swc_seen_curr:
  assumes "unat wid = w" "in_order (swc_abs C raw) w"
  shows "unat (snd (swc_seen C raw wid)) = wcount (swc_abs C raw) w"
proof (cases "\<exists>b st. raw = Some b \<and> from_slice C b = Some st")
  case True
  then obtain b st where st: "raw = Some b" "from_slice C b = Some st" by blast
  then have le: "unat (swc_curr_window_id st) \<le> w"
    using assms(2) by (simp add: swc_abs_def in_order_def)
  have "saturating_sub wid (swc_curr_window_id st) = 0 \<longleftrightarrow> unat (swc_curr_window_id st) = w"
    using le assms(1) by (auto simp: word_unat_eq_iff)
  with st show ?thesis
    by (simp add: swc_seen_def swc_abs_def decode_or_def swc_counts_def wcount_def Let_def)
next
  case False
  then have "decode_or C d raw = d" and "swc_abs C raw = None" for d
    by (auto simp: decode_or_def swc_abs_def split: option.splits)
  then show ?thesis
    by (simp add: swc_seen_def swc_counts_def wcount_def Let_def)
qed

text \<open>What is allowed fits, and what fits under the unweighted counts is allowed.\<close>

definition swc_accepts :: "sliding_counter \<Rightarrow> f64 \<Rightarrow> u64 \<Rightarrow> u64 \<Rightarrow> u64 \<Rightarrow> bool" where
  "swc_accepts L f pc cc cost \<longleftrightarrow>
     f64_le (f64_add (swc_weighted f pc cc) (f64_of_u64 cost)) (f64_of_u64 (swc_max_requests L))"

lemma swc_sum_fin:
  assumes "fin f" "0 \<le> val f" "val f \<le> 1" "unat cc \<le> 2 ^ 53"
  shows "fin (f64_add (swc_weighted f pc cc) (f64_of_u64 cost))"
    and "val (f64_add (swc_weighted f pc cc) (f64_of_u64 cost))
      = round_rat (val (swc_weighted f pc cc) + val (f64_of_u64 cost))"
proof -
  note w = swc_weighted_bounds [OF assms, of pc]
  have "0 \<le> val (swc_weighted f pc cc)" using w(2) by (rule order_trans [OF of_nat_0_le_iff])
  with w(4) f64_of_u64_fin(3,4) [of cost]
  have "fits_f64 (val (swc_weighted f pc cc) + val (f64_of_u64 cost))"
    by (intro fits_f64_nonneg [of _ 66]) simp_all
  from f64_add_fin [OF w(1) f64_of_u64_fin(1) this]
  show "fin (f64_add (swc_weighted f pc cc) (f64_of_u64 cost))"
    "val (f64_add (swc_weighted f pc cc) (f64_of_u64 cost))
      = round_rat (val (swc_weighted f pc cc) + val (f64_of_u64 cost))" by simp_all
qed

lemma swc_accepts_sound:
  assumes "swc_wf L" "fin f" "0 \<le> val f" "val f \<le> 1" "unat cc \<le> swc_max L" "unat cost < 2 ^ 32"
    and "swc_accepts L f pc cc cost"
  shows "unat cc + unat cost \<le> swc_max L"
proof -
  have max: "swc_max L \<le> 2 ^ 52" using assms(1) by (simp add: swc_wf_def)
  then have small: "unat cc \<le> 2 ^ 53" "unat cost \<le> 2 ^ 53" "unat cc + unat cost \<le> 2 ^ 53"
    using assms(5,6) by simp_all
  note w = swc_weighted_bounds [OF assms(2-4) small(1), of pc]
  note sum = swc_sum_fin [OF assms(2-4) small(1), of pc cost]
  have exact: "val (f64_of_u64 cost) = of_nat (unat cost)"
    "val (f64_of_u64 (swc_max_requests L)) = of_nat (swc_max L)"
    using small max by (simp_all only: f64_of_u64_exact)
      (intro f64_of_u64_exact order_trans [OF max], simp)
  have "of_nat (unat cc + unat cost) \<le> round_rat (val (swc_weighted f pc cc) + val (f64_of_u64 cost))"
    using representable_nat [OF small(3)]
    by (rule round_rat_ge) (simp only: exact of_nat_add, rule add_right_mono, rule w(2))
  also have "\<dots> \<le> of_nat (swc_max L)"
    using assms(7) sum f64_of_u64_fin(1) [of "swc_max_requests L"]
    by (simp add: swc_accepts_def f64_le_fin exact del: of_nat_unat)
  finally show ?thesis by (simp only: of_nat_le_iff)
qed

lemma swc_accepts_complete:
  assumes "swc_wf L" "fin f" "0 \<le> val f" "val f \<le> 1"
    and "unat pc + unat cc + unat cost \<le> swc_max L"
  shows "swc_accepts L f pc cc cost"
proof -
  have max: "swc_max L \<le> 2 ^ 52" using assms(1) by (simp add: swc_wf_def)
  then have small: "unat cc \<le> 2 ^ 53" "unat cost \<le> 2 ^ 53" "unat pc + unat cc \<le> 2 ^ 53"
    "swc_max L \<le> 2 ^ 53" using assms(5) by simp_all
  note w = swc_weighted_bounds [OF assms(2-4) small(1), of pc]
  note sum = swc_sum_fin [OF assms(2-4) small(1), of pc cost]
  have exact: "val (f64_of_u64 cost) = of_nat (unat cost)"
    "val (f64_of_u64 (swc_max_requests L)) = of_nat (swc_max L)"
    using small by (simp_all only: f64_of_u64_exact)
  have "val (swc_weighted f pc cc) + of_nat (unat cost) \<le> of_nat (unat pc + unat cc) + of_nat (unat cost)"
    using w(3) [OF small(3)] by (rule add_right_mono)
  also have "\<dots> = of_nat (unat pc + unat cc + unat cost)" by (simp only: of_nat_add)
  also have "\<dots> \<le> of_nat (swc_max L)" using assms(5) by (simp only: of_nat_le_iff)
  finally have "round_rat (val (swc_weighted f pc cc) + val (f64_of_u64 cost)) \<le> of_nat (swc_max L)"
    unfolding exact by (intro round_rat_le representable_nat small(4))
  with sum f64_of_u64_fin(1) [of "swc_max_requests L"] show ?thesis
    by (simp add: swc_accepts_def f64_le_fin exact del: of_nat_unat)
qed

definition swc_result :: "sliding_counter \<Rightarrow> u64 \<Rightarrow> u64 \<Rightarrow> u64 \<Rightarrow> u64 \<Rightarrow> bool" where
  "swc_result L now pc cc cost =
     swc_accepts L (swc_fraction L (now mod swc_window_secs L)) pc cc cost"

lemma swc_seen_le:
  assumes "swc_good L (swc_abs C raw)"
  shows "unat (snd (swc_seen C raw wid)) \<le> swc_max L"
proof (cases "\<exists>b st. raw = Some b \<and> from_slice C b = Some st")
  case True
  with assms show ?thesis
    by (auto simp: swc_seen_def swc_counts_def swc_abs_def swc_good_def decode_or_def Let_def)
next
  case False
  then have "decode_or C d raw = d" for d
    by (auto simp: decode_or_def split: option.splits)
  then show ?thesis by (simp add: swc_seen_def swc_counts_def Let_def)
qed

lemma swc_fraction_mod:
  assumes "swc_wf L"
  shows "fin (swc_fraction L (now mod swc_window_secs L))"
    and "0 \<le> val (swc_fraction L (now mod swc_window_secs L))"
    and "val (swc_fraction L (now mod swc_window_secs L)) \<le> 1"
proof -
  have "0 < unat (swc_window_secs L)" using assms by (simp add: swc_wf_def)
  moreover have "unat (now mod swc_window_secs L) \<le> unat (swc_window_secs L)"
    using calculation by (simp add: unat_mod_distrib order_less_imp_le)
  ultimately show "fin (swc_fraction L (now mod swc_window_secs L))"
    "0 \<le> val (swc_fraction L (now mod swc_window_secs L))"
    "val (swc_fraction L (now mod swc_window_secs L)) \<le> 1"
    by (rule swc_fraction_bounds)+
qed

lemma swc_plan_value:
  fixes cost :: u32
  assumes wf: "swc_wf L" and ok: "clock_ok t" and good: "swc_good L (swc_abs C raw)"
    and seen: "swc_seen C raw (as_secs (nat t) div swc_window_secs L) = (pc, cc)"
  defines "allowed \<equiv> swc_result L (as_secs (nat t)) pc cc (u32_as_u64 cost)"
    and "elapsed \<equiv> swc_fraction L (as_secs (nat t) mod swc_window_secs L)"
  shows "\<exists>rsn. planned (swc_plan oc C L cost) t raw =
    Inr (to_vec C \<lparr>swc_prev_count = pc, swc_curr_count = (if allowed then cc + u32_as_u64 cost else cc),
           swc_curr_window_id = as_secs (nat t) div swc_window_secs L\<rparr>,
      \<lparr>d_allowed = allowed, d_limit = int (swc_max L),
       d_remaining = (if allowed then swc_remaining L (swc_weighted elapsed pc cc) (u32_as_u64 cost) else 0),
       d_retry_after_ms = (if allowed then 0 else f64_as_i64 (f64_mul (f64_mul (f64_sub (Num 1) elapsed)
         (f64_of_u64 (swc_window_secs L))) (Num 1000))), d_reason = rsn\<rparr>)"
    and "allowed \<Longrightarrow> unat cc + unat cost \<le> swc_max L"
proof -
  let ?now = "as_secs (nat t)"
  let ?wid = "?now div swc_window_secs L" and ?f = "swc_fraction L (?now mod swc_window_secs L)"
  let ?c = "u32_as_u64 cost"
  note f = swc_fraction_mod [OF wf, of ?now]
  have cc: "unat cc \<le> swc_max L" using swc_seen_le [OF good] seen by (metis snd_conv)
  have max: "swc_max L \<le> 2 ^ 52" using wf by (simp add: swc_wf_def)
  have cost: "unat ?c < 2 ^ 32" using unsigned_less [of cost] by simp
  have nz: "swc_window_secs L \<noteq> 0" using wf by (auto simp: swc_wf_def)
  have "unat cc + unat ?c < 2 ^ 64" using cc max cost by simp
  then have add: "u64_add oc cc ?c = Inr (cc + ?c)" by (rule u64_add_exact)
  have limit: "u64_as_i64 (swc_max_requests L) = int (swc_max L)"
    using max by (intro u64_as_i64_small) simp
  show "allowed \<Longrightarrow> unat cc + unat cost \<le> swc_max L"
    using swc_accepts_sound [OF wf f cc cost] by (simp add: allowed_def swc_result_def)
  have st: "swc_counts (decode_or C \<lparr>swc_prev_count = 0, swc_curr_count = 0, swc_curr_window_id = ?wid\<rparr> raw)
      ?wid = (pc, cc)"
    using seen by (simp add: swc_seen_def)
  show "\<exists>rsn. planned (swc_plan oc C L cost) t raw =
    Inr (to_vec C \<lparr>swc_prev_count = pc, swc_curr_count = (if allowed then cc + u32_as_u64 cost else cc),
           swc_curr_window_id = as_secs (nat t) div swc_window_secs L\<rparr>,
      \<lparr>d_allowed = allowed, d_limit = int (swc_max L),
       d_remaining = (if allowed then swc_remaining L (swc_weighted elapsed pc cc) (u32_as_u64 cost) else 0),
       d_retry_after_ms = (if allowed then 0 else f64_as_i64 (f64_mul (f64_mul (f64_sub (Num 1) elapsed)
         (f64_of_u64 (swc_window_secs L))) (Num 1000))), d_reason = rsn\<rparr>)"
    using clock_ok_nonneg [OF ok] nz st add limit
    by (cases allowed)
      (simp_all add: planned_def swc_plan_def swc_now_secs_def u64_div_def u64_rem_def Let_def
        swc_decide_def allowed_def elapsed_def swc_result_def swc_accepts_def)
qed

lemma swc_plan_eval:
  fixes cost :: u32
  assumes wf: "swc_wf L" and ok: "clock_ok t" and good: "swc_good L (swc_abs C raw)"
    and seen: "swc_seen C raw (as_secs (nat t) div swc_window_secs L) = (pc, cc)"
  defines "allowed \<equiv> swc_result L (as_secs (nat t)) pc cc (u32_as_u64 cost)"
  shows "\<exists>retry remaining rsn. planned (swc_plan oc C L cost) t raw =
    Inr (to_vec C \<lparr>swc_prev_count = pc, swc_curr_count = (if allowed then cc + u32_as_u64 cost else cc),
           swc_curr_window_id = as_secs (nat t) div swc_window_secs L\<rparr>,
      \<lparr>d_allowed = allowed, d_limit = int (swc_max L), d_remaining = remaining,
       d_retry_after_ms = retry, d_reason = rsn\<rparr>) \<and>
    (allowed \<longrightarrow> retry = 0 \<and> unat cc + unat cost \<le> swc_max L) \<and> (\<not> allowed \<longrightarrow> remaining = 0)"
  using swc_plan_value(1) [OF wf ok good seen, where oc = oc and cost = cost, folded allowed_def]
    swc_plan_value(2) [OF wf ok good seen, where cost = cost, folded allowed_def]
  by (cases allowed) (simp_all, blast+)

lemma swc_refines:
  assumes wf: "swc_wf L" and rt: "codec_roundtrip C" and ok: "clock_ok t"
    and good: "swc_good L (swc_abs C raw)" and order: "in_order (swc_abs C raw) (swc_window L t)"
    and run: "planned (swc_plan oc C L cost) t raw = Inr (b, d)"
  shows "swc_abs C (Some b) = wstep (swc_abs C raw) (swc_window L t, unat cost, d_allowed d)"
    and "d_allowed d \<Longrightarrow> wcount (swc_abs C raw) (swc_window L t) + unat cost \<le> swc_max L"
    and "swc_good L (swc_abs C (Some b))"
proof -
  obtain pc cc where seen: "swc_seen C raw (as_secs (nat t) div swc_window_secs L) = (pc, cc)"
    by fastforce
  have cc: "unat cc = wcount (swc_abs C raw) (swc_window L t)"
    using swc_seen_curr [OF swc_window_word [OF ok] order] seen by simp
  have le: "unat cc \<le> swc_max L" using swc_seen_le [OF good] seen by (metis snd_conv)
  have max: "swc_max L \<le> 2 ^ 52" using wf by (simp add: swc_wf_def)
  have cost: "unat (u32_as_u64 cost) < 2 ^ 32" using unsigned_less [of cost] by simp
  have "unat cc + unat (u32_as_u64 cost) < 2 ^ 64" using le max cost by simp
  then have sum: "unat (cc + u32_as_u64 cost) = unat cc + unat cost"
    by (simp add: unat_u64_add)
  note eval = swc_plan_eval [OF wf ok good seen, where cost = cost and oc = oc]
  from eval run show abs: "swc_abs C (Some b) = wstep (swc_abs C raw) (swc_window L t, unat cost, d_allowed d)"
    using rt swc_window_word [OF ok]
    by (auto simp: swc_abs_to_vec wstep_def cc [symmetric] sum split: if_splits)
  from eval run show fits: "d_allowed d \<Longrightarrow> wcount (swc_abs C raw) (swc_window L t) + unat cost \<le> swc_max L"
    by (auto simp: cc [symmetric])
  show "swc_good L (swc_abs C (Some b))"
    using fits le by (auto simp: abs swc_good_def wstep_def cc)
qed

interpretation swc: window_counter "\<lambda>(oc, C, L). swc_plan oc C L"
  "\<lambda>(oc, C, L). swc_wf L \<and> codec_roundtrip C" "\<lambda>(oc, C, L). swc_abs C"
  "\<lambda>(oc, C, L). swc_window L" "\<lambda>(oc, C, L). swc_max L" "\<lambda>(oc, C, L) raw. swc_good L (swc_abs C raw)"
proof (unfold_locales, goal_cases)
  case (1 cfg)
  then show ?case by (auto simp: swc_good_def swc_abs_def)
next
  case (2 cfg raw t cost b d)
  obtain oc C L where cfg: "cfg = (oc, C, L)" by (cases cfg)
  with 2 have "swc_wf L" "codec_roundtrip C" "clock_ok t" "swc_good L (swc_abs C raw)"
    "in_order (swc_abs C raw) (swc_window L t)" "planned (swc_plan oc C L cost) t raw = Inr (b, d)"
    by simp_all
  note step = swc_refines [OF this]
  then show ?case by (auto simp: cfg)
qed

section \<open>A window of one second\<close>

text \<open>
  The clock is read in whole seconds, so with \<open>window_secs = 1\<close> (the default of the
  configuration) no part of a window has ever gone by and the previous count weighs fully.
\<close>

lemma swc_fraction_unit: "swc_window_secs L = 1 \<Longrightarrow> swc_fraction L (now mod swc_window_secs L) = Num 0"
  by (simp add: swc_fraction_def f64_eval)

lemma swc_weighted_full:
  assumes "unat pc + unat cc \<le> 2 ^ 53"
  shows "val (swc_weighted (Num 0) pc cc) = of_nat (unat pc + unat cc)" "fin (swc_weighted (Num 0) pc cc)"
proof -
  have sub: "f64_sub (Num 1) (Num 0) = Num 1" by (simp add: f64_eval)
  have pc: "val (f64_of_u64 pc) = of_nat (unat pc)" and cc: "val (f64_of_u64 cc) = of_nat (unat cc)"
    using assms by (simp_all only: f64_of_u64_exact)
  have "fits_f64 (val (f64_of_u64 pc) * val (Num 1))"
    using f64_of_u64_fin(3,4) [of pc] by (intro fits_f64_nonneg [of _ 64]) simp_all
  note mul = f64_mul_fin [OF f64_of_u64_fin(1) fin_simps(4) this]
  have p: "val (f64_mul (f64_of_u64 pc) (Num 1)) = of_nat (unat pc)"
    unfolding mul(2) pc val_simps mult_1_right
    by (rule round_rat_representable, rule representable_nat) (use assms in simp)
  have "fits_f64 (val (f64_mul (f64_of_u64 pc) (Num 1)) + val (f64_of_u64 cc))"
    unfolding p pc [symmetric] using f64_of_u64_fin(3,4) [of pc] f64_of_u64_fin(3,4) [of cc]
    by (intro fits_f64_nonneg [of _ 65]) simp_all
  note add = f64_add_fin [OF mul(1) f64_of_u64_fin(1) this]
  show "fin (swc_weighted (Num 0) pc cc)" by (simp add: swc_weighted_def sub add)
  have "val (swc_weighted (Num 0) pc cc) = round_rat (of_nat (unat pc) + of_nat (unat cc))"
    by (simp only: swc_weighted_def sub add(2) p cc)
  also have "\<dots> = of_nat (unat pc + unat cc)"
    unfolding of_nat_add [symmetric] by (rule round_rat_representable, rule representable_nat, rule assms)
  finally show "val (swc_weighted (Num 0) pc cc) = of_nat (unat pc + unat cc)" .
qed

lemma swc_accepts_full:
  assumes wf: "swc_wf L" and "unat pc \<le> swc_max L" "unat cc \<le> swc_max L" "unat cost < 2 ^ 32"
  shows "swc_accepts L (Num 0) pc cc cost \<longleftrightarrow> unat pc + unat cc + unat cost \<le> swc_max L"
proof
  assume "unat pc + unat cc + unat cost \<le> swc_max L"
  then show "swc_accepts L (Num 0) pc cc cost"
    by (intro swc_accepts_complete [OF wf]) simp_all
next
  assume acc: "swc_accepts L (Num 0) pc cc cost"
  have max: "swc_max L \<le> 2 ^ 52" using wf by (simp add: swc_wf_def)
  then have small: "unat pc + unat cc \<le> 2 ^ 53" "unat cc \<le> 2 ^ 53" "unat cost \<le> 2 ^ 53"
    "swc_max L \<le> 2 ^ 53" "swc_max L + 1 \<le> 2 ^ 53" using assms by simp_all
  note w = swc_weighted_full [OF small(1)]
  note sum = swc_sum_fin [where f = "Num 0" and cc = cc and pc = pc and cost = cost, OF _ _ _ small(2)]
  have exact: "val (f64_of_u64 cost) = of_nat (unat cost)"
    "val (f64_of_u64 (swc_max_requests L)) = of_nat (swc_max L)"
    using small by (simp_all only: f64_of_u64_exact)
  show "unat pc + unat cc + unat cost \<le> swc_max L"
  proof (rule ccontr)
    assume "\<not> unat pc + unat cc + unat cost \<le> swc_max L"
    then have "swc_max L + 1 \<le> unat pc + unat cc + unat cost" by simp
    then have "(of_nat (swc_max L + 1) :: rat) \<le> of_nat (unat pc + unat cc) + of_nat (unat cost)"
      unfolding of_nat_add [symmetric] by (simp only: of_nat_le_iff)
    then have "of_nat (swc_max L + 1) \<le> round_rat (of_nat (unat pc + unat cc) + of_nat (unat cost))"
      by (intro round_rat_ge representable_nat small(5))
    also have "\<dots> = val (f64_add (swc_weighted (Num 0) pc cc) (f64_of_u64 cost))"
      using sum(2) by (simp add: w exact del: of_nat_unat)
    also have "\<dots> \<le> of_nat (swc_max L)"
      using acc sum(1) f64_of_u64_fin(1) [of "swc_max_requests L"]
      by (simp add: swc_accepts_def f64_le_fin exact del: of_nat_unat)
    finally show False by (simp only: of_nat_le_iff)
  qed
qed

section \<open>Runs used as examples\<close>

definition swc_sample :: "swc_state codec" where
  "swc_sample = sample_codec
     (\<lambda>s. [unat (swc_prev_count s), unat (swc_curr_count s), unat (swc_curr_window_id s)])
     (\<lambda>ns. \<lparr>swc_prev_count = of_nat (ns ! 0), swc_curr_count = of_nat (ns ! 1),
            swc_curr_window_id = of_nat (ns ! 2)\<rparr>)"

lemma swc_sample_roundtrip [simp]: "codec_roundtrip swc_sample"
  unfolding swc_sample_def by (rule sample_codec_roundtrip) simp

definition swc_task :: "swc_state codec \<Rightarrow> sliding_counter \<Rightarrow> nat \<Rightarrow> task" where
  "swc_task C L i = \<lparr>t_key = swc_key ''a'' ''r'', t_plan = swc_plan False C L 1,
     t_fail = conflict_decision (u64_as_i64 (swc_max_requests L))\<rparr>"

definition swc_schedule :: "(nat \<times> sys_time) list" where
  \<comment> \<open>two overlapping calls in one window\<close>
  "swc_schedule = [(0, 5), (1, 5), (0, 5), (0, 6), (1, 6), (1, 7)]"

lemmas swc_eval = swc_plan_def swc_new_def swc_now_secs_def as_secs_def u64_div_def u64_rem_def
  swc_fraction_def swc_counts_def swc_weighted_def swc_decide_def saturating_sub_def
  u64_add_def u32_as_u64_def swc_task_def

lemma swc_first:
  assumes "codec_roundtrip C"
  obtains d where "planned (swc_plan False C (swc_new 1 4) 1) 5 None
    = Inr (to_vec C \<lparr>swc_prev_count = 0, swc_curr_count = 1, swc_curr_window_id = 0\<rparr>, d)" "d_allowed d"
proof -
  let ?L = "swc_new 1 4"
  have wf: "swc_wf ?L" by (simp add: swc_wf_def swc_new_def)
  have seen: "swc_seen C None (as_secs (nat 5) div swc_window_secs ?L) = (0, 0)"
    by (simp add: swc_seen_def swc_counts_def Let_def)
  have "swc_result ?L (as_secs (nat 5)) 0 0 (u32_as_u64 1)"
    unfolding swc_result_def by (rule swc_accepts_complete [OF wf swc_fraction_mod [OF wf]])
      (simp add: swc_new_def)
  with swc_plan_eval [OF wf _ _ seen, where cost = 1 and oc = False] that show ?thesis
    by (auto simp: clock_ok_def swc_good_def swc_abs_def as_secs_def swc_new_def u32_as_u64_def)
qed

lemma swc_second:
  assumes "codec_roundtrip C"
  obtains d where "planned (swc_plan False C (swc_new 1 4) 1) 5
      (Some (to_vec C \<lparr>swc_prev_count = 0, swc_curr_count = 1, swc_curr_window_id = 0\<rparr>))
    = Inr (to_vec C \<lparr>swc_prev_count = 0, swc_curr_count = 1, swc_curr_window_id = 0\<rparr>, d)" "\<not> d_allowed d"
proof -
  let ?L = "swc_new 1 4" and ?b = "to_vec C \<lparr>swc_prev_count = 0, swc_curr_count = 1, swc_curr_window_id = 0\<rparr>"
  have wf: "swc_wf ?L" by (simp add: swc_wf_def swc_new_def)
  have seen: "swc_seen C (Some ?b) (as_secs (nat 5) div swc_window_secs ?L) = (0, 1)"
    using assms by (simp add: swc_seen_def swc_counts_def Let_def as_secs_def swc_new_def saturating_sub_def)
  have "\<not> swc_result ?L (as_secs (nat 5)) 0 1 (u32_as_u64 1)"
    using swc_accepts_sound [OF wf swc_fraction_mod [OF wf], of 1 "u32_as_u64 1" _ 0]
    by (auto simp: swc_result_def swc_new_def)
  with swc_plan_eval [OF wf _ _ seen, where cost = 1 and oc = False] that assms show ?thesis
    by (auto simp: clock_ok_def swc_good_def swc_abs_to_vec as_secs_def swc_new_def)
qed

lemma swc_run:
  assumes "codec_roundtrip C"
  shows "map (\<lambda>c. (c_task c, c_now c, d_allowed (c_decision c)))
    (sys_log (local_run (swc_task C (swc_new 1 4)) swc_schedule)) = [(0, 5, True), (1, 5, False)]"
proof -
  obtain d1 where one: "planned (swc_plan False C (swc_new 1 4) 1) 5 None
      = Inr (to_vec C \<lparr>swc_prev_count = 0, swc_curr_count = 1, swc_curr_window_id = 0\<rparr>, d1)" "d_allowed d1"
    using swc_first [OF assms] .
  obtain d2 where two: "planned (swc_plan False C (swc_new 1 4) 1) 5
      (Some (to_vec C \<lparr>swc_prev_count = 0, swc_curr_count = 1, swc_curr_window_id = 0\<rparr>))
    = Inr (to_vec C \<lparr>swc_prev_count = 0, swc_curr_count = 1, swc_curr_window_id = 0\<rparr>, d2)" "\<not> d_allowed d2"
    using swc_second [OF assms] .
  obtain body where "swc_plan False C (swc_new 1 4) 1 5 = Inr body"
    using one(1) by (rule planned_InrE)
  then show ?thesis
    using one two planned_def
    by (simp add: swc_schedule_def run_steps swc_task_def del: planned_Inr cong: if_cong)
qed

section \<open>Properties\<close>

text \<open>C7. Under any interleaving of any number of calls on a \<open>LocalStore\<close>, if the commits of a
  key come in the order of their windows, no single window admits more than
  \<open>max_requests\<close>: the floating-point blend never lets the count of a window past the quota.\<close>

theorem swc_concurrent_budget:
  assumes "swc_wf L" "codec_roundtrip C" "length evs < 2 ^ 62"
    and "\<And>i t. (i, t) \<in> set evs \<Longrightarrow> clock_ok t"
    and "\<And>i. t_key (tk i) = k \<Longrightarrow> t_plan (tk i) = swc_plan oc C L (cost i)"
    and "commits_in_order tk (swc_window L) k (sys_log (local_run tk evs))"
  shows "admitted w (window_events tk cost (swc_window L) k (sys_log (local_run tk evs))) \<le> swc_max L"
  using swc.admitted_quota [of "(oc, C, L)" tk k cost "sys_log (local_run tk evs)" w]
    local_run_replay(1) [OF assms(3), of tk k] local_run_clocks [of evs clock_ok _ tk] assms
  by simp

theorem swc_concurrent_budget_witness:
  "admitted 0 (window_events (swc_task swc_sample (swc_new 1 4)) (\<lambda>_. 1) (swc_window (swc_new 1 4))
     (swc_key ''a'' ''r'') (sys_log (local_run (swc_task swc_sample (swc_new 1 4)) swc_schedule))) \<le> 1"
proof -
  let ?L = "swc_new 1 4" and ?tk = "swc_task swc_sample (swc_new 1 4)"
  let ?log = "sys_log (local_run ?tk swc_schedule)"
  have "\<exists>c0 c1. ?log = [c0, c1] \<and> c_now c0 = 5 \<and> c_now c1 = 5"
    using swc_run [OF swc_sample_roundtrip] by (auto simp: map_eq_Cons_conv)
  then have "commits_in_order ?tk (swc_window ?L) (swc_key ''a'' ''r'') ?log"
    by (auto simp: commits_in_order_def on_key_def swc_task_def)
  then have "admitted 0 (window_events ?tk (\<lambda>_. 1) (swc_window ?L) (swc_key ''a'' ''r'') ?log) \<le> swc_max ?L"
    by (intro swc_concurrent_budget [where oc = False and C = swc_sample])
      (auto simp: swc_wf_def swc_new_def swc_task_def swc_schedule_def clock_ok_def)
  then show ?thesis by (simp add: swc_new_def)
qed



text \<open>C20. With \<open>window_secs = 1\<close>, the configuration's default, the blend is the plain sum of two
  windows: a request is allowed exactly when it fits on top of the previous and the current
  second together, so the quota of one second is spread over two.\<close>

theorem swc_one_second_window:
  assumes wf: "swc_wf L" "swc_window_secs L = 1" and t: "clock_ok t" and good: "swc_good L (swc_abs C raw)"
    and seen: "swc_seen C raw (as_secs (nat t)) = (p, c)" "unat p \<le> swc_max L"
    and run: "planned (swc_plan oc C L cost) t raw = Inr (b, d)"
  shows "d_allowed d \<longleftrightarrow> unat p + unat c + unat cost \<le> swc_max L"
proof -
  have word: "as_secs (nat t) div swc_window_secs L = as_secs (nat t)" by (simp add: wf(2))
  have cost: "unat (u32_as_u64 cost) < 2 ^ 32" using unsigned_less [of cost] by simp
  have "unat c \<le> swc_max L" using swc_seen_le [OF good, of "as_secs (nat t)"] seen by simp
  from swc_accepts_full [OF wf(1) seen(2) this cost]
  have "swc_result L (as_secs (nat t)) p c (u32_as_u64 cost) \<longleftrightarrow> unat p + unat c + unat cost \<le> swc_max L"
    unfolding swc_result_def swc_fraction_unit [OF wf(2)] by simp
  with swc_plan_eval [OF wf(1) t good, where pc = p and cc = c and cost = cost and oc = oc] seen(1) run show ?thesis
    unfolding word by auto
qed

theorem swc_one_second_window_witness:
  "\<exists>b d. planned (swc_plan False swc_sample (swc_new 1 1) 1) (2 * 10 ^ 9)
      (Some (to_vec swc_sample \<lparr>swc_prev_count = 0, swc_curr_count = 1, swc_curr_window_id = 1\<rparr>)) = Inr (b, d) \<and>
    \<not> d_allowed d"
proof -
  let ?L = "swc_new 1 1"
  let ?raw = "Some (to_vec swc_sample \<lparr>swc_prev_count = 0, swc_curr_count = 1, swc_curr_window_id = 1\<rparr>)"
  have wf: "swc_wf ?L" "swc_window_secs ?L = 1" by (simp_all add: swc_wf_def swc_new_def)
  have good: "swc_good ?L (swc_abs swc_sample ?raw)" by (simp add: swc_abs_to_vec swc_good_def swc_new_def)
  have t: "clock_ok (2 * 10 ^ 9)" by (simp add: clock_ok_def)
  have seen: "swc_seen swc_sample ?raw (as_secs (nat (2 * 10 ^ 9))) = (1, 0)"
    by (simp add: swc_seen_def swc_counts_def Let_def as_secs_def saturating_sub_def)
  obtain b d where run: "planned (swc_plan False swc_sample ?L 1) (2 * 10 ^ 9) ?raw = Inr (b, d)"
    using swc_plan_eval [OF wf(1) t good, where pc = 1 and cc = 0 and cost = 1 and oc = False] seen wf(2) by auto
  from swc_one_second_window [OF wf t good seen _ run] show ?thesis
    using run by (auto simp: swc_new_def)
qed

end
