(* ===== verification/Bucket_Budget.thy ===== *)
theory Bucket_Budget
  imports Refined_Plan
begin

text \<open>
  The abstract promise of the two bucket algorithms. A level starts at the capacity, rises
  with the clock at a fixed rate, never past the capacity, and drops by the cost of every
  allowed request; \<open>\<epsilon>\<close> is what one request may gain by rounding. The cost admitted over any
  stretch of requests is then at most the capacity plus what flowed in meanwhile. The clock
  may go back: what counts is how far it went forward in all.
\<close>

type_synonym bevent = "int \<times> nat \<times> bool"
type_synonym bstate = "(rat \<times> int) option"

definition bfill :: "rat \<Rightarrow> rat \<Rightarrow> bstate \<Rightarrow> int \<Rightarrow> rat" where
  \<comment> \<open>the level as a request at time \<open>t\<close> (in milliseconds) finds it; \<open>r\<close> is per second\<close>
  "bfill r cap st t = (case st of None \<Rightarrow> cap
     | Some (x, l) \<Rightarrow> min (x + r * of_int (max 0 (t - l)) / 1000) cap)"

definition bcost :: "bevent \<Rightarrow> nat" where
  "bcost e = (case e of (t, c, ok) \<Rightarrow> if ok then c else 0)"

definition bstep_ok :: "rat \<Rightarrow> rat \<Rightarrow> rat \<Rightarrow> bstate \<Rightarrow> bevent \<Rightarrow> bstate \<Rightarrow> bool" where
  "bstep_ok r cap \<epsilon> st e st' \<longleftrightarrow> (case st' of None \<Rightarrow> False
     | Some (x', l') \<Rightarrow> l' = fst e \<and> 0 \<le> x' \<and> x' \<le> bfill r cap st (fst e) - of_nat (bcost e) + \<epsilon>)"

fun forward :: "int list \<Rightarrow> int" where
  \<comment> \<open>how far the clock has gone forward in all\<close>
  "forward (t # u # ts) = max 0 (u - t) + forward (u # ts)"
| "forward _ = 0"

definition total_cost :: "bevent list \<Rightarrow> nat" where
  "total_cost es = sum_list (map bcost es)"

lemma forward_snoc: "ts \<noteq> [] \<Longrightarrow> forward (ts @ [u]) = forward ts + max 0 (u - last ts)"
  by (induction ts rule: forward.induct) auto

lemma forward_sorted: "sorted ts \<Longrightarrow> ts \<noteq> [] \<Longrightarrow> forward ts = last ts - hd ts"
  by (induction ts rule: forward.induct) auto

lemma bfill_le_cap: "bfill r cap st t \<le> cap"
  by (simp add: bfill_def split: option.splits)

lemma bucket_level:
  assumes "es \<noteq> []" "along (\<lambda>a e. bstep_ok r cap \<epsilon> (v a) e (v (f a e))) f a es"
  shows "\<exists>x. v (foldl f a es) = Some (x, fst (last es)) \<and> 0 \<le> x \<and>
    of_nat (total_cost es) + x \<le> cap + r * of_int (forward (map fst es)) / 1000 + of_nat (length es) * \<epsilon>"
  using assms
proof (induction es rule: rev_induct)
  case (snoc e es)
  let ?a = "foldl f a es"
  from snoc.prems(2) obtain x' where x': "v (f ?a e) = Some (x', fst e)" "0 \<le> x'"
    "x' \<le> bfill r cap (v ?a) (fst e) - of_nat (bcost e) + \<epsilon>"
    by (auto simp: bstep_ok_def split: option.splits)
  show ?case
  proof (cases "es = []")
    case True
    with x' bfill_le_cap [of r cap "v a" "fst e"] show ?thesis
      by (simp add: total_cost_def)
  next
    case False
    with snoc obtain x where x: "v ?a = Some (x, fst (last es))"
      "of_nat (total_cost es) + x \<le> cap + r * of_int (forward (map fst es)) / 1000 + of_nat (length es) * \<epsilon>"
      by auto
    have "bfill r cap (v ?a) (fst e) \<le> x + r * of_int (max 0 (fst e - fst (last es))) / 1000"
      by (simp add: bfill_def x(1))
    moreover have "r * of_int (forward (map fst (es @ [e]))) / 1000
        = r * of_int (forward (map fst es)) / 1000 + r * of_int (max 0 (fst e - fst (last es))) / 1000"
      using False by (simp only: map_append list.map forward_snoc map_is_Nil_conv last_map of_int_add
          distrib_left add_divide_distrib not_False_eq_True)
    moreover have "of_nat (length (es @ [e])) * \<epsilon> = of_nat (length es) * \<epsilon> + \<epsilon>"
      by (simp add: algebra_simps)
    moreover have "(of_nat (total_cost (es @ [e])) :: rat) = of_nat (total_cost es) + of_nat (bcost e)"
      by (simp add: total_cost_def)
    ultimately have "of_nat (total_cost (es @ [e])) + x' \<le> cap
        + r * of_int (forward (map fst (es @ [e]))) / 1000 + of_nat (length (es @ [e])) * \<epsilon>"
      using x'(3) x(2) by linarith
    with x' show ?thesis by simp
  qed
qed simp

theorem bucket_budget:
  assumes "along (\<lambda>a e. bstep_ok r cap \<epsilon> (v a) e (v (f a e))) f a (pre @ es)" "es \<noteq> []"
  shows "of_nat (total_cost es) \<le> cap + r * of_int (forward (map fst es)) / 1000 + of_nat (length es) * \<epsilon>"
proof -
  from assms have "along (\<lambda>a e. bstep_ok r cap \<epsilon> (v a) e (v (f a e))) f (foldl f a pre) es" by simp
  from bucket_level [OF assms(2) this] show ?thesis by auto
qed

end
