(* ===== verification/Bucket_Float.thy ===== *)
theory Bucket_Float
  imports F64 Bucket_Budget
begin

text \<open>
  What the token bucket and the leaky bucket compute alike in \<open>f64\<close>: the seconds since the
  stored time and what has flowed meanwhile, with a bound on the rounding of the whole chain.
\<close>

definition elapsed_secs :: "i64 \<Rightarrow> f64" where
  "elapsed_secs diff = f64_div (f64_of_int (max diff 0)) (Num 1000)"

definition bucket_gain :: "i64 \<Rightarrow> f64 \<Rightarrow> f64" where
  "bucket_gain diff rate = f64_mul (elapsed_secs diff) rate"

definition rate_ok :: "f64 \<Rightarrow> bool" where
  "rate_ok rate \<longleftrightarrow> proper rate \<and> 0 \<le> val rate \<and> val rate \<le> 2 ^ 53"

definition bucket_eps :: "rat \<Rightarrow> rat \<Rightarrow> rat \<Rightarrow> rat" where
  \<comment> \<open>what one request can gain by rounding; \<open>\<eta>\<close> is the relative error of the codec\<close>
  "bucket_eps r cap \<eta> = (6 * rel_err + \<eta>) * cap + abs_err * (2 * r + 4)"

lemma three_errors:
  fixes g p q G \<rho> \<alpha> R :: rat
  assumes "0 < \<rho>" "\<rho> \<le> 1 / 4" "0 < \<alpha>" "0 \<le> R" "0 \<le> g"
    and h1: "g \<le> p + \<rho> * g + \<alpha>" and h2: "p \<le> q + \<rho> * p + \<alpha> * R" and h3: "q \<le> G + \<rho> * q + \<alpha> * R"
  shows "g \<le> G + 3 * \<rho> * g + \<alpha> * (2 * R + 1)"
proof -
  let ?s = "1 - \<rho>"
  have s: "0 \<le> ?s" "?s \<le> 1" using assms by simp_all
  have \<alpha>: "?s * \<alpha> \<le> \<alpha>" "?s * (\<alpha> * (R + 1)) \<le> \<alpha> * (R + 1)"
    using s assms(3,4) by (simp_all add: mult_left_le_one_le)
  have "?s * g \<le> p + \<alpha>" using h1 by (simp add: algebra_simps)
  then have "?s * (?s * g) \<le> ?s * (p + \<alpha>)" using s(1) by (rule mult_left_mono)
  also have "\<dots> \<le> q + \<alpha> * (R + 1)" using h2 \<alpha>(1) by (simp add: algebra_simps)
  finally have "?s * (?s * (?s * g)) \<le> ?s * (q + \<alpha> * (R + 1))" using s(1) by (rule mult_left_mono)
  also have "\<dots> \<le> G + \<alpha> * (2 * R + 1)" using h3 \<alpha>(2) by (simp add: algebra_simps)
  finally have cube: "?s * (?s * (?s * g)) \<le> G + \<alpha> * (2 * R + 1)" .
  have "0 \<le> \<rho> * \<rho> * (3 - \<rho>)" using assms(1,2) by simp
  then have "0 \<le> \<rho> * \<rho> * (3 - \<rho>) * g" using assms(5) by simp
  then have "(1 - 3 * \<rho>) * g \<le> ?s * (?s * (?s * g))" by (simp add: algebra_simps)
  with cube show ?thesis by (simp add: algebra_simps)
qed

lemma round_small: "0 \<le> x \<Longrightarrow> x \<le> 2 ^ n \<Longrightarrow> n \<le> 1023 \<Longrightarrow> 0 \<le> round_rat x \<and> round_rat x \<le> 2 ^ n"
  using representable_pow2 [of "int n"] by (auto simp: pow2_nat intro: round_rat_nonneg round_rat_le)

lemma elapsed_secs_val:
  assumes "diff < 2 ^ 62"
  shows "fin (elapsed_secs diff)" and "val (elapsed_secs diff) = round_rat (round_rat (of_int (max diff 0)) / 1000)"
    and "0 \<le> round_rat (round_rat (of_int (max diff 0)) / 1000)"
    and "round_rat (round_rat (of_int (max diff 0)) / 1000) \<le> 2 ^ 62"
proof -
  let ?ms = "of_int (max diff 0) :: rat"
  let ?A = "round_rat ?ms"
  have "max diff 0 \<le> 2 ^ 62" using assms by simp
  then have "?ms \<le> of_int (2 ^ 62)" by (simp only: of_int_le_iff)
  then have ms: "0 \<le> ?ms" "?ms \<le> 2 ^ 62" by simp_all
  have A: "0 \<le> ?A" "?A \<le> 2 ^ 62" using round_small [OF ms] by simp_all
  have conv: "fin (f64_of_int (max diff 0))" "val (f64_of_int (max diff 0)) = ?A"
    using fits_f64_nonneg [OF ms] by (simp_all add: f64_of_int_def)
  have q: "0 \<le> ?A / 1000" "?A / 1000 \<le> 2 ^ 62" using A by simp_all
  have "fits_f64 (val (f64_of_int (max diff 0)) / val (Num 1000))"
    unfolding conv(2) val_simps using q by (intro fits_f64_nonneg [of _ 62]) simp_all
  note div = f64_div_fin [OF conv(1) fin_simps(4) _ this]
  show "fin (elapsed_secs diff)" "val (elapsed_secs diff) = round_rat (?A / 1000)"
    using div by (simp_all add: elapsed_secs_def conv(2))
  show "0 \<le> round_rat (?A / 1000)" "round_rat (?A / 1000) \<le> 2 ^ 62" using round_small [OF q] by simp_all
qed

lemma bucket_gain_val:
  assumes "rate_ok rate" "diff < 2 ^ 62"
  shows "proper (bucket_gain diff rate)"
    and "val (bucket_gain diff rate) = round_rat (val (elapsed_secs diff) * val rate)"
    and "0 \<le> val (elapsed_secs diff) * val rate" and "val (elapsed_secs diff) * val rate \<le> 2 ^ 115"
proof -
  let ?e = "val (elapsed_secs diff)"
  note e = elapsed_secs_val [OF assms(2)]
  have e_range: "0 \<le> ?e" "?e \<le> 2 ^ 62" using e by simp_all
  have r: "0 \<le> val rate" "val rate \<le> 2 ^ 53" "fin rate" using assms(1) by (simp_all add: rate_ok_def proper_def)
  show p: "0 \<le> ?e * val rate" "?e * val rate \<le> 2 ^ 115"
    using e_range r mult_mono [OF e_range(2) r(2)] by simp_all
  then have fits: "fits_f64 (?e * val rate)" by (intro fits_f64_nonneg [of _ 115]) simp_all
  note mul = f64_mul_fin [OF e(1) r(3) fits]
  show "val (bucket_gain diff rate) = round_rat (?e * val rate)" by (simp add: bucket_gain_def mul(2))
  show "proper (bucket_gain diff rate)" using properI [OF mul fits] by (simp add: bucket_gain_def)
qed

lemma bucket_gain:
  assumes rate: "rate_ok rate" and diff: "diff < 2 ^ 62"
  defines "g \<equiv> bucket_gain diff rate"
  shows "proper g" and "0 \<le> val g" and "val g \<le> 2 ^ 115"
    and "\<And>h. 0 \<le> h \<Longrightarrow> h \<le> val g \<Longrightarrow>
      h \<le> val rate * of_int (max 0 diff) / 1000 + 3 * rel_err * h + abs_err * (2 * val rate + 1)"
proof -
  let ?ms = "of_int (max diff 0) :: rat" and ?r = "val rate"
  let ?A = "round_rat ?ms"
  let ?e = "round_rat (?A / 1000)"
  note e = elapsed_secs_val [OF diff]
  note gain = bucket_gain_val [OF rate diff, unfolded e(2)]
  have ms: "0 \<le> ?ms" by simp
  then have q: "0 \<le> ?A / 1000" using round_rat_nonneg by simp
  have r: "0 \<le> ?r" using rate by (simp add: rate_ok_def)
  have p: "0 \<le> ?e * ?r" "?e * ?r \<le> 2 ^ 115" by (rule gain(3), rule gain(4))
  have g: "val g = round_rat (?e * ?r)" by (simp add: g_def gain(2))
  show "proper g" using gain(1) by (simp add: g_def)
  show "0 \<le> val g" "val g \<le> 2 ^ 115" using round_small [OF p] by (simp_all add: g)
  fix h assume h: "0 \<le> h" "h \<le> val g"
  have "val g - rel_err * val g \<le> ?e * ?r + abs_err"
    using round_rat_upper [OF p(1)] by (simp add: g)
  moreover have "(1 - rel_err) * h \<le> (1 - rel_err) * val g"
    using h rel_err_bounds by (intro mult_left_mono) simp_all
  ultimately have h1: "h \<le> ?e * ?r + rel_err * h + abs_err" by (simp add: algebra_simps)
  have "?e * ?r \<le> (?A / 1000 + rel_err * ?e + abs_err) * ?r"
    using round_rat_upper [OF q] r by (intro mult_right_mono)
  then have h2: "?e * ?r \<le> ?A / 1000 * ?r + rel_err * (?e * ?r) + abs_err * ?r"
    by (simp add: algebra_simps)
  have "?A / 1000 * ?r \<le> (?ms + rel_err * ?A + abs_err) / 1000 * ?r"
    using round_rat_upper [OF ms] r by (intro mult_right_mono divide_right_mono) simp_all
  moreover have "abs_err / 1000 * ?r \<le> abs_err * ?r"
    using abs_err_pos r by (intro mult_right_mono) simp_all
  ultimately have h3: "?A / 1000 * ?r \<le> ?r * ?ms / 1000 + rel_err * (?A / 1000 * ?r) + abs_err * ?r"
    by (simp add: algebra_simps add_divide_distrib)
  show "h \<le> ?r * of_int (max 0 diff) / 1000 + 3 * rel_err * h + abs_err * (2 * ?r + 1)"
    using three_errors [OF rel_err_bounds abs_err_pos r h(1) h1 h2 h3] by (simp only: max.commute)
qed

definition level_ok :: "f64 \<Rightarrow> bool" where
  \<comment> \<open>what a stored level has to be\<close>
  "level_ok x \<longleftrightarrow> proper x \<and> 0 \<le> val x"

text \<open>A cost is exact in \<open>f64\<close>.\<close>

lemma f64_of_u32_exact: "fin (f64_of_u32 cost)" "val (f64_of_u32 cost) = of_nat (unat cost)"
proof -
  have "unat cost < 2 ^ 32" using unsigned_less [of cost] by simp
  then have "int (unat cost) < 2 ^ 32" by (simp only: of_nat_less_numeral_power_cancel_iff)
  then have "\<bar>int (unat cost)\<bar> \<le> 2 ^ 53" by (simp del: of_nat_unat)
  from f64_of_int_exact [OF this] show "fin (f64_of_u32 cost)" "val (f64_of_u32 cost) = of_nat (unat cost)"
    by (simp_all only: f64_of_u32_def of_int_of_nat_eq)
qed

section \<open>Evaluation on small numbers\<close>

lemma representable_one [simp]: "representable 1"
  using representable_int [of 1] by simp

lemma round_f64_1 [simp]: "round_f64 s 1 = Num 1"
  by (rule round_f64_exact) simp_all

lemma round_f64_0 [simp]: "round_f64 s 0 = f64_zero s"
  by (simp add: round_f64_def)

lemmas f64_ops = f64_of_int_def f64_of_u32_def f64_neg_def f64_add_def f64_sub_def f64_mul_def f64_div_def
  f64_le_def f64_min_def f64_zero_def neg_def Let_def

lemma bucket_gain_0: "bucket_gain 0 (Num 1) = Num 0"
  by (simp add: bucket_gain_def elapsed_secs_def f64_ops)

end
