(* ===== verification/Token_Bucket.thy ===== *)
theory Token_Bucket
  imports Bucket_Float Local_Runs Sample_Codec
begin

text \<open>
  \<open>src/algorithms/token_bucket.rs\<close>: the token bucket, a level in \<open>f64\<close> that is refilled by
  the elapsed time and drained by each allowed request.
\<close>

section \<open>State and operations\<close>

record tb_state =
  tb_tokens :: f64
  tb_last_refill_ms :: i64

record token_bucket =
  tb_capacity :: f64
  tb_refill_rate :: f64

definition tb_new :: "f64 \<Rightarrow> f64 \<Rightarrow> token_bucket" where
  "tb_new capacity refill_rate = \<lparr>tb_capacity = capacity, tb_refill_rate = refill_rate\<rparr>"

definition tb_name :: string where
  "tb_name = ''token_bucket''"

definition tb_now_ms :: "sys_time \<Rightarrow> i64 res" where
  "tb_now_ms t = and_then (expect_duration t) (\<lambda>d. Inr (u128_as_i64 (as_millis d)))"

definition tb_key :: "string \<Rightarrow> string \<Rightarrow> string" where
  "tb_key client_id resource = ''token_bucket/'' @ client_id @ ''/'' @ resource"

definition tb_refill :: "bool \<Rightarrow> token_bucket \<Rightarrow> tb_state \<Rightarrow> i64 \<Rightarrow> f64 res" where
  "tb_refill oc L st now =
     and_then (i64_sub oc now (tb_last_refill_ms st)) (\<lambda>diff.
       Inr (f64_min (f64_add (tb_tokens st) (bucket_gain diff (tb_refill_rate L))) (tb_capacity L)))"

definition tb_decide :: "token_bucket \<Rightarrow> f64 \<Rightarrow> f64 \<Rightarrow> f64 \<times> bool \<times> i64" where
  "tb_decide L tokens cost =
     (if f64_le cost tokens then (f64_sub tokens cost, True, 0)
      else (tokens, False,
            f64_as_i64 (f64_mul (f64_div (f64_sub cost tokens) (tb_refill_rate L)) (Num 1000))))"

definition tb_reason :: "bool \<Rightarrow> f64 \<Rightarrow> f64 \<Rightarrow> i64 \<Rightarrow> string" where
  "tb_reason allowed new_tokens cost retry =
     (if allowed
      then ''ok '' @ em_dash @ '' '' @ show_f64 1 new_tokens @ '' tokens remaining''
      else ''token-bucket empty ('' @ show_f64 1 new_tokens @ ''/'' @ show_f64 0 cost @
           '' available), retry in '' @ show_int retry @ ''ms'')"

definition tb_plan :: "bool \<Rightarrow> tb_state codec \<Rightarrow> token_bucket \<Rightarrow> u32 \<Rightarrow> plan" where
  "tb_plan oc C L cost t =
     and_then (tb_now_ms t) (\<lambda>now.
       Inr (\<lambda>raw.
         let st = decode_or C \<lparr>tb_tokens = tb_capacity L, tb_last_refill_ms = now\<rparr> raw;
             cost_f = f64_of_u32 cost
         in and_then (tb_refill oc L st now) (\<lambda>tokens.
              case tb_decide L tokens cost_f of (new_tokens, allowed, retry) \<Rightarrow>
                Inr (to_vec C \<lparr>tb_tokens = new_tokens, tb_last_refill_ms = now\<rparr>,
                     \<lparr>d_allowed = allowed,
                      d_limit = f64_as_i64 (tb_capacity L),
                      d_remaining = f64_as_i64 new_tokens,
                      d_retry_after_ms = retry,
                      d_reason = tb_reason allowed new_tokens cost_f retry\<rparr>))))"

definition tb_check :: "bool \<Rightarrow> tb_state codec \<Rightarrow> 's state_store \<Rightarrow> token_bucket \<Rightarrow> 's env
    \<Rightarrow> string \<Rightarrow> string \<Rightarrow> u32 \<Rightarrow> 's \<Rightarrow> decision res \<times> 's" where
  "tb_check oc C S L E client_id resource cost s =
     check_loop S E (tb_key client_id resource) (tb_plan oc C L cost)
       (conflict_decision (f64_as_i64 (tb_capacity L))) s"

section \<open>Behaviour within the configuration's range\<close>

text \<open>
  \<open>tb_json \<eta>\<close> is what is asked of the serialisation: a finite level and its time come back,
  the level with a relative error of at most \<open>\<eta>\<close> (\<open>serde_json\<close> reads floats back exactly only
  with its feature \<open>float_roundtrip\<close>, which the program does not enable).
\<close>

definition tb_wf :: "token_bucket \<Rightarrow> bool" where
  "tb_wf L \<longleftrightarrow> proper (tb_capacity L) \<and> 0 \<le> val (tb_capacity L) \<and> val (tb_capacity L) \<le> 2 ^ 53 \<and>
     rate_ok (tb_refill_rate L)"

definition tb_json :: "rat \<Rightarrow> tb_state codec \<Rightarrow> bool" where
  "tb_json \<eta> C \<longleftrightarrow> 0 \<le> \<eta> \<and> \<eta> \<le> 1 \<and> (\<forall>x l. level_ok x \<longrightarrow> (\<exists>y.
     from_slice C (to_vec C \<lparr>tb_tokens = x, tb_last_refill_ms = l\<rparr>)
       = Some \<lparr>tb_tokens = y, tb_last_refill_ms = l\<rparr> \<and>
     level_ok y \<and> \<bar>val y - val x\<bar> \<le> \<eta> * val x))"

definition tb_read :: "tb_state codec \<Rightarrow> bytes option \<Rightarrow> tb_state option" where
  "tb_read C raw = (case raw of None \<Rightarrow> None | Some b \<Rightarrow> from_slice C b)"

definition tb_good :: "token_bucket \<Rightarrow> tb_state option \<Rightarrow> bool" where
  "tb_good L st \<longleftrightarrow> (\<forall>s. st = Some s \<longrightarrow> level_ok (tb_tokens s) \<and>
     val (tb_tokens s) \<le> 2 * val (tb_capacity L) \<and>
     0 \<le> tb_last_refill_ms s \<and> tb_last_refill_ms s < 2 ^ 62)"

definition tb_view :: "tb_state option \<Rightarrow> bstate" where
  "tb_view st = map_option (\<lambda>s. (val (tb_tokens s), tb_last_refill_ms s)) st"

definition tb_level :: "token_bucket \<Rightarrow> tb_state option \<Rightarrow> int \<Rightarrow> f64" where
  \<comment> \<open>the tokens a request at \<open>now\<close> (in milliseconds) finds\<close>
  "tb_level L st now =
     (let s = (case st of None \<Rightarrow> \<lparr>tb_tokens = tb_capacity L, tb_last_refill_ms = now\<rparr> | Some s \<Rightarrow> s)
      in f64_min (f64_add (tb_tokens s) (bucket_gain (now - tb_last_refill_ms s) (tb_refill_rate L)))
           (tb_capacity L))"

lemma decode_or_tb_read:
  "decode_or C d raw = (case tb_read C raw of None \<Rightarrow> d | Some s \<Rightarrow> s)"
  by (simp add: decode_or_def tb_read_def split: option.splits)

lemma tb_cap_ok: "tb_wf L \<Longrightarrow> level_ok (tb_capacity L)"
  by (simp add: tb_wf_def level_ok_def)

text \<open>The level a request finds: between zero and the capacity, and no more than the exact inflow gives.\<close>

lemma tb_level_bounds:
  assumes wf: "tb_wf L" and good: "tb_good L st" and now: "0 \<le> now" "now < 2 ^ 62"
  shows "level_ok (tb_level L st now)" and "val (tb_level L st now) \<le> val (tb_capacity L)"
    and "val (tb_level L st now) \<le> bfill (val (tb_refill_rate L)) (val (tb_capacity L)) (tb_view st) now
      + 4 * rel_err * val (tb_capacity L) + abs_err * (2 * val (tb_refill_rate L) + 2)"
proof -
  define s where "s = (case st of None \<Rightarrow> \<lparr>tb_tokens = tb_capacity L, tb_last_refill_ms = now\<rparr> | Some s \<Rightarrow> s)"
  let ?cap = "val (tb_capacity L)" and ?r = "val (tb_refill_rate L)"
  let ?y = "val (tb_tokens s)" and ?diff = "now - tb_last_refill_ms s"
  let ?g = "bucket_gain ?diff (tb_refill_rate L)"
  have cap: "proper (tb_capacity L)" "0 \<le> ?cap" "?cap \<le> 2 ^ 53" and rate: "rate_ok (tb_refill_rate L)"
    using wf by (simp_all add: tb_wf_def)
  have s: "level_ok (tb_tokens s)" "?y \<le> 2 * ?cap" "0 \<le> tb_last_refill_ms s"
    using good cap now by (auto simp: s_def tb_good_def level_ok_def split: option.splits)
  have "?diff < 2 ^ 62" using now s(3) by linarith
  note g = bucket_gain [OF rate this]
  have y: "0 \<le> ?y" "fin (tb_tokens s)" using s(1) by (simp_all add: level_ok_def proper_def)
  have sum: "0 \<le> ?y + val ?g" "?y + val ?g \<le> 2 ^ 116"
    using y g s(2) cap by simp_all
  then have fits: "fits_f64 (?y + val ?g)" by (intro fits_f64_nonneg [of _ 116]) simp_all
  note add = f64_add_fin [OF y(2) proper_fin [OF g(1)] fits]
  note sum_proper = properI [OF add fits]
  let ?f = "f64_add (tb_tokens s) ?g"
  have level: "tb_level L st now = f64_min ?f (tb_capacity L)"
    by (simp add: tb_level_def s_def Let_def)
  have v: "val (tb_level L st now) = min (round_rat (?y + val ?g)) ?cap"
    using f64_min_fin [OF add(1) proper_fin [OF cap(1)]] by (simp add: level add(2))
  have "proper (tb_level L st now)"
    using sum_proper cap(1) by (auto simp: level f64_min_def)
  then show "level_ok (tb_level L st now)" and "val (tb_level L st now) \<le> ?cap"
    using round_rat_nonneg [OF sum(1)] cap(2) by (simp_all add: level_ok_def v)
  define h where "h = min (val ?g) ?cap"
  have h: "0 \<le> h" "h \<le> val ?g" "h \<le> ?cap" using g(2) cap(2) by (simp_all add: h_def)
  have "3 * rel_err * h \<le> 3 * rel_err * ?cap"
    using h(3) rel_err_bounds(1) by (intro mult_left_mono) simp_all
  then have hg: "h \<le> ?r * of_int (max 0 ?diff) / 1000 + 3 * rel_err * ?cap + abs_err * (2 * ?r + 1)"
    using g(4) [OF h(1,2)] by linarith
  have small: "0 \<le> rel_err * ?cap" "0 \<le> abs_err" "0 \<le> abs_err * (2 * ?r + 1)"
    using rel_err_bounds(1) abs_err_pos cap(2) rate by (simp_all add: rate_ok_def)
  have fill: "min (?y + ?r * of_int (max 0 ?diff) / 1000) ?cap \<le> bfill ?r ?cap (tb_view st) now"
    using rate by (auto simp: bfill_def tb_view_def s_def split: option.splits)
  have le: "val (tb_level L st now) \<le> min (?y + h) ?cap + rel_err * ?cap + abs_err"
  proof (cases "?y + val ?g \<le> ?cap")
    case True
    then have "h = val ?g" using y by (simp add: h_def)
    moreover have "round_rat (?y + val ?g) \<le> ?cap"
      using True proper_representable [OF cap(1)] by (intro round_rat_le)
    moreover from this have "rel_err * round_rat (?y + val ?g) \<le> rel_err * ?cap"
      using rel_err_bounds(1) by (intro mult_left_mono) simp_all
    ultimately show ?thesis using round_rat_upper [OF sum(1)] True v by simp
  next
    case False
    then have "?cap \<le> ?y + h" using y by (auto simp: h_def)
    with v small show ?thesis by simp
  qed
  have "min (?y + h) ?cap \<le> min (?y + ?r * of_int (max 0 ?diff) / 1000) ?cap
      + 3 * rel_err * ?cap + abs_err * (2 * ?r + 1)"
    using hg small by (auto simp: min_def)
  with le fill show "val (tb_level L st now) \<le> bfill ?r ?cap (tb_view st) now
      + 4 * rel_err * ?cap + abs_err * (2 * ?r + 2)"
    by (simp add: algebra_simps)
qed

text \<open>What the decision leaves.\<close>

definition tb_after :: "token_bucket \<Rightarrow> tb_state option \<Rightarrow> bevent \<Rightarrow> f64" where
  "tb_after L st e = (case e of (now, c, ok) \<Rightarrow>
     if ok then f64_sub (tb_level L st now) (f64_of_int (int c)) else tb_level L st now)"

lemma tb_after_bounds:
  assumes wf: "tb_wf L" and good: "tb_good L st" and now: "0 \<le> now" "now < 2 ^ 62"
    and ok: "ok \<longleftrightarrow> f64_le (f64_of_u32 cost) (tb_level L st now)"
  defines "z \<equiv> tb_after L st (now, unat cost, ok)"
  shows "level_ok z" and "val z \<le> val (tb_capacity L)"
    and "val z \<le> bfill (val (tb_refill_rate L)) (val (tb_capacity L)) (tb_view st) now
      - of_nat (bcost (now, unat cost, ok)) + 5 * rel_err * val (tb_capacity L)
      + abs_err * (2 * val (tb_refill_rate L) + 3)"
proof -
  let ?l = "tb_level L st now" and ?cap = "val (tb_capacity L)" and ?r = "val (tb_refill_rate L)"
  note level = tb_level_bounds [OF wf good now]
  have l: "proper ?l" "0 \<le> val ?l" using level(1) by (simp_all add: level_ok_def)
  have small: "0 \<le> rel_err * ?cap" using wf rel_err_bounds(1) by (simp add: tb_wf_def)
  have c: "f64_of_u32 cost = f64_of_int (int (unat cost))" by (simp only: f64_of_u32_def)
  have "level_ok z \<and> val z \<le> ?cap \<and> val z \<le> bfill ?r ?cap (tb_view st) now
      - of_nat (bcost (now, unat cost, ok)) + 5 * rel_err * ?cap + abs_err * (2 * ?r + 3)"
    if z: "z = tb_after L st (now, unat cost, ok)" for z
  proof (cases ok)
    case False
    then have "z = ?l" by (simp add: z tb_after_def)
    with level small abs_err_pos False show ?thesis by (simp add: bcost_def algebra_simps)
  next
    case True
    let ?x = "val ?l - of_nat (unat cost)"
    have "val (f64_of_u32 cost) \<le> val ?l"
      using True ok f64_le_fin [OF f64_of_u32_exact(1) proper_fin [OF l(1)]] by simp
    then have x: "0 \<le> ?x" "?x \<le> val ?l"
      by (simp_all add: f64_of_u32_exact(2) del: of_nat_unat)
    have fits: "fits_f64 (val ?l - val (f64_of_u32 cost))"
      using fits_f64_proper [OF l(1) x] by (simp only: f64_of_u32_exact(2))
    note sub = f64_sub_fin [OF proper_fin [OF l(1)] f64_of_u32_exact(1) fits]
    have z': "z = f64_sub ?l (f64_of_u32 cost)" using True by (simp only: z tb_after_def c prod.case if_True)
    have v: "val z = round_rat ?x" using sub(2) by (simp only: z' f64_of_u32_exact(2))
    have "proper z" using properI [OF sub fits] by (simp add: z')
    moreover have "0 \<le> val z" unfolding v by (rule round_rat_nonneg [OF x(1)])
    moreover have le: "val z \<le> val ?l"
      unfolding v by (rule round_rat_le [OF proper_representable [OF l(1)] x(2)])
    moreover have "rel_err * round_rat ?x \<le> rel_err * ?cap"
      using le level(2) v rel_err_bounds(1) by (intro mult_left_mono) simp_all
    then have "val z \<le> ?x + rel_err * ?cap + abs_err"
      using round_rat_upper [OF x(1)] v by linarith
    ultimately show ?thesis
      using level True by (simp add: level_ok_def bcost_def algebra_simps del: of_nat_unat)
  qed
  from this [OF refl] show "level_ok z" "val z \<le> ?cap" "val z \<le> bfill ?r ?cap (tb_view st) now
      - of_nat (bcost (now, unat cost, ok)) + 5 * rel_err * ?cap + abs_err * (2 * ?r + 3)"
    by (simp_all add: z_def)
qed

lemma tb_after_val:
  fixes cost :: u32
  assumes wf: "tb_wf L" and good: "tb_good L st" and now: "0 \<le> now" "now < 2 ^ 62"
  defines "ok \<equiv> f64_le (f64_of_u32 cost) (tb_level L st now)"
  shows "val (tb_after L st (now, unat cost, ok))
    = (if ok then round_rat (val (tb_level L st now) - of_nat (unat cost)) else val (tb_level L st now))"
proof (cases ok)
  case True
  let ?l = "tb_level L st now"
  note level = tb_level_bounds(1) [OF wf good now]
  have l: "proper ?l" "0 \<le> val ?l" using level by (simp_all add: level_ok_def)
  have "val (f64_of_u32 cost) \<le> val ?l"
    using True f64_le_fin [OF f64_of_u32_exact(1) proper_fin [OF l(1)]] by (simp add: ok_def)
  then have "0 \<le> val ?l - of_nat (unat cost)" by (simp add: f64_of_u32_exact(2) del: of_nat_unat)
  then have "fits_f64 (val ?l - val (f64_of_u32 cost))"
    unfolding f64_of_u32_exact(2) by (intro fits_f64_proper [OF l(1)]) (simp_all del: of_nat_unat)
  from f64_sub_fin(2) [OF proper_fin [OF l(1)] f64_of_u32_exact(1) this] True
  show ?thesis
    by (simp add: tb_after_def f64_of_u32_def [symmetric] f64_of_u32_exact(2) del: of_nat_unat)
qed (simp add: tb_after_def)

section \<open>The bucket contract\<close>

definition tb_event :: "sys_time \<Rightarrow> u32 \<Rightarrow> decision \<Rightarrow> bevent" where
  "tb_event t cost d = (msecs t, unat cost, d_allowed d)"

definition tb_next :: "tb_state codec \<Rightarrow> token_bucket \<Rightarrow> tb_state option \<Rightarrow> bevent \<Rightarrow> tb_state option" where
  "tb_next C L st e = from_slice C (to_vec C \<lparr>tb_tokens = tb_after L st e, tb_last_refill_ms = fst e\<rparr>)"

definition tb_admits :: "token_bucket \<Rightarrow> tb_state option \<Rightarrow> int \<Rightarrow> u32 \<Rightarrow> bool" where
  "tb_admits L st now cost \<longleftrightarrow> f64_le (f64_of_u32 cost) (tb_level L st now)"

lemma tb_admits_iff:
  assumes "tb_wf L" "tb_good L st" "0 \<le> now" "now < 2 ^ 62"
  shows "tb_admits L st now cost \<longleftrightarrow> of_nat (unat cost) \<le> val (tb_level L st now)"
  using tb_level_bounds(1) [OF assms] f64_of_u32_exact [of cost]
  by (simp add: tb_admits_def level_ok_def proper_def f64_le_fin del: of_nat_unat)

lemma tb_plan_value:
  assumes wf: "tb_wf L" and ok: "clock_ok t" and good: "tb_good L (tb_read C raw)"
  shows "\<exists>rsn. planned (tb_plan oc C L cost) t raw =
    (let allowed = tb_admits L (tb_read C raw) (msecs t) cost;
         new = tb_after L (tb_read C raw) (msecs t, unat cost, allowed)
     in Inr (to_vec C \<lparr>tb_tokens = new, tb_last_refill_ms = msecs t\<rparr>,
          \<lparr>d_allowed = allowed, d_limit = f64_as_i64 (tb_capacity L), d_remaining = f64_as_i64 new,
           d_retry_after_ms = (if allowed then 0 else f64_as_i64 (f64_mul (f64_div
             (f64_sub (f64_of_u32 cost) (tb_level L (tb_read C raw) (msecs t))) (tb_refill_rate L)) (Num 1000))), d_reason = rsn\<rparr>))"
proof -
  let ?now = "msecs t" and ?d = "\<lparr>tb_tokens = tb_capacity L, tb_last_refill_ms = msecs t\<rparr>"
  note now = msecs_range [OF ok]
  have clock: "tb_now_ms t = Inr ?now"
    using clock_ok_nonneg [OF ok] by (simp add: tb_now_ms_def as_millis_msecs [OF ok])
  have "is_i64 (?now - tb_last_refill_ms (decode_or C ?d raw))"
    using now good by (auto simp: is_i64_def decode_or_tb_read tb_good_def split: option.splits)
  then have refill: "tb_refill oc L (decode_or C ?d raw) ?now = Inr (tb_level L (tb_read C raw) ?now)"
    by (simp add: tb_refill_def tb_level_def decode_or_tb_read Let_def)
  show ?thesis
    by (simp add: planned_def tb_plan_def clock refill Let_def tb_decide_def tb_admits_def [symmetric]
        tb_after_def f64_of_u32_def [symmetric] del: of_nat_unat)
qed

lemma tb_plan_eval:
  assumes wf: "tb_wf L" and ok: "clock_ok t" and good: "tb_good L (tb_read C raw)"
  shows "\<exists>retry rsn. planned (tb_plan oc C L cost) t raw =
    (let allowed = tb_admits L (tb_read C raw) (msecs t) cost;
         new = tb_after L (tb_read C raw) (msecs t, unat cost, allowed)
     in Inr (to_vec C \<lparr>tb_tokens = new, tb_last_refill_ms = msecs t\<rparr>,
          \<lparr>d_allowed = allowed, d_limit = f64_as_i64 (tb_capacity L), d_remaining = f64_as_i64 new,
           d_retry_after_ms = (if allowed then 0 else retry), d_reason = rsn\<rparr>))"
  using tb_plan_value [OF assms, of oc cost] unfolding Let_def by blast

lemma tb_step_ok:
  assumes wf: "tb_wf L" and json: "tb_json \<eta> C" and good: "tb_good L st"
    and now: "0 \<le> now" "now < 2 ^ 62" and ok: "ok = tb_admits L st now cost"
  shows "tb_good L (tb_next C L st (now, unat cost, ok))"
    and "bstep_ok (val (tb_refill_rate L)) (val (tb_capacity L))
      (bucket_eps (val (tb_refill_rate L)) (val (tb_capacity L)) \<eta>)
      (tb_view st) (now, unat cost, ok) (tb_view (tb_next C L st (now, unat cost, ok)))"
proof -
  let ?e = "(now, unat cost, ok)" and ?cap = "val (tb_capacity L)" and ?r = "val (tb_refill_rate L)"
  let ?z = "tb_after L st ?e"
  note z = tb_after_bounds [OF wf good now ok [unfolded tb_admits_def]]
  have \<eta>: "0 \<le> \<eta>" "\<eta> \<le> 1" using json by (simp_all add: tb_json_def)
  from json z(1) obtain y where y: "tb_next C L st ?e = Some \<lparr>tb_tokens = y, tb_last_refill_ms = now\<rparr>"
    "level_ok y" "\<bar>val y - val ?z\<bar> \<le> \<eta> * val ?z"
    unfolding tb_json_def tb_next_def fst_conv by blast
  have "0 \<le> val ?z" using z(1) by (simp add: level_ok_def)
  then have \<eta>z: "\<eta> * val ?z \<le> 1 * val ?z" "\<eta> * val ?z \<le> \<eta> * ?cap"
    using \<eta> z(2) by (intro mult_right_mono mult_left_mono; simp)+
  have cap: "0 \<le> rel_err * ?cap" "0 \<le> ?cap"
    using wf rel_err_bounds(1) by (simp_all add: tb_wf_def)
  have "val y \<le> val ?z + \<eta> * val ?z" using y(3) by linarith
  moreover from this have "val y \<le> 2 * ?cap" using \<eta>z(1) z(2) by linarith
  ultimately show "tb_good L (tb_next C L st ?e)"
    using y(1,2) now by (simp add: tb_good_def)
  have "abs_err * (2 * ?r + 3) \<le> abs_err * (2 * ?r + 4)"
    using abs_err_pos by (intro mult_left_mono) simp_all
  moreover have "(6 * rel_err + \<eta>) * ?cap = 5 * rel_err * ?cap + rel_err * ?cap + \<eta> * ?cap"
    by (simp add: algebra_simps)
  ultimately have "val y \<le> bfill ?r ?cap (tb_view st) now - of_nat (bcost ?e) + bucket_eps ?r ?cap \<eta>"
    using \<open>val y \<le> val ?z + \<eta> * val ?z\<close> \<eta>z(2) z(3) cap(1) unfolding bucket_eps_def by linarith
  then show "bstep_ok ?r ?cap (bucket_eps ?r ?cap \<eta>) (tb_view st) ?e (tb_view (tb_next C L st ?e))"
    using y(1,2) by (simp add: bstep_ok_def tb_view_def level_ok_def)
qed

interpretation tb: refined_plan "\<lambda>(oc, C, L, \<eta>). tb_plan oc C L"
  "\<lambda>(oc, C, L, \<eta>). tb_wf L \<and> tb_json \<eta> C" "\<lambda>(oc, C, L, \<eta>) raw. tb_good L (tb_read C raw)"
  "\<lambda>(oc, C, L, \<eta>). tb_read C" "\<lambda>_. tb_event" "\<lambda>(oc, C, L, \<eta>). tb_next C L" "\<lambda>_. None"
  "\<lambda>_ _ _. True"
  "\<lambda>(oc, C, L, \<eta>) st e. bstep_ok (val (tb_refill_rate L)) (val (tb_capacity L))
      (bucket_eps (val (tb_refill_rate L)) (val (tb_capacity L)) \<eta>) (tb_view st) e (tb_view (tb_next C L st e))"
proof (unfold_locales, goal_cases)
  case (1 cfg)
  then show ?case by (auto simp: tb_good_def tb_read_def)
next
  case (2 cfg raw t cost b d)
  obtain oc C L \<eta> where cfg: "cfg = (oc, C, L, \<eta>)" by (cases cfg)
  with 2 have wf: "tb_wf L" "tb_json \<eta> C" "tb_good L (tb_read C raw)" and ok: "clock_ok t"
    and run: "planned (tb_plan oc C L cost) t raw = Inr (b, d)" by simp_all
  let ?st = "tb_read C raw" and ?now = "msecs t"
  have now: "0 \<le> ?now" "?now < 2 ^ 62" using msecs_range [OF ok] by simp_all
  from tb_plan_eval [OF wf(1) ok wf(3), of oc cost] run
  have allowed: "d_allowed d = tb_admits L ?st ?now cost"
    and b: "b = to_vec C \<lparr>tb_tokens = tb_after L ?st (?now, unat cost, d_allowed d), tb_last_refill_ms = ?now\<rparr>"
    by (auto simp: Let_def)
  have "tb_read C (Some b) = tb_next C L ?st (tb_event t cost d)"
    by (simp add: tb_read_def b tb_next_def tb_event_def)
  with tb_step_ok [OF wf now allowed] show ?case by (simp add: cfg tb_event_def)
qed

section \<open>Runs used as examples\<close>

lemma tb_json_exact: "codec_roundtrip C \<Longrightarrow> tb_json 0 C"
  by (simp add: tb_json_def codec_roundtrip_def)

definition tb_sample :: "tb_state codec" where
  "tb_sample = sample_codec (\<lambda>s. f64_code (tb_tokens s) @ [int_code (tb_last_refill_ms s)])
     (\<lambda>ns. \<lparr>tb_tokens = f64_decode ns, tb_last_refill_ms = int_decode (ns ! 3)\<rparr>)"

lemma tb_sample_roundtrip [simp]: "codec_roundtrip tb_sample"
  unfolding tb_sample_def
  by (rule sample_codec_roundtrip) (simp add: f64_decode_code nth_append)

definition tb_one :: token_bucket where
  \<comment> \<open>one token, one more per second\<close>
  "tb_one = tb_new (Num 1) (Num 1)"

lemma tb_one_wf [simp]: "tb_wf tb_one"
  by (simp add: tb_wf_def tb_one_def tb_new_def rate_ok_def proper_Num)

lemma tb_one_levels:
  "tb_level tb_one None 0 = Num 1"
  "tb_level tb_one (Some \<lparr>tb_tokens = Num 0, tb_last_refill_ms = 0\<rparr>) 0 = Num 0"
  by (simp_all add: tb_level_def tb_one_def tb_new_def bucket_gain_0 f64_ops)

lemma tb_one_steps:
  "tb_admits tb_one None 0 1" "tb_after tb_one None (0, 1, True) = Num 0"
  "\<not> tb_admits tb_one (Some \<lparr>tb_tokens = Num 0, tb_last_refill_ms = 0\<rparr>) 0 1"
  "tb_after tb_one (Some \<lparr>tb_tokens = Num 0, tb_last_refill_ms = 0\<rparr>) (0, 1, False) = Num 0"
  by (simp_all add: tb_admits_def tb_after_def tb_one_levels f64_ops)

definition tb_task :: "tb_state codec \<Rightarrow> nat \<Rightarrow> task" where
  "tb_task C i = \<lparr>t_key = tb_key ''a'' ''r'', t_plan = tb_plan False C tb_one 1,
     t_fail = conflict_decision (f64_as_i64 (tb_capacity tb_one))\<rparr>"

definition tb_schedule :: "(nat \<times> sys_time) list" where
  "tb_schedule = [(0, 5), (1, 5), (0, 5), (0, 6), (1, 6), (1, 7)]"

lemma tb_run:
  assumes "codec_roundtrip C"
  shows "map (\<lambda>c. (c_task c, c_now c, d_allowed (c_decision c)))
    (sys_log (local_run (tb_task C) tb_schedule)) = [(0, 5, True), (1, 5, False)]"
proof -
  let ?s = "\<lparr>tb_tokens = Num 0, tb_last_refill_ms = 0\<rparr>"
  have now: "clock_ok 5" "msecs 5 = 0" by (simp_all add: clock_ok_def msecs_def)
  have read: "tb_read C None = None" "tb_read C (Some (to_vec C ?s)) = Some ?s"
    using assms by (simp_all add: tb_read_def codec_roundtrip_def)
  have good: "tb_good tb_one (tb_read C None)" "tb_good tb_one (tb_read C (Some (to_vec C ?s)))"
    using representable_int [of 0]
    by (simp_all add: read tb_good_def level_ok_def proper_Num tb_one_def tb_new_def)
  obtain d1 where one: "planned (tb_plan False C tb_one 1) 5 None = Inr (to_vec C ?s, d1)" "d_allowed d1"
    using tb_plan_eval [OF tb_one_wf now(1) good(1), of False 1] tb_one_steps by (auto simp: read now Let_def)
  obtain d2 where two: "planned (tb_plan False C tb_one 1) 5 (Some (to_vec C ?s)) = Inr (to_vec C ?s, d2)"
    "\<not> d_allowed d2"
    using tb_plan_eval [OF tb_one_wf now(1) good(2), of False 1] tb_one_steps by (auto simp: read now Let_def)
  obtain body where "tb_plan False C tb_one 1 5 = Inr body" using one(1) by (rule planned_InrE)
  then show ?thesis
    using one two by (simp add: tb_schedule_def run_steps tb_task_def del: planned_Inr cong: if_cong)
qed

section \<open>Properties\<close>

text \<open>C3. The promise of the algorithm, under concurrency and with floating-point rounding
  counted: whatever the interleaving of any number of calls on a \<open>LocalStore\<close>, over any
  stretch of the committed requests of a key the admitted cost is at most the capacity plus the
  refill rate times how far the clock went forward, plus \<open>bucket_eps\<close> per request.\<close>

theorem tb_concurrent_rate:
  assumes "tb_wf L" "tb_json \<eta> C" "length evs < 2 ^ 62"
    and "\<And>i t. (i, t) \<in> set evs \<Longrightarrow> clock_ok t"
    and "\<And>i. t_key (tk i) = k \<Longrightarrow> t_plan (tk i) = tb_plan oc C L (cost i)"
    and "log_events tk cost tb_event k (sys_log (local_run tk evs)) = pre @ es" "es \<noteq> []"
  shows "of_nat (total_cost es) \<le> val (tb_capacity L)
    + val (tb_refill_rate L) * of_int (forward (map fst es)) / 1000
    + of_nat (length es) * bucket_eps (val (tb_refill_rate L)) (val (tb_capacity L)) \<eta>"
proof -
  have "along (\<lambda>st e. bstep_ok (val (tb_refill_rate L)) (val (tb_capacity L))
      (bucket_eps (val (tb_refill_rate L)) (val (tb_capacity L)) \<eta>) (tb_view st) e (tb_view (tb_next C L st e)))
      (tb_next C L) None (pre @ es)"
    using tb.replay_refines [of "(oc, C, L, \<eta>)" tk k cost "sys_log (local_run tk evs)"]
      local_run_replay(1) [OF assms(3), of tk k] local_run_clocks [of evs clock_ok _ tk] assms
    by (simp add: along_True)
  from bucket_budget [OF this assms(7)] show ?thesis .
qed

theorem tb_concurrent_rate_witness:
  "of_nat (total_cost [(0, 1, True), (0, 1, False)]) \<le> (1 :: rat) + 2 * bucket_eps 1 1 0"
proof -
  let ?log = "sys_log (local_run (tb_task tb_sample) tb_schedule)"
  have "\<exists>c0 c1. ?log = [c0, c1] \<and> c_task c0 = 0 \<and> c_now c0 = 5 \<and> d_allowed (c_decision c0) \<and>
      c_task c1 = 1 \<and> c_now c1 = 5 \<and> \<not> d_allowed (c_decision c1)"
    using tb_run [OF tb_sample_roundtrip] by (auto simp: map_eq_Cons_conv)
  then have ev: "log_events (tb_task tb_sample) (\<lambda>_. 1) tb_event (tb_key ''a'' ''r'') ?log
      = [] @ [(0, 1, True), (0, 1, False)]"
    by (auto simp: log_events_def on_key_def tb_task_def tb_event_def msecs_def)
  let ?es = "[(0, 1, True), (0, 1, False)] :: bevent list"
  have "of_nat (total_cost ?es) \<le> val (tb_capacity tb_one)
      + val (tb_refill_rate tb_one) * of_int (forward (map fst ?es)) / 1000
      + of_nat (length ?es) * bucket_eps (val (tb_refill_rate tb_one)) (val (tb_capacity tb_one)) 0"
    by (rule tb_concurrent_rate [OF tb_one_wf tb_json_exact [OF tb_sample_roundtrip] _ _ _ ev, of False])
      (auto simp: tb_schedule_def tb_task_def clock_ok_def)
  then show ?thesis by (simp add: tb_one_def tb_new_def)
qed

text \<open>C11. One undisturbed \<open>check\<close> on a \<open>LocalStore\<close>: the level it finds is between zero and
  the capacity; the request is allowed exactly when its cost is at most that level; the new
  level is between zero and the capacity, is stored with the time of the check, and its whole
  part is reported as remaining; every other key is left alone.\<close>

theorem tb_check_undisturbed:
  assumes wf: "tb_wf L" and s: "local_inv s" "local_room s" and t: "clock_ok (clk 0)"
    and good: "tb_good L (tb_read C (contents ls_state s (tb_key client res)))"
  defines "level \<equiv> tb_level L (tb_read C (contents ls_state s (tb_key client res))) (msecs (clk 0))"
  shows "0 \<le> val level \<and> val level \<le> val (tb_capacity L) \<and>
    (\<exists>d new v s'. tb_check oc C local_ops L (quiet clk) client res cost s = (Inr d, s') \<and>
      (d_allowed d \<longleftrightarrow> of_nat (unat cost) \<le> val level) \<and>
      val new = (if d_allowed d then round_rat (val level - of_nat (unat cost)) else val level) \<and>
      0 \<le> val new \<and> val new \<le> val (tb_capacity L) \<and>
      d_remaining d = \<lfloor>val new\<rfloor> \<and> (d_allowed d \<longrightarrow> d_retry_after_ms d = 0) \<and>
      ls_state s' = (ls_state s)(tb_key client res \<mapsto>
        (to_vec C \<lparr>tb_tokens = new, tb_last_refill_ms = msecs (clk 0)\<rparr>, v)))"
proof -
  let ?raw = "contents ls_state s (tb_key client res)" and ?now = "msecs (clk 0)"
  let ?ok = "tb_admits L (tb_read C ?raw) ?now cost"
  let ?new = "tb_after L (tb_read C ?raw) (?now, unat cost, ?ok)"
  have now: "0 \<le> ?now" "?now < 2 ^ 62" using msecs_range [OF t] by simp_all
  note level = tb_level_bounds [OF wf good now, folded level_def]
  note new = tb_after_bounds [OF wf good now, of ?ok cost, unfolded tb_admits_def, OF refl, folded tb_admits_def]
  from tb_plan_eval [OF wf t good, of oc cost] obtain d
    where run: "planned (tb_plan oc C L cost) (clk 0) ?raw = Inr (to_vec C \<lparr>tb_tokens = ?new, tb_last_refill_ms = ?now\<rparr>, d)"
      and d: "d_allowed d = ?ok" "d_remaining d = f64_as_i64 ?new" "d_allowed d \<Longrightarrow> d_retry_after_ms d = 0"
    by (auto simp: Let_def)
  have floor: "f64_as_i64 ?new = \<lfloor>val ?new\<rfloor>"
    using new(1,2) wf by (intro f64_as_i64_small) (simp_all add: level_ok_def proper_def tb_wf_def)
  have val_new: "val ?new = (if ?ok then round_rat (val level - of_nat (unat cost)) else val level)"
    using tb_after_val [OF wf good now, of cost] by (simp only: level_def tb_admits_def)
  from local_check_quiet [where clk = clk, OF s run] obtain s' v
    where out: "tb_check oc C local_ops L (quiet clk) client res cost s = (Inr d, s')"
      and s': "ls_state s' = (ls_state s)(tb_key client res \<mapsto>
        (to_vec C \<lparr>tb_tokens = ?new, tb_last_refill_ms = ?now\<rparr>, v))"
    unfolding tb_check_def by blast
  have "0 \<le> val level" "0 \<le> val ?new" using level(1) new(1) by (simp_all add: level_ok_def)
  moreover have "d_allowed d \<longleftrightarrow> of_nat (unat cost) \<le> val level"
    unfolding d(1) by (rule tb_admits_iff [OF wf good now, folded level_def])
  moreover have "d_remaining d = \<lfloor>val ?new\<rfloor>" using d(2) floor by simp
  moreover have "val ?new = (if d_allowed d then round_rat (val level - of_nat (unat cost)) else val level)"
    unfolding d(1) by (rule val_new)
  ultimately show ?thesis using out s' level(2) new(2) d(3) by blast
qed

theorem tb_check_undisturbed_witness:
  "\<exists>d new v s'. tb_check False tb_sample local_ops tb_one (quiet (\<lambda>_. 5)) ''a'' ''r'' 1 local_new = (Inr d, s') \<and>
    d_allowed d \<and> val new = 0 \<and> d_remaining d = 0 \<and>
    ls_state s' = (ls_state local_new)(tb_key ''a'' ''r'' \<mapsto>
      (to_vec tb_sample \<lparr>tb_tokens = new, tb_last_refill_ms = 0\<rparr>, v))"
proof -
  have pre: "local_room local_new" "clock_ok 5" "msecs 5 = 0"
    by (simp_all add: local_room_def local_new_def clock_ok_def msecs_def)
  have read: "tb_read tb_sample (contents ls_state local_new (tb_key ''a'' ''r'')) = None"
    by (simp add: tb_read_def)
  have good: "tb_good tb_one (tb_read tb_sample (contents ls_state local_new (tb_key ''a'' ''r'')))"
    unfolding read by (simp add: tb_good_def)
  from tb_check_undisturbed [where clk = "\<lambda>_. 5" and oc = False and cost = 1,
      OF tb_one_wf local_inv_new pre(1,2) good]
  obtain d new v s' where
    out: "tb_check False tb_sample local_ops tb_one (quiet (\<lambda>_. 5)) ''a'' ''r'' 1 local_new = (Inr d, s')"
    and d: "d_allowed d \<longleftrightarrow> of_nat (unat (1 :: u32)) \<le> val (tb_level tb_one None 0)"
      "val new = (if d_allowed d then round_rat (val (tb_level tb_one None 0) - of_nat (unat (1 :: u32)))
        else val (tb_level tb_one None 0))" "d_remaining d = \<lfloor>val new\<rfloor>"
    and s': "ls_state s' = (ls_state local_new)(tb_key ''a'' ''r'' \<mapsto>
        (to_vec tb_sample \<lparr>tb_tokens = new, tb_last_refill_ms = 0\<rparr>, v))"
    unfolding read pre(3) by blast
  from d have "d_allowed d" "val new = 0" "d_remaining d = 0" by (simp_all add: tb_one_levels)
  with out s' show ?thesis by blast
qed

text \<open>The wait is truncated to whole milliseconds and may come out as 0 for a denied
  request: with one token and 2048 per second, a request that finds the bucket empty is
  denied and told to retry after 0 ms.\<close>

theorem tb_denied_retry_zero:
  assumes "codec_roundtrip C"
  shows "\<exists>b d. planned (tb_plan oc C (tb_new (Num 1) (Num 2048)) 1) 0
      (Some (to_vec C \<lparr>tb_tokens = Num 0, tb_last_refill_ms = 0\<rparr>)) = Inr (b, d) \<and>
    \<not> d_allowed d \<and> d_retry_after_ms d = 0"
proof -
  have r: "round_f64 s (1 / 2048) = Num (1 / 2048)" "round_f64 s (125 / 256) = Num (125 / 256)" for s
    using representable_dyadic [of 1 11] representable_dyadic [of 125 8]
    by (simp_all add: round_f64_exact)
  have gain: "bucket_gain 0 (Num 2048) = Num 0"
    by (simp add: bucket_gain_def elapsed_secs_def f64_ops)
  have wait: "f64_as_i64 (f64_mul (f64_div (f64_sub (f64_of_u32 1) (Num 0)) (Num 2048)) (Num 1000)) = 0"
    by (simp add: f64_ops r f64_as_i64_def rat_trunc_def floor_eq_iff)
  have empty: "f64_min (f64_add (Num 0) (Num 0)) (Num 1) = Num 0" "\<not> f64_le (f64_of_u32 1) (Num 0)"
    by (simp_all add: f64_ops)
  show ?thesis
    using assms by (simp add: planned_def tb_plan_def tb_now_ms_def as_millis_def u128_as_i64_def
        wrap_i64_id is_i64_def tb_refill_def i64_sub_def tb_new_def gain tb_decide_def empty wait Let_def)
qed

theorem tb_denied_retry_zero_witness:
  "\<exists>b d. planned (tb_plan False tb_sample (tb_new (Num 1) (Num 2048)) 1) 0
      (Some (to_vec tb_sample \<lparr>tb_tokens = Num 0, tb_last_refill_ms = 0\<rparr>)) = Inr (b, d) \<and>
    \<not> d_allowed d \<and> d_retry_after_ms d = 0"
  by (rule tb_denied_retry_zero [OF tb_sample_roundtrip])

end
