(* ===== verification/Leaky_Bucket.thy ===== *)
theory Leaky_Bucket
  imports Bucket_Float Local_Runs Sample_Codec
begin

text \<open>
  \<open>src/algorithms/leaky_bucket.rs\<close>: the leaky bucket, a queue depth in \<open>f64\<close> that leaks with
  the elapsed time and grows with each allowed request. The room left in the queue is the
  level of the bucket contract.
\<close>

section \<open>State and operations\<close>

record lb_state =
  lb_depth :: f64
  lb_last_leak_ms :: i64

record leaky_bucket =
  lb_leak_rate :: f64
  lb_capacity :: u64

definition lb_new :: "f64 \<Rightarrow> u64 \<Rightarrow> leaky_bucket" where
  "lb_new leak_rate capacity = \<lparr>lb_leak_rate = leak_rate, lb_capacity = capacity\<rparr>"

definition lb_name :: string where
  "lb_name = ''leaky_bucket''"

definition lb_now_ms :: "sys_time \<Rightarrow> i64 res" where
  "lb_now_ms t = and_then (expect_duration t) (\<lambda>d. Inr (u128_as_i64 (as_millis d)))"

definition lb_key :: "string \<Rightarrow> string \<Rightarrow> string" where
  "lb_key client_id resource = ''leaky_bucket/'' @ client_id @ ''/'' @ resource"

definition lb_cap :: "leaky_bucket \<Rightarrow> f64" where
  "lb_cap L = f64_of_u64 (lb_capacity L)"

definition lb_leak :: "bool \<Rightarrow> leaky_bucket \<Rightarrow> lb_state \<Rightarrow> i64 \<Rightarrow> f64 res" where
  "lb_leak oc L st now =
     and_then (i64_sub oc now (lb_last_leak_ms st)) (\<lambda>diff.
       Inr (f64_max (f64_sub (lb_depth st) (bucket_gain diff (lb_leak_rate L))) (Num 0)))"

definition lb_decide :: "leaky_bucket \<Rightarrow> f64 \<Rightarrow> f64 \<Rightarrow> f64 \<times> bool \<times> i64" where
  "lb_decide L queue cost =
     (let new_queue = f64_add queue cost in
      if f64_le new_queue (lb_cap L) then (new_queue, True, 0)
      else (queue, False,
            f64_as_i64 (f64_mul (f64_div (f64_sub new_queue (lb_cap L)) (lb_leak_rate L)) (Num 1000))))"

definition lb_reason :: "leaky_bucket \<Rightarrow> bool \<Rightarrow> f64 \<Rightarrow> f64 \<Rightarrow> i64 \<Rightarrow> string" where
  "lb_reason L allowed queue final_queue retry =
     (if allowed
      then ''queued '' @ em_dash @ '' depth '' @ show_f64 1 final_queue @ ''/'' @ show_f64 0 (lb_cap L)
      else ''leaky-bucket full ('' @ show_f64 1 queue @ ''/'' @ show_f64 0 (lb_cap L) @
           ''), retry in '' @ show_int retry @ ''ms'')"

definition lb_plan :: "bool \<Rightarrow> lb_state codec \<Rightarrow> leaky_bucket \<Rightarrow> u32 \<Rightarrow> plan" where
  "lb_plan oc C L cost t =
     and_then (lb_now_ms t) (\<lambda>now.
       Inr (\<lambda>raw.
         let st = decode_or C \<lparr>lb_depth = Num 0, lb_last_leak_ms = now\<rparr> raw
         in and_then (lb_leak oc L st now) (\<lambda>queue.
              case lb_decide L queue (f64_of_u32 cost) of (final_queue, allowed, retry) \<Rightarrow>
                Inr (to_vec C \<lparr>lb_depth = final_queue, lb_last_leak_ms = now\<rparr>,
                     \<lparr>d_allowed = allowed,
                      d_limit = u64_as_i64 (lb_capacity L),
                      d_remaining = f64_as_i64 (f64_sub (lb_cap L) final_queue),
                      d_retry_after_ms = retry,
                      d_reason = lb_reason L allowed queue final_queue retry\<rparr>))))"

definition lb_check :: "bool \<Rightarrow> lb_state codec \<Rightarrow> 's state_store \<Rightarrow> leaky_bucket \<Rightarrow> 's env
    \<Rightarrow> string \<Rightarrow> string \<Rightarrow> u32 \<Rightarrow> 's \<Rightarrow> decision res \<times> 's" where
  "lb_check oc C S L E client_id resource cost s =
     check_loop S E (lb_key client_id resource) (lb_plan oc C L cost)
       (conflict_decision (u64_as_i64 (lb_capacity L))) s"

section \<open>Behaviour within the configuration's range\<close>

definition lb_wf :: "leaky_bucket \<Rightarrow> bool" where
  "lb_wf L \<longleftrightarrow> unat (lb_capacity L) \<le> 2 ^ 53 \<and> rate_ok (lb_leak_rate L)"

definition lb_max :: "leaky_bucket \<Rightarrow> rat" where
  "lb_max L = of_nat (unat (lb_capacity L))"

lemma lb_max_nonneg [simp]: "0 \<le> lb_max L"
  unfolding lb_max_def by (rule of_nat_0_le_iff)

definition lb_json :: "rat \<Rightarrow> lb_state codec \<Rightarrow> bool" where
  "lb_json \<eta> C \<longleftrightarrow> 0 \<le> \<eta> \<and> \<eta> \<le> 1 \<and> (\<forall>x l. level_ok x \<longrightarrow> (\<exists>y.
     from_slice C (to_vec C \<lparr>lb_depth = x, lb_last_leak_ms = l\<rparr>)
       = Some \<lparr>lb_depth = y, lb_last_leak_ms = l\<rparr> \<and>
     level_ok y \<and> \<bar>val y - val x\<bar> \<le> \<eta> * val x))"

definition lb_read :: "lb_state codec \<Rightarrow> bytes option \<Rightarrow> lb_state option" where
  "lb_read C raw = (case raw of None \<Rightarrow> None | Some b \<Rightarrow> from_slice C b)"

definition lb_good :: "lb_state option \<Rightarrow> bool" where
  "lb_good st \<longleftrightarrow> (\<forall>s. st = Some s \<longrightarrow> level_ok (lb_depth s) \<and>
     0 \<le> lb_last_leak_ms s \<and> lb_last_leak_ms s < 2 ^ 62)"

definition lb_view :: "leaky_bucket \<Rightarrow> lb_state option \<Rightarrow> bstate" where
  \<comment> \<open>the room left in the queue, and the time\<close>
  "lb_view L st = map_option (\<lambda>s. (lb_max L - min (val (lb_depth s)) (lb_max L), lb_last_leak_ms s)) st"

definition lb_queue :: "leaky_bucket \<Rightarrow> lb_state option \<Rightarrow> int \<Rightarrow> f64" where
  \<comment> \<open>the depth a request at \<open>now\<close> (in milliseconds) finds\<close>
  "lb_queue L st now =
     (let s = (case st of None \<Rightarrow> \<lparr>lb_depth = Num 0, lb_last_leak_ms = now\<rparr> | Some s \<Rightarrow> s)
      in f64_max (f64_sub (lb_depth s) (bucket_gain (now - lb_last_leak_ms s) (lb_leak_rate L))) (Num 0))"

lemma decode_or_lb_read:
  "decode_or C d raw = (case lb_read C raw of None \<Rightarrow> d | Some s \<Rightarrow> s)"
  by (simp add: decode_or_def lb_read_def split: option.splits)

lemma lb_cap_exact:
  assumes "lb_wf L"
  shows "proper (lb_cap L)" "val (lb_cap L) = lb_max L"
proof -
  have "unat (lb_capacity L) \<le> 2 ^ 53" using assms by (simp add: lb_wf_def)
  from f64_of_u64_exact [OF this] show v: "val (lb_cap L) = lb_max L" by (simp only: lb_cap_def lb_max_def)
  have "val (lb_cap L) \<le> 2 ^ 64" "0 \<le> val (lb_cap L)"
    unfolding lb_cap_def by (rule f64_of_u64_fin)+
  then have "\<bar>val (lb_cap L)\<bar> < 2 ^ 1024" by simp
  moreover have "representable (val (lb_cap L))"
    by (simp add: lb_cap_def f64_of_u64_fin(2) representable_round_rat)
  ultimately show "proper (lb_cap L)" by (simp add: proper_def lb_cap_def f64_of_u64_fin(1))
qed

lemma lb_queue_val:
  assumes wf: "lb_wf L" and s: "level_ok (lb_depth s)" and diff: "now - lb_last_leak_ms s < 2 ^ 62"
  defines "g \<equiv> val (bucket_gain (now - lb_last_leak_ms s) (lb_leak_rate L))"
  shows "level_ok (lb_queue L (Some s) now)"
    and "val (lb_queue L (Some s) now) = max (round_rat (val (lb_depth s) - g)) 0"
proof -
  let ?g = "bucket_gain (now - lb_last_leak_ms s) (lb_leak_rate L)" and ?y = "val (lb_depth s)"
  have rate: "rate_ok (lb_leak_rate L)" using wf by (simp add: lb_wf_def)
  note g = bucket_gain [OF rate diff]
  have y: "proper (lb_depth s)" "0 \<le> ?y" using s(1) by (simp_all add: level_ok_def)
  have fits: "fits_f64 (?y - val ?g)"
  proof (cases "val ?g \<le> ?y")
    case True
    then show ?thesis using g(2) by (intro fits_f64_proper [OF y(1)]) simp_all
  next
    case False
    then show ?thesis using g(2,3) y(2) by (intro fits_f64_le [of _ 115]) simp_all
  qed
  note sub = f64_sub_fin [OF proper_fin [OF y(1)] proper_fin [OF g(1)] fits]
  note sub_proper = properI [OF sub fits]
  have zero: "level_ok (Num 0)" using representable_int [of 0] by (simp add: level_ok_def proper_Num)
  have queue: "lb_queue L (Some s) now = f64_max (f64_sub (lb_depth s) ?g) (Num 0)"
    by (simp add: lb_queue_def Let_def)
  show v: "val (lb_queue L (Some s) now) = max (round_rat (val (lb_depth s) - g)) 0"
    using f64_max_fin [OF sub(1), of "Num 0"] by (simp add: queue sub(2) g_def)
  have "proper (lb_queue L (Some s) now)"
    using sub_proper zero by (auto simp: queue f64_max_def level_ok_def)
  then show "level_ok (lb_queue L (Some s) now)" by (simp add: level_ok_def v)
qed

lemma lb_queue_None: "lb_queue L None now = lb_queue L (Some \<lparr>lb_depth = Num 0, lb_last_leak_ms = now\<rparr>) now"
  by (simp add: lb_queue_def Let_def)

text \<open>The depth a request finds: no less than what the exact leak leaves.\<close>

lemma lb_queue_bounds:
  assumes wf: "lb_wf L" and good: "lb_good st" and now: "0 \<le> now" "now < 2 ^ 62"
  shows "level_ok (lb_queue L st now)"
    and "lb_max L - min (val (lb_queue L st now)) (lb_max L)
      \<le> bfill (val (lb_leak_rate L)) (lb_max L) (lb_view L st) now
        + 4 * rel_err * lb_max L + abs_err * (2 * val (lb_leak_rate L) + 2)"
proof -
  define s where "s = (case st of None \<Rightarrow> \<lparr>lb_depth = Num 0, lb_last_leak_ms = now\<rparr> | Some s \<Rightarrow> s)"
  let ?cap = "lb_max L" and ?r = "val (lb_leak_rate L)" and ?y = "val (lb_depth s)"
  let ?diff = "now - lb_last_leak_ms s"
  let ?g = "bucket_gain ?diff (lb_leak_rate L)" and ?G = "val (lb_leak_rate L) * of_int (max 0 (now - lb_last_leak_ms s)) / 1000"
  have rate: "rate_ok (lb_leak_rate L)" "0 \<le> ?r" using wf by (simp_all add: lb_wf_def rate_ok_def)
  have "level_ok (Num 0)" using representable_int [of 0] by (simp add: level_ok_def proper_Num)
  then have s: "level_ok (lb_depth s)" "0 \<le> lb_last_leak_ms s"
    using good now by (auto simp: s_def lb_good_def split: option.splits)
  have "?diff < 2 ^ 62" using now s(2) by linarith
  note g = bucket_gain [OF rate(1) this]
  have y: "0 \<le> ?y" using s(1) by (simp add: level_ok_def)
  have queue: "lb_queue L st now = lb_queue L (Some s) now"
    by (simp add: s_def lb_queue_None split: option.split)
  note q = lb_queue_val [OF wf s(1) \<open>?diff < 2 ^ 62\<close>, folded queue]
  have v: "val (lb_queue L st now) = max (round_rat (?y - val ?g)) 0" by (rule q(2))
  show "level_ok (lb_queue L st now)" by (rule q(1))
  define h where "h = min (val ?g) ?cap"
  have h: "0 \<le> h" "h \<le> val ?g" "h \<le> ?cap" using g(2) by (simp_all add: h_def)
  have "3 * rel_err * h \<le> 3 * rel_err * ?cap"
    using h(3) rel_err_bounds(1) by (intro mult_left_mono) simp_all
  then have hg: "h \<le> ?G + 3 * rel_err * ?cap + abs_err * (2 * ?r + 1)"
    using g(4) [OF h(1,2)] by linarith
  have small: "0 \<le> rel_err * ?cap" "0 \<le> abs_err * (2 * ?r + 1)"
    using rel_err_bounds(1) abs_err_pos rate(2) by simp_all
  have fill: "?cap - max (min ?y ?cap - ?G) 0 \<le> bfill ?r ?cap (lb_view L st) now"
    by (auto simp: bfill_def lb_view_def s_def split: option.splits)
  have low: "max (min ?y ?cap - h) 0 - rel_err * ?cap - abs_err \<le> min (val (lb_queue L st now)) ?cap"
  proof (cases "min ?y ?cap \<le> h")
    case True
    then have "max (min ?y ?cap - h) 0 = 0" by simp
    moreover have "0 \<le> min (val (lb_queue L st now)) ?cap" by (simp add: v)
    ultimately show ?thesis using small(1) abs_err_pos by linarith
  next
    case False
    then have hg': "h = val ?g" and z: "0 \<le> min ?y ?cap - h" "min ?y ?cap - h \<le> ?cap" and less: "h < ?y"
      using h(1) by (auto simp: h_def min_def split: if_splits)
    let ?z = "min ?y ?cap - h"
    have "round_rat ?z \<le> round_rat (?y - val ?g)" by (intro round_rat_mono) (simp add: hg')
    moreover have "round_rat ?z \<le> ?cap"
      using proper_representable [OF lb_cap_exact(1) [OF wf]] z(2)
      by (intro round_rat_le) (simp_all only: lb_cap_exact(2) [OF wf])
    moreover have "rel_err * ?z \<le> rel_err * ?cap"
      using z(2) rel_err_bounds(1) by (intro mult_left_mono) simp_all
    then have "?z - rel_err * ?cap - abs_err \<le> round_rat ?z"
      using round_rat_lower [OF z(1)] by linarith
    ultimately show ?thesis using z(1) by (simp add: v)
  qed
  have "max (min ?y ?cap - ?G) 0 \<le> max (min ?y ?cap - h) 0 + 3 * rel_err * ?cap + abs_err * (2 * ?r + 1)"
    using hg small by (auto simp: max_def)
  moreover have "abs_err * (2 * ?r + 2) = abs_err * (2 * ?r + 1) + abs_err"
    by (simp add: algebra_simps)
  ultimately show "?cap - min (val (lb_queue L st now)) ?cap \<le> bfill ?r ?cap (lb_view L st) now
      + 4 * rel_err * ?cap + abs_err * (2 * ?r + 2)"
    using low fill by linarith
qed

text \<open>What the decision leaves.\<close>

definition lb_admits :: "leaky_bucket \<Rightarrow> lb_state option \<Rightarrow> int \<Rightarrow> u32 \<Rightarrow> bool" where
  "lb_admits L st now cost \<longleftrightarrow> f64_le (f64_add (lb_queue L st now) (f64_of_u32 cost)) (lb_cap L)"

definition lb_after :: "leaky_bucket \<Rightarrow> lb_state option \<Rightarrow> bevent \<Rightarrow> f64" where
  "lb_after L st e = (case e of (now, c, ok) \<Rightarrow>
     if ok then f64_add (lb_queue L st now) (f64_of_int (int c)) else lb_queue L st now)"

lemma lb_admits_iff:
  assumes "lb_wf L" "lb_good st" "0 \<le> now" "now < 2 ^ 62"
  shows "lb_admits L st now cost
    \<longleftrightarrow> round_rat (val (lb_queue L st now) + of_nat (unat cost)) \<le> lb_max L"
proof -
  have q: "proper (lb_queue L st now)" "0 \<le> val (lb_queue L st now)"
    using lb_queue_bounds(1) [OF assms] by (simp_all add: level_ok_def)
  have "0 \<le> val (f64_of_u32 cost)" unfolding f64_of_u32_exact(2) by (rule of_nat_0_le_iff)
  from f64_add_le [OF proper_fin [OF q(1)] f64_of_u32_exact(1) q(2) this lb_cap_exact(1) [OF assms(1)]]
  show ?thesis
    by (simp only: lb_admits_def f64_of_u32_exact(2) lb_cap_exact(2) [OF assms(1)])
qed

lemma lb_after_val:
  assumes wf: "lb_wf L" and good: "lb_good st" and now: "0 \<le> now" "now < 2 ^ 62"
    and ok: "ok = lb_admits L st now cost"
  shows "proper (lb_after L st (now, unat cost, ok))"
    and "val (lb_after L st (now, unat cost, ok)) =
      (if ok then round_rat (val (lb_queue L st now) + of_nat (unat cost)) else val (lb_queue L st now))"
proof -
  let ?q = "lb_queue L st now" and ?z = "lb_after L st (now, unat cost, ok)"
  have q: "proper ?q" "0 \<le> val ?q" using lb_queue_bounds(1) [OF wf good now] by (simp_all add: level_ok_def)
  have "proper ?z \<and> val ?z = (if ok then round_rat (val ?q + of_nat (unat cost)) else val ?q)"
  proof (cases ok)
    case True
    have sum: "0 \<le> val ?q + of_nat (unat cost)" using q(2) by (intro add_nonneg_nonneg of_nat_0_le_iff)
    have "round_rat (val ?q + of_nat (unat cost)) \<le> val (lb_cap L)"
      using True ok lb_admits_iff [OF wf good now, of cost] by (simp only: lb_cap_exact(2) [OF wf])
    then have fits: "fits_f64 (val ?q + val (f64_of_u32 cost))"
      using lb_cap_exact(1) [OF wf] round_rat_nonneg [OF sum]
      unfolding fits_f64_def f64_of_u32_exact(2) proper_def by simp
    note add = f64_add_fin [OF proper_fin [OF q(1)] f64_of_u32_exact(1) fits]
    have "?z = f64_add ?q (f64_of_u32 cost)" using True by (simp only: lb_after_def f64_of_u32_def prod.case if_True)
    with add properI [OF add fits] True show ?thesis by (simp only: f64_of_u32_exact(2) if_True)
  qed (simp add: lb_after_def q)
  then show "proper ?z" "val ?z = (if ok then round_rat (val ?q + of_nat (unat cost)) else val ?q)" by simp_all
qed

lemma lb_after_bounds:
  assumes wf: "lb_wf L" and good: "lb_good st" and now: "0 \<le> now" "now < 2 ^ 62"
    and ok: "ok = lb_admits L st now cost"
  defines "z \<equiv> lb_after L st (now, unat cost, ok)"
  shows "level_ok z"
    and "lb_max L - min (val z) (lb_max L) \<le> bfill (val (lb_leak_rate L)) (lb_max L) (lb_view L st) now
      - of_nat (bcost (now, unat cost, ok)) + 6 * rel_err * lb_max L
      + abs_err * (2 * val (lb_leak_rate L) + 4)"
proof -
  let ?q = "lb_queue L st now" and ?cap = "lb_max L" and ?r = "val (lb_leak_rate L)"
  let ?fill = "bfill ?r ?cap (lb_view L st) now"
  note queue = lb_queue_bounds [OF wf good now]
  note after = lb_after_val [OF wf good now ok, folded z_def]
  have q: "0 \<le> val ?q" using queue(1) by (simp add: level_ok_def)
  have sum: "0 \<le> val ?q + of_nat (unat cost)" using q by (intro add_nonneg_nonneg of_nat_0_le_iff)
  show "level_ok z"
    using after q round_rat_nonneg [OF sum] by (auto simp: level_ok_def)
  have small: "0 \<le> rel_err * ?cap" using rel_err_bounds(1) by simp
  have abs: "abs_err * (2 * ?r + 4) = abs_err * (2 * ?r + 2) + 2 * abs_err" by (simp add: algebra_simps)
  show "?cap - min (val z) ?cap \<le> ?fill - of_nat (bcost (now, unat cost, ok)) + 6 * rel_err * ?cap
      + abs_err * (2 * ?r + 4)"
  proof (cases ok)
    case False
    then show ?thesis using queue(2) after(2) small abs_err_pos abs by (simp add: bcost_def)
  next
    case True
    let ?x = "val ?q + of_nat (unat cost)"
    have n: "val z = round_rat ?x" using after(2) True by simp
    have le: "val z \<le> ?cap" using lb_admits_iff [OF wf good now, of cost] True ok n by simp
    have "?x \<le> 2 * ?cap + 2 * abs_err" using round_rat_double [OF sum] le n by linarith
    then have "rel_err * ?x \<le> rel_err * (2 * ?cap + 2 * abs_err)"
      using rel_err_bounds(1) by (intro mult_left_mono) simp_all
    moreover have "rel_err * (2 * abs_err) \<le> 1 / 4 * (2 * abs_err)"
      using rel_err_bounds(2) abs_err_pos by (intro mult_right_mono) simp_all
    moreover have "rel_err * (2 * ?cap + 2 * abs_err) = 2 * rel_err * ?cap + rel_err * (2 * abs_err)"
      by (simp add: algebra_simps)
    ultimately have "rel_err * ?x \<le> 2 * rel_err * ?cap + abs_err"
      using abs_err_pos by linarith
    with round_rat_lower [OF sum] n have "?x \<le> val z + 2 * rel_err * ?cap + 2 * abs_err" by linarith
    moreover have "bcost (now, unat cost, ok) = unat cost" using True by (simp add: bcost_def)
    moreover have "min (val ?q) ?cap \<le> val ?q" by simp
    moreover have "min (val z) ?cap = val z" using le by simp
    ultimately show ?thesis using queue(2) abs by linarith
  qed
qed

section \<open>The bucket contract\<close>

definition lb_event :: "sys_time \<Rightarrow> u32 \<Rightarrow> decision \<Rightarrow> bevent" where
  "lb_event t cost d = (msecs t, unat cost, d_allowed d)"

definition lb_next :: "lb_state codec \<Rightarrow> leaky_bucket \<Rightarrow> lb_state option \<Rightarrow> bevent \<Rightarrow> lb_state option" where
  "lb_next C L st e = from_slice C (to_vec C \<lparr>lb_depth = lb_after L st e, lb_last_leak_ms = fst e\<rparr>)"

lemma lb_plan_value:
  assumes wf: "lb_wf L" and ok: "clock_ok t" and good: "lb_good (lb_read C raw)"
  shows "\<exists>rsn. planned (lb_plan oc C L cost) t raw =
    (let allowed = lb_admits L (lb_read C raw) (msecs t) cost;
         depth = lb_after L (lb_read C raw) (msecs t, unat cost, allowed)
     in Inr (to_vec C \<lparr>lb_depth = depth, lb_last_leak_ms = msecs t\<rparr>,
          \<lparr>d_allowed = allowed, d_limit = u64_as_i64 (lb_capacity L),
           d_remaining = f64_as_i64 (f64_sub (lb_cap L) depth),
           d_retry_after_ms = (if allowed then 0 else f64_as_i64 (f64_mul (f64_div (f64_sub
             (f64_add (lb_queue L (lb_read C raw) (msecs t)) (f64_of_u32 cost)) (lb_cap L)) (lb_leak_rate L)) (Num 1000))), d_reason = rsn\<rparr>))"
proof -
  let ?now = "msecs t" and ?d = "\<lparr>lb_depth = Num 0, lb_last_leak_ms = msecs t\<rparr>"
  note now = msecs_range [OF ok]
  have clock: "lb_now_ms t = Inr ?now"
    using clock_ok_nonneg [OF ok] by (simp add: lb_now_ms_def as_millis_msecs [OF ok])
  have "is_i64 (?now - lb_last_leak_ms (decode_or C ?d raw))"
    using now good by (auto simp: is_i64_def decode_or_lb_read lb_good_def split: option.splits)
  then have leak: "lb_leak oc L (decode_or C ?d raw) ?now = Inr (lb_queue L (lb_read C raw) ?now)"
    by (simp add: lb_leak_def lb_queue_def decode_or_lb_read Let_def)
  show ?thesis
    by (simp add: planned_def lb_plan_def clock leak Let_def lb_decide_def lb_admits_def [symmetric]
        lb_after_def f64_of_u32_def [symmetric] del: of_nat_unat)
qed

lemma lb_plan_eval:
  assumes wf: "lb_wf L" and ok: "clock_ok t" and good: "lb_good (lb_read C raw)"
  shows "\<exists>retry rsn. planned (lb_plan oc C L cost) t raw =
    (let allowed = lb_admits L (lb_read C raw) (msecs t) cost;
         depth = lb_after L (lb_read C raw) (msecs t, unat cost, allowed)
     in Inr (to_vec C \<lparr>lb_depth = depth, lb_last_leak_ms = msecs t\<rparr>,
          \<lparr>d_allowed = allowed, d_limit = u64_as_i64 (lb_capacity L),
           d_remaining = f64_as_i64 (f64_sub (lb_cap L) depth),
           d_retry_after_ms = (if allowed then 0 else retry), d_reason = rsn\<rparr>))"
  using lb_plan_value [OF assms, of oc cost] unfolding Let_def by blast

lemma lb_step_ok:
  assumes wf: "lb_wf L" and json: "lb_json \<eta> C" and good: "lb_good st"
    and now: "0 \<le> now" "now < 2 ^ 62" and ok: "ok = lb_admits L st now cost"
  shows "lb_good (lb_next C L st (now, unat cost, ok))"
    and "bstep_ok (val (lb_leak_rate L)) (lb_max L) (bucket_eps (val (lb_leak_rate L)) (lb_max L) \<eta>)
      (lb_view L st) (now, unat cost, ok) (lb_view L (lb_next C L st (now, unat cost, ok)))"
proof -
  let ?e = "(now, unat cost, ok)" and ?cap = "lb_max L" and ?r = "val (lb_leak_rate L)"
  let ?z = "lb_after L st ?e"
  note z = lb_after_bounds [OF wf good now ok]
  have \<eta>: "0 \<le> \<eta>" "\<eta> \<le> 1" using json by (simp_all add: lb_json_def)
  from json z(1) obtain y where y: "lb_next C L st ?e = Some \<lparr>lb_depth = y, lb_last_leak_ms = now\<rparr>"
    "level_ok y" "\<bar>val y - val ?z\<bar> \<le> \<eta> * val ?z"
    unfolding lb_json_def lb_next_def fst_conv by blast
  show "lb_good (lb_next C L st ?e)" using y(1,2) now by (simp add: lb_good_def)
  have z0: "0 \<le> val ?z" using z(1) by (simp add: level_ok_def)
  have "min (val ?z) ?cap - \<eta> * ?cap \<le> min (val y) ?cap"
  proof (cases "val ?z \<le> ?cap")
    case True
    then have "\<eta> * val ?z \<le> \<eta> * ?cap" using \<eta>(1) by (intro mult_left_mono)
    moreover have "0 \<le> \<eta> * ?cap" using \<eta>(1) by simp
    ultimately show ?thesis using True y(3) by simp
  next
    case False
    have "(1 - \<eta>) * ?cap \<le> (1 - \<eta>) * val ?z" using False \<eta>(2) by (intro mult_left_mono) simp_all
    then have "?cap - \<eta> * ?cap \<le> val y" using y(3) by (simp add: algebra_simps abs_le_iff)
    moreover have "0 \<le> \<eta> * ?cap" using \<eta>(1) by simp
    ultimately show ?thesis using False by simp
  qed
  moreover have "bucket_eps ?r ?cap \<eta> = 6 * rel_err * ?cap + \<eta> * ?cap + abs_err * (2 * ?r + 4)"
    by (simp add: bucket_eps_def algebra_simps)
  ultimately have "?cap - min (val y) ?cap
      \<le> bfill ?r ?cap (lb_view L st) now - of_nat (bcost ?e) + bucket_eps ?r ?cap \<eta>"
    using z(2) by linarith
  then show "bstep_ok ?r ?cap (bucket_eps ?r ?cap \<eta>) (lb_view L st) ?e (lb_view L (lb_next C L st ?e))"
    using y(1) by (simp add: bstep_ok_def lb_view_def)
qed

interpretation lb: refined_plan "\<lambda>(oc, C, L, \<eta>). lb_plan oc C L"
  "\<lambda>(oc, C, L, \<eta>). lb_wf L \<and> lb_json \<eta> C" "\<lambda>(oc, C, L, \<eta>) raw. lb_good (lb_read C raw)"
  "\<lambda>(oc, C, L, \<eta>). lb_read C" "\<lambda>_. lb_event" "\<lambda>(oc, C, L, \<eta>). lb_next C L" "\<lambda>_. None"
  "\<lambda>_ _ _. True"
  "\<lambda>(oc, C, L, \<eta>) st e. bstep_ok (val (lb_leak_rate L)) (lb_max L)
      (bucket_eps (val (lb_leak_rate L)) (lb_max L) \<eta>) (lb_view L st) e (lb_view L (lb_next C L st e))"
proof (unfold_locales, goal_cases)
  case (1 cfg)
  then show ?case by (auto simp: lb_good_def lb_read_def)
next
  case (2 cfg raw t cost b d)
  obtain oc C L \<eta> where cfg: "cfg = (oc, C, L, \<eta>)" by (cases cfg)
  with 2 have wf: "lb_wf L" "lb_json \<eta> C" "lb_good (lb_read C raw)" and ok: "clock_ok t"
    and run: "planned (lb_plan oc C L cost) t raw = Inr (b, d)" by simp_all
  let ?st = "lb_read C raw" and ?now = "msecs t"
  have now: "0 \<le> ?now" "?now < 2 ^ 62" using msecs_range [OF ok] by simp_all
  from lb_plan_eval [OF wf(1) ok wf(3), of oc cost] run
  have allowed: "d_allowed d = lb_admits L ?st ?now cost"
    and b: "b = to_vec C \<lparr>lb_depth = lb_after L ?st (?now, unat cost, d_allowed d), lb_last_leak_ms = ?now\<rparr>"
    by (auto simp: Let_def)
  have "lb_read C (Some b) = lb_next C L ?st (lb_event t cost d)"
    by (simp add: lb_read_def b lb_next_def lb_event_def)
  with lb_step_ok [OF wf now allowed] show ?case by (simp add: cfg lb_event_def)
qed

section \<open>Runs used as examples\<close>

lemma lb_json_exact: "codec_roundtrip C \<Longrightarrow> lb_json 0 C"
  by (simp add: lb_json_def codec_roundtrip_def)

definition lb_sample :: "lb_state codec" where
  "lb_sample = sample_codec (\<lambda>s. f64_code (lb_depth s) @ [int_code (lb_last_leak_ms s)])
     (\<lambda>ns. \<lparr>lb_depth = f64_decode ns, lb_last_leak_ms = int_decode (ns ! 3)\<rparr>)"

lemma lb_sample_roundtrip [simp]: "codec_roundtrip lb_sample"
  unfolding lb_sample_def
  by (rule sample_codec_roundtrip) (simp add: f64_decode_code nth_append)

definition lb_one :: leaky_bucket where
  \<comment> \<open>room for one, leaking one per second\<close>
  "lb_one = lb_new (Num 1) 1"

lemma lb_one_wf [simp]: "lb_wf lb_one"
  by (simp add: lb_wf_def lb_one_def lb_new_def rate_ok_def proper_Num)

lemma lb_one_steps:
  "lb_queue lb_one None 0 = Num 0"
  "lb_admits lb_one None 0 1" "lb_after lb_one None (0, 1, True) = Num 1"
  "\<not> lb_admits lb_one (Some \<lparr>lb_depth = Num 1, lb_last_leak_ms = 0\<rparr>) 0 1"
  "lb_after lb_one (Some \<lparr>lb_depth = Num 1, lb_last_leak_ms = 0\<rparr>) (0, 1, False) = Num 1"
proof -
  have two: "round_f64 s 2 = Num 2" for s
    using representable_int [of 2] by (simp add: round_f64_exact)
  show "lb_queue lb_one None 0 = Num 0"
    "lb_admits lb_one None 0 1" "lb_after lb_one None (0, 1, True) = Num 1"
    "\<not> lb_admits lb_one (Some \<lparr>lb_depth = Num 1, lb_last_leak_ms = 0\<rparr>) 0 1"
    "lb_after lb_one (Some \<lparr>lb_depth = Num 1, lb_last_leak_ms = 0\<rparr>) (0, 1, False) = Num 1"
    by (simp_all add: lb_queue_def lb_admits_def lb_after_def lb_one_def lb_new_def lb_cap_def
        bucket_gain_0 f64_ops f64_max_def f64_of_u64_def two)
qed

definition lb_task :: "lb_state codec \<Rightarrow> nat \<Rightarrow> task" where
  "lb_task C i = \<lparr>t_key = lb_key ''a'' ''r'', t_plan = lb_plan False C lb_one 1,
     t_fail = conflict_decision (u64_as_i64 (lb_capacity lb_one))\<rparr>"

definition lb_schedule :: "(nat \<times> sys_time) list" where
  "lb_schedule = [(0, 5), (1, 5), (0, 5), (0, 6), (1, 6), (1, 7)]"

lemma lb_run:
  assumes "codec_roundtrip C"
  shows "map (\<lambda>c. (c_task c, c_now c, d_allowed (c_decision c)))
    (sys_log (local_run (lb_task C) lb_schedule)) = [(0, 5, True), (1, 5, False)]"
proof -
  let ?s = "\<lparr>lb_depth = Num 1, lb_last_leak_ms = 0\<rparr>"
  have now: "clock_ok 5" "msecs 5 = 0" by (simp_all add: clock_ok_def msecs_def)
  have read: "lb_read C None = None" "lb_read C (Some (to_vec C ?s)) = Some ?s"
    using assms by (simp_all add: lb_read_def codec_roundtrip_def)
  have good: "lb_good (lb_read C None)" "lb_good (lb_read C (Some (to_vec C ?s)))"
    by (simp_all add: read lb_good_def level_ok_def proper_Num)
  obtain d1 where one: "planned (lb_plan False C lb_one 1) 5 None = Inr (to_vec C ?s, d1)" "d_allowed d1"
    using lb_plan_eval [OF lb_one_wf now(1) good(1), of False 1] lb_one_steps by (auto simp: read now Let_def)
  obtain d2 where two: "planned (lb_plan False C lb_one 1) 5 (Some (to_vec C ?s)) = Inr (to_vec C ?s, d2)"
    "\<not> d_allowed d2"
    using lb_plan_eval [OF lb_one_wf now(1) good(2), of False 1] lb_one_steps by (auto simp: read now Let_def)
  obtain body where "lb_plan False C lb_one 1 5 = Inr body" using one(1) by (rule planned_InrE)
  then show ?thesis
    using one two by (simp add: lb_schedule_def run_steps lb_task_def del: planned_Inr cong: if_cong)
qed

section \<open>Properties\<close>

text \<open>C4. The promise of the algorithm, under concurrency and with floating-point rounding
  counted: over any stretch of the committed requests of a key, the cost let into the queue is
  at most its capacity plus the leak rate times how far the clock went forward, plus
  \<open>bucket_eps\<close> per request.\<close>

theorem lb_concurrent_rate:
  assumes "lb_wf L" "lb_json \<eta> C" "length evs < 2 ^ 62"
    and "\<And>i t. (i, t) \<in> set evs \<Longrightarrow> clock_ok t"
    and "\<And>i. t_key (tk i) = k \<Longrightarrow> t_plan (tk i) = lb_plan oc C L (cost i)"
    and "log_events tk cost lb_event k (sys_log (local_run tk evs)) = pre @ es" "es \<noteq> []"
  shows "of_nat (total_cost es) \<le> lb_max L
    + val (lb_leak_rate L) * of_int (forward (map fst es)) / 1000
    + of_nat (length es) * bucket_eps (val (lb_leak_rate L)) (lb_max L) \<eta>"
proof -
  have "along (\<lambda>st e. bstep_ok (val (lb_leak_rate L)) (lb_max L)
      (bucket_eps (val (lb_leak_rate L)) (lb_max L) \<eta>) (lb_view L st) e (lb_view L (lb_next C L st e)))
      (lb_next C L) None (pre @ es)"
    using lb.replay_refines [of "(oc, C, L, \<eta>)" tk k cost "sys_log (local_run tk evs)"]
      local_run_replay(1) [OF assms(3), of tk k] local_run_clocks [of evs clock_ok _ tk] assms
    by (simp add: along_True)
  from bucket_budget [OF this assms(7)] show ?thesis .
qed

theorem lb_concurrent_rate_witness:
  "of_nat (total_cost [(0, 1, True), (0, 1, False)]) \<le> (1 :: rat) + 2 * bucket_eps 1 1 0"
proof -
  let ?log = "sys_log (local_run (lb_task lb_sample) lb_schedule)"
  have "\<exists>c0 c1. ?log = [c0, c1] \<and> c_task c0 = 0 \<and> c_now c0 = 5 \<and> d_allowed (c_decision c0) \<and>
      c_task c1 = 1 \<and> c_now c1 = 5 \<and> \<not> d_allowed (c_decision c1)"
    using lb_run [OF lb_sample_roundtrip] by (auto simp: map_eq_Cons_conv)
  then have ev: "log_events (lb_task lb_sample) (\<lambda>_. 1) lb_event (lb_key ''a'' ''r'') ?log
      = [] @ [(0, 1, True), (0, 1, False)]"
    by (auto simp: log_events_def on_key_def lb_task_def lb_event_def msecs_def)
  let ?es = "[(0, 1, True), (0, 1, False)] :: bevent list"
  have "of_nat (total_cost ?es) \<le> lb_max lb_one
      + val (lb_leak_rate lb_one) * of_int (forward (map fst ?es)) / 1000
      + of_nat (length ?es) * bucket_eps (val (lb_leak_rate lb_one)) (lb_max lb_one) 0"
    by (rule lb_concurrent_rate [OF lb_one_wf lb_json_exact [OF lb_sample_roundtrip] _ _ _ ev, of False])
      (auto simp: lb_schedule_def lb_task_def clock_ok_def)
  then show ?thesis by (simp add: lb_one_def lb_new_def lb_max_def)
qed

text \<open>C12. One undisturbed \<open>check\<close> on a \<open>LocalStore\<close>: the depth it finds is not negative; a
  request that fits into the queue is let in, one that is let in leaves a depth of at most the
  capacity, and one that is denied leaves the leaked depth; the depth is stored with the time of
  the check, and every other key is left alone.\<close>

theorem lb_check_undisturbed:
  assumes wf: "lb_wf L" and s: "local_inv s" "local_room s" and t: "clock_ok (clk 0)"
    and good: "lb_good (lb_read C (contents ls_state s (lb_key client res)))"
  defines "queue \<equiv> lb_queue L (lb_read C (contents ls_state s (lb_key client res))) (msecs (clk 0))"
  shows "0 \<le> val queue \<and>
    (\<exists>d depth v s'. lb_check oc C local_ops L (quiet clk) client res cost s = (Inr d, s') \<and>
      (val queue + of_nat (unat cost) \<le> lb_max L \<longrightarrow> d_allowed d) \<and>
      (d_allowed d \<longrightarrow> val depth = round_rat (val queue + of_nat (unat cost)) \<and> val depth \<le> lb_max L \<and>
        d_retry_after_ms d = 0) \<and>
      (\<not> d_allowed d \<longrightarrow> val depth = val queue) \<and> 0 \<le> val depth \<and>
      ls_state s' = (ls_state s)(lb_key client res \<mapsto>
        (to_vec C \<lparr>lb_depth = depth, lb_last_leak_ms = msecs (clk 0)\<rparr>, v)))"
proof -
  let ?raw = "contents ls_state s (lb_key client res)" and ?now = "msecs (clk 0)"
  let ?ok = "lb_admits L (lb_read C ?raw) ?now cost"
  let ?z = "lb_after L (lb_read C ?raw) (?now, unat cost, ?ok)"
  have now: "0 \<le> ?now" "?now < 2 ^ 62" using msecs_range [OF t] by simp_all
  have queue: "0 \<le> val queue"
    using lb_queue_bounds(1) [OF wf good now, folded queue_def] by (simp add: level_ok_def)
  have z: "0 \<le> val ?z" using lb_after_bounds(1) [OF wf good now refl] by (simp add: level_ok_def)
  note z_val = lb_after_val(2) [OF wf good now refl, of cost, folded queue_def]
  note admits = lb_admits_iff [OF wf good now, of cost, folded queue_def]
  have fits: "val queue + of_nat (unat cost) \<le> lb_max L \<Longrightarrow> ?ok"
    unfolding admits using proper_representable [OF lb_cap_exact(1) [OF wf]]
    by (intro round_rat_le) (simp_all only: lb_cap_exact(2) [OF wf])
  from lb_plan_eval [OF wf t good, of oc cost] obtain d
    where run: "planned (lb_plan oc C L cost) (clk 0) ?raw = Inr (to_vec C \<lparr>lb_depth = ?z, lb_last_leak_ms = ?now\<rparr>, d)"
      and d: "d_allowed d = ?ok" "d_allowed d \<Longrightarrow> d_retry_after_ms d = 0"
    by (auto simp: Let_def)
  from local_check_quiet [where clk = clk, OF s run] obtain s' v
    where out: "lb_check oc C local_ops L (quiet clk) client res cost s = (Inr d, s')"
      and s': "ls_state s' = (ls_state s)(lb_key client res \<mapsto>
        (to_vec C \<lparr>lb_depth = ?z, lb_last_leak_ms = ?now\<rparr>, v))"
    unfolding lb_check_def by blast
  have "d_allowed d \<Longrightarrow> val ?z = round_rat (val queue + of_nat (unat cost)) \<and> val ?z \<le> lb_max L"
    "\<not> d_allowed d \<Longrightarrow> val ?z = val queue"
    using z_val admits by (simp_all only: d(1) if_True if_False)
  with out s' queue z fits d show ?thesis by blast
qed

theorem lb_check_undisturbed_witness:
  "\<exists>d depth v s'. lb_check False lb_sample local_ops lb_one (quiet (\<lambda>_. 5)) ''a'' ''r'' 1 local_new = (Inr d, s') \<and>
    d_allowed d \<and> val depth = 1 \<and>
    ls_state s' = (ls_state local_new)(lb_key ''a'' ''r'' \<mapsto>
      (to_vec lb_sample \<lparr>lb_depth = depth, lb_last_leak_ms = 0\<rparr>, v))"
proof -
  have pre: "local_room local_new" "clock_ok 5" "msecs 5 = 0"
    by (simp_all add: local_room_def local_new_def clock_ok_def msecs_def)
  have read: "lb_read lb_sample (contents ls_state local_new (lb_key ''a'' ''r'')) = None"
    by (simp add: lb_read_def)
  have good: "lb_good (lb_read lb_sample (contents ls_state local_new (lb_key ''a'' ''r'')))"
    unfolding read by (simp add: lb_good_def)
  from lb_check_undisturbed [where clk = "\<lambda>_. 5" and oc = False and cost = 1,
      OF lb_one_wf local_inv_new pre(1,2) good]
  obtain d depth v s' where
    out: "lb_check False lb_sample local_ops lb_one (quiet (\<lambda>_. 5)) ''a'' ''r'' 1 local_new = (Inr d, s')"
    and d: "val (lb_queue lb_one None 0) + of_nat (unat (1 :: u32)) \<le> lb_max lb_one \<longrightarrow> d_allowed d"
      "d_allowed d \<longrightarrow> val depth = round_rat (val (lb_queue lb_one None 0) + of_nat (unat (1 :: u32)))"
    and s': "ls_state s' = (ls_state local_new)(lb_key ''a'' ''r'' \<mapsto>
        (to_vec lb_sample \<lparr>lb_depth = depth, lb_last_leak_ms = 0\<rparr>, v))"
    unfolding read pre(3) by blast
  have "lb_max lb_one = 1" by (simp add: lb_max_def lb_one_def lb_new_def)
  with d have "d_allowed d" "val depth = 1"
    by (simp_all add: lb_one_steps round_rat_representable)
  with out s' show ?thesis by blast
qed

end
