(* ===== verification/Decisions.thy ===== *)
theory Decisions
  imports Fixed_Window Sliding_Log Sliding_Counter Token_Bucket Leaky_Bucket
begin

text \<open>
  What the servers rely on in a decision, whatever the algorithm, the configuration, the
  content of the store and the clock: the fields are \<open>i64\<close> values, the limit is the
  configured one and an allowed request is not told to wait. The five plans keep this
  contract, and with it every \<open>check\<close>, conflict decision included.
\<close>

section \<open>The contract\<close>

definition decision_ok :: "i64 \<Rightarrow> decision \<Rightarrow> bool" where
  "decision_ok quota d \<longleftrightarrow> d_limit d = quota \<and> is_i64 (d_limit d) \<and> is_i64 (d_remaining d) \<and>
     is_i64 (d_retry_after_ms d) \<and> (d_allowed d \<longrightarrow> d_retry_after_ms d = 0)"

lemma decision_okI [intro]:
  "quota = d_limit d \<Longrightarrow> is_i64 (d_limit d) \<Longrightarrow> is_i64 (d_remaining d) \<Longrightarrow> is_i64 (d_retry_after_ms d) \<Longrightarrow>
    (d_allowed d \<Longrightarrow> d_retry_after_ms d = 0) \<Longrightarrow> decision_ok quota d"
  by (simp add: decision_ok_def)

lemma decision_ok_conflict [simp]: "is_i64 quota \<Longrightarrow> decision_ok quota (conflict_decision quota)"
  by (simp add: decision_ok_def conflict_decision_def is_i64_def)

locale decision_maker =
  fixes plan :: "'cfg \<Rightarrow> u32 \<Rightarrow> plan"
    and quota :: "'cfg \<Rightarrow> i64"
  assumes quota_range: "is_i64 (quota cfg)"
    and verdict: "planned (plan cfg cost) t raw = Inr (b, d) \<Longrightarrow> decision_ok (quota cfg) d"
begin

lemma check_ok:
  assumes "check_loop S E key (plan cfg cost) (conflict_decision (quota cfg)) s = (Inr d, s')"
  shows "decision_ok (quota cfg) d"
  using check_loop_decision [OF assms] verdict quota_range by auto

end

section \<open>The five algorithms\<close>

lemma is_i64_0 [simp]: "is_i64 0"
  by (simp add: is_i64_def)

lemma i64_sub_range: "i64_sub oc a b = Inr x \<Longrightarrow> is_i64 x"
  by (auto simp: i64_sub_def is_i64_wrap split: if_splits)

lemma is_i64_max: "is_i64 a \<Longrightarrow> is_i64 b \<Longrightarrow> is_i64 (max a b)"
  by (simp add: max_def)

lemma fw_decide_range:
  "fw_decide oc L now wid cnt cost = Inr (n, allowed, retry) \<Longrightarrow> is_i64 retry \<and> (allowed \<longrightarrow> retry = 0)"
  by (auto simp: fw_decide_def and_then_eq_Inr split: if_splits)

lemma swl_decide_range:
  "swl_decide oc L now ts cost = Inr (ts', allowed, retry) \<Longrightarrow> is_i64 retry \<and> (allowed \<longrightarrow> retry = 0)"
  by (auto simp: swl_decide_def and_then_eq_Inr Let_def split: if_splits intro!: is_i64_max dest: i64_sub_range)

lemma swc_decide_range:
  "swc_decide oc L elapsed weighted cc cost = Inr (n, allowed, retry) \<Longrightarrow> is_i64 retry \<and> (allowed \<longrightarrow> retry = 0)"
  by (auto simp: swc_decide_def and_then_eq_Inr is_i64_f64_as_i64 split: if_splits)

lemma tb_decide_range:
  "tb_decide L tokens cost = (n, allowed, retry) \<Longrightarrow> is_i64 retry \<and> (allowed \<longrightarrow> retry = 0)"
  by (auto simp: tb_decide_def is_i64_f64_as_i64 split: if_splits)

lemma lb_decide_range:
  "lb_decide L queue cost = (n, allowed, retry) \<Longrightarrow> is_i64 retry \<and> (allowed \<longrightarrow> retry = 0)"
  by (auto simp: lb_decide_def is_i64_f64_as_i64 Let_def split: if_splits)

interpretation fw_dec: decision_maker "\<lambda>(oc, C, L). fw_plan oc C L"
  "\<lambda>(oc, C, L). u64_as_i64 (fw_max_requests L)"
  by unfold_locales
    (auto simp: planned_def fw_plan_def and_then_eq_Inr Let_def decision_ok_def dest!: fw_decide_range)

interpretation swl_dec: decision_maker "\<lambda>(oc, C, L). swl_plan oc C L"
  "\<lambda>(oc, C, L). u64_as_i64 (swl_max_requests L)"
  by unfold_locales
    (auto simp: planned_def swl_plan_def and_then_eq_Inr Let_def decision_ok_def dest!: swl_decide_range)

interpretation swc_dec: decision_maker "\<lambda>(oc, C, L). swc_plan oc C L"
  "\<lambda>(oc, C, L). u64_as_i64 (swc_max_requests L)"
  by unfold_locales
    (auto simp: planned_def swc_plan_def and_then_eq_Inr Let_def decision_ok_def swc_remaining_def is_i64_f64_as_i64
      split: prod.split_asm dest!: swc_decide_range)

interpretation tb_dec: decision_maker "\<lambda>(oc, C, L). tb_plan oc C L" "\<lambda>(oc, C, L). f64_as_i64 (tb_capacity L)"
  by unfold_locales
    (auto simp: planned_def tb_plan_def and_then_eq_Inr Let_def decision_ok_def is_i64_f64_as_i64
      split: prod.split_asm dest!: tb_decide_range)

interpretation lb_dec: decision_maker "\<lambda>(oc, C, L). lb_plan oc C L" "\<lambda>(oc, C, L). u64_as_i64 (lb_capacity L)"
  by unfold_locales
    (auto simp: planned_def lb_plan_def and_then_eq_Inr Let_def decision_ok_def is_i64_f64_as_i64
      split: prod.split_asm dest!: lb_decide_range)

end
