(* ===== verification/Etcd_Store.thy ===== *)
theory Etcd_Store
  imports Concurrent Fixed_Window
begin

text \<open>
  \<open>src/store/etcd.rs\<close>: the distributed store. The crate \<open>etcd_client\<close> and the cluster behind
  it are not part of the repository: a client is a record of operations over the state \<open>'c\<close> of
  the cluster, each of which may fail. \<open>etcd_laws\<close> states etcd's documented guarantees:
  linearizable reads, atomic transactions, growing revisions; a request that fails may or may
  not have taken effect.
\<close>

section \<open>The client\<close>

record etcd_kv =
  kv_value :: bytes
  kv_mod_revision :: i64

datatype compare_op = Cmp_Equal
datatype compare = Create_Revision string compare_op i64 | Mod_Revision string compare_op i64
datatype txn_op = Txn_Put string bytes

record txn_response =
  tr_succeeded :: bool
  tr_revision :: "i64 option"  \<comment> \<open>of the response header, when there is one\<close>

record 'c etcd_client =
  ec_get :: "string \<Rightarrow> nat option \<Rightarrow> 'c \<Rightarrow> etcd_kv list option \<times> 'c"
  ec_put :: "string \<Rightarrow> bytes \<Rightarrow> 'c \<Rightarrow> i64 option option \<times> 'c"
  ec_txn :: "compare list \<Rightarrow> txn_op list \<Rightarrow> 'c \<Rightarrow> txn_response option \<times> 'c"

section \<open>The store\<close>

record etcd_store =
  es_prefix :: string

definition full_key :: "etcd_store \<Rightarrow> string \<Rightarrow> string" where
  "full_key E key = es_prefix E @ ''/'' @ key"

definition etcd_get :: "'c etcd_client \<Rightarrow> etcd_store \<Rightarrow> string \<Rightarrow> 'c \<Rightarrow> (bytes \<times> i64) option \<times> 'c" where
  "etcd_get K E key c =
     (case ec_get K (full_key E key) None c of (resp, c') \<Rightarrow>
        ((case resp of None \<Rightarrow> None
          | Some [] \<Rightarrow> None
          | Some (kv # _) \<Rightarrow> Some (kv_value kv, kv_mod_revision kv)), c'))"

definition etcd_put :: "'c etcd_client \<Rightarrow> etcd_store \<Rightarrow> string \<Rightarrow> bytes \<Rightarrow> 'c \<Rightarrow> i64 \<times> 'c" where
  "etcd_put K E key value c =
     (case ec_put K (full_key E key) value c of (resp, c') \<Rightarrow>
        ((case resp of Some (Some r) \<Rightarrow> r | _ \<Rightarrow> 0), c'))"

definition etcd_condition :: "string \<Rightarrow> i64 option \<Rightarrow> compare" where
  "etcd_condition fk expected =
     (case expected of
        None \<Rightarrow> Create_Revision fk Cmp_Equal 0
      | Some v \<Rightarrow> Mod_Revision fk Cmp_Equal v)"

definition etcd_cas :: "'c etcd_client \<Rightarrow> etcd_store \<Rightarrow> string \<Rightarrow> i64 option \<Rightarrow> bytes \<Rightarrow> 'c
    \<Rightarrow> cas_result \<times> 'c" where
  "etcd_cas K E key expected value c =
     (let fk = full_key E key in
      case ec_txn K [etcd_condition fk expected] [Txn_Put fk value] c of (resp, c') \<Rightarrow>
        let failed = (case ec_get K fk None c' of (got, c'') \<Rightarrow>
              (\<lparr>cr_success = False,
                cr_version = (case got of Some (kv # _) \<Rightarrow> kv_mod_revision kv | _ \<Rightarrow> 0)\<rparr>, c''))
        in (case resp of
              Some r \<Rightarrow>
                (if tr_succeeded r
                 then (\<lparr>cr_success = True,
                        cr_version = (case tr_revision r of Some v \<Rightarrow> v | None \<Rightarrow> 0)\<rparr>, c')
                 else failed)
            | None \<Rightarrow> failed))"

definition etcd_ping :: "'c etcd_client \<Rightarrow> 'c \<Rightarrow> bool \<times> 'c" where
  "etcd_ping K c = (case ec_get K ''__ping__'' (Some 1) c of (resp, c') \<Rightarrow> (resp \<noteq> None, c'))"

definition etcd_ops :: "'c etcd_client \<Rightarrow> etcd_store \<Rightarrow> 'c state_store" where
  "etcd_ops K E = \<lparr>ss_get = etcd_get K E, ss_put = etcd_put K E, ss_cas = etcd_cas K E,
     ss_ping = etcd_ping K\<rparr>"

section \<open>What etcd guarantees\<close>

text \<open>
  \<open>data c k\<close> is the value of a key and the revision that wrote it; \<open>rv c\<close> is the cluster's
  revision. \<open>holds\<close> is the condition of a transaction, for the two kinds the store builds; an
  absent key has modification revision 0.
\<close>

type_synonym 'c etcd_data = "'c \<Rightarrow> string \<Rightarrow> (bytes \<times> i64) option"

definition holds :: "(string \<Rightarrow> (bytes \<times> i64) option) \<Rightarrow> string \<Rightarrow> i64 option \<Rightarrow> bool" where
  "holds d k expected \<longleftrightarrow> (case expected of
      None \<Rightarrow> d k = None
    | Some v \<Rightarrow> (case d k of None \<Rightarrow> v = 0 | Some (_, m) \<Rightarrow> m = v))"

definition written :: "'c etcd_data \<Rightarrow> ('c \<Rightarrow> int) \<Rightarrow> string \<Rightarrow> bytes \<Rightarrow> 'c \<Rightarrow> 'c \<Rightarrow> i64 \<Rightarrow> bool" where
  "written data rv k b c c' v \<longleftrightarrow> rv c < v \<and> v \<le> rv c' \<and> data c' = (data c)(k \<mapsto> (b, v))"

definition etcd_laws :: "'c etcd_client \<Rightarrow> 'c etcd_data \<Rightarrow> ('c \<Rightarrow> int) \<Rightarrow> ('c \<Rightarrow> bool) \<Rightarrow> bool" where
  "etcd_laws K data rv ok \<longleftrightarrow>
     (\<forall>c k b v. ok c \<longrightarrow> data c k = Some (b, v) \<longrightarrow> 0 < v \<and> v \<le> rv c) \<and>
     (\<forall>c k opt r c'. ok c \<longrightarrow> ec_get K k opt c = (r, c') \<longrightarrow>
        ok c' \<and> data c' = data c \<and> rv c \<le> rv c' \<and>
        (r = None \<or> r = Some (case data c k of None \<Rightarrow> []
           | Some (b, v) \<Rightarrow> [\<lparr>kv_value = b, kv_mod_revision = v\<rparr>]))) \<and>
     (\<forall>c k e b r c'. ok c \<longrightarrow> ec_txn K [etcd_condition k e] [Txn_Put k b] c = (r, c') \<longrightarrow>
        ok c' \<and> rv c \<le> rv c' \<and>
        (case r of
           Some resp \<Rightarrow>
             if tr_succeeded resp
             then holds (data c) k e \<and> (\<exists>v. tr_revision resp = Some v \<and> written data rv k b c c' v)
             else \<not> holds (data c) k e \<and> data c' = data c
         | None \<Rightarrow> data c' = data c \<or> holds (data c) k e \<and> (\<exists>v. written data rv k b c c' v)))"

lemma etcd_laws_data: "etcd_laws K data rv ok \<Longrightarrow> ok c \<Longrightarrow> data c k = Some (b, v) \<Longrightarrow> 0 < v \<and> v \<le> rv c"
  unfolding etcd_laws_def by blast

lemma etcd_laws_get:
  "etcd_laws K data rv ok \<Longrightarrow> ok c \<Longrightarrow> ec_get K k opt c = (r, c') \<Longrightarrow>
    ok c' \<and> data c' = data c \<and> rv c \<le> rv c' \<and>
    (r = None \<or> r = Some (case data c k of None \<Rightarrow> [] | Some (b, v) \<Rightarrow> [\<lparr>kv_value = b, kv_mod_revision = v\<rparr>]))"
  unfolding etcd_laws_def by blast

lemma etcd_laws_txn:
  "etcd_laws K data rv ok \<Longrightarrow> ok c \<Longrightarrow> ec_txn K [etcd_condition k e] [Txn_Put k b] c = (r, c') \<Longrightarrow>
    ok c' \<and> rv c \<le> rv c' \<and>
    (case r of
       Some resp \<Rightarrow>
         if tr_succeeded resp
         then holds (data c) k e \<and> (\<exists>v. tr_revision resp = Some v \<and> written data rv k b c c' v)
         else \<not> holds (data c) k e \<and> data c' = data c
     | None \<Rightarrow> data c' = data c \<or> holds (data c) k e \<and> (\<exists>v. written data rv k b c c' v))"
  unfolding etcd_laws_def by blast

section \<open>The store keeps the contract\<close>

definition etcd_view :: "'c etcd_data \<Rightarrow> etcd_store \<Rightarrow> 'c \<Rightarrow> string \<Rightarrow> (bytes \<times> i64) option" where
  "etcd_view data E c k = data c (full_key E k)"

lemma full_key_inject [simp]: "full_key E k = full_key E k' \<longleftrightarrow> k = k'"
  by (simp add: full_key_def)

lemma etcd_view_written:
  "data c' = (data c)(full_key E k \<mapsto> e) \<Longrightarrow> etcd_view data E c' = (etcd_view data E c)(k \<mapsto> e)"
  by (auto simp: etcd_view_def fun_eq_iff)

lemma holds_expects: "e \<noteq> Some 0 \<Longrightarrow> holds d k e \<longleftrightarrow> expects e (d k)"
  by (auto simp: holds_def expects_def split: option.splits)

lemma etcd_get_spec:
  assumes "etcd_laws K data rv ok" "ok c" "etcd_get K E k c = (g, c')"
  shows "ok c' \<and> data c' = data c \<and> rv c \<le> rv c' \<and> (g = None \<or> g = etcd_view data E c k)"
proof -
  obtain r where get: "ec_get K (full_key E k) None c = (r, c')"
    using assms(3) by (auto simp: etcd_get_def split: prod.splits)
  from etcd_laws_get [OF assms(1,2) get] assms(3) get show ?thesis
    by (auto simp: etcd_get_def etcd_view_def split: option.splits)
qed

text \<open>A compare-and-swap that reports success has taken effect; one that does not may have.\<close>

lemma etcd_cas_spec:
  assumes laws: "etcd_laws K data rv ok" and ok: "ok c" and cas: "etcd_cas K E k e b c = (r, c')"
  shows "ok c' \<and> rv c \<le> rv c' \<and>
    (if cr_success r
     then holds (data c) (full_key E k) e \<and> written data rv (full_key E k) b c c' (cr_version r)
     else data c' = data c \<or> holds (data c) (full_key E k) e \<and> (\<exists>v. written data rv (full_key E k) b c c' v))"
proof -
  let ?fk = "full_key E k"
  obtain resp c1 where txn: "ec_txn K [etcd_condition ?fk e] [Txn_Put ?fk b] c = (resp, c1)" by fastforce
  obtain got c2 where get: "ec_get K ?fk None c1 = (got, c2)" by fastforce
  note T = etcd_laws_txn [OF laws ok txn]
  then have ok1: "ok c1" by blast
  note G = etcd_laws_get [OF laws ok1 get]
  have keep: "written data rv ?fk b c c2 v" if "written data rv ?fk b c c1 v" for v
    using that G by (auto simp: written_def)
  show ?thesis
  proof (cases "\<exists>x. resp = Some x \<and> tr_succeeded x")
    case True
    with T cas txn show ?thesis by (auto simp: etcd_cas_def Let_def)
  next
    case False
    then have "r = \<lparr>cr_success = False, cr_version = cr_version r\<rparr>" "c' = c2"
      using cas txn get by (auto simp: etcd_cas_def Let_def split: option.splits)
    then have "\<not> cr_success r" by (metis cas_result.select_convs(1))
    with False T G keep \<open>c' = c2\<close> show ?thesis
      by (cases resp) (auto split: if_splits)
  qed
qed

lemma etcd_versioned:
  assumes laws: "etcd_laws K data rv ok"
  shows "versioned_store (etcd_ops K E) (etcd_view data E) ok (\<lambda>_. True) (\<lambda>c. rv c + 1)"
proof (unfold_locales, goal_cases)
  case (1 c k b v)
  with etcd_laws_data [OF laws] show ?case by (fastforce simp: etcd_view_def)
next
  case (2 c k g c')
  with etcd_get_spec [OF laws] show ?case by (simp add: etcd_ops_def etcd_view_def fun_eq_iff)
next
  case (3 c k g c')
  with etcd_get_spec [OF laws] show ?case by (simp add: etcd_ops_def)
next
  case (4 c k e b r c')
  with etcd_cas_spec [OF laws] show ?case by (simp add: etcd_ops_def)
next
  case (5 c k e b r c')
  with etcd_cas_spec [OF laws, of c E k e b r c'] show ?case
    by (auto simp: etcd_ops_def written_def holds_expects etcd_view_def [symmetric] intro: etcd_view_written)
next
  case (6 c k e b r c')
  with etcd_cas_spec [OF laws, of c E k e b r c'] have
    "data c' = data c \<or> holds (data c) (full_key E k) e \<and> (\<exists>v. written data rv (full_key E k) b c c' v)"
    by (simp add: etcd_ops_def)
  then show ?case
  proof (elim disjE conjE exE)
    fix v assume hold: "holds (data c) (full_key E k) e" and w: "written data rv (full_key E k) b c c' v"
    from w have "etcd_view data E c' = (etcd_view data E c)(k \<mapsto> (b, v))" "rv c + 1 \<le> v"
      by (auto simp: written_def intro: etcd_view_written)
    with hold 6 show ?thesis by (auto simp: holds_expects etcd_view_def)
  qed (simp add: etcd_view_def fun_eq_iff)
qed

lemma etcd_reach_linearized:
  "etcd_laws K data rv ok \<Longrightarrow> ok c0 \<Longrightarrow>
    reach (etcd_ops K E) (etcd_view data E) (\<lambda>_. True) tk c0 \<sigma> \<Longrightarrow> linearized (etcd_view data E) tk c0 \<sigma>"
  by (rule versioned_store.reach_linearized [OF etcd_versioned])

section \<open>A sample cluster\<close>

text \<open>
  A single node that executes every request and loses the replies a script tells it to
  lose. It shows that the laws can hold with failures, and gives the examples below.
\<close>

record cluster =
  cl_data :: "string \<Rightarrow> (bytes \<times> i64) option"
  cl_rev :: i64
  cl_lost :: "bool list"

definition answer :: "'r \<Rightarrow> cluster \<Rightarrow> 'r option \<times> cluster" where
  "answer r c = (if cl_lost c \<noteq> [] \<and> hd (cl_lost c) then None else Some r, c\<lparr>cl_lost := tl (cl_lost c)\<rparr>)"

definition cl_holds :: "(string \<Rightarrow> (bytes \<times> i64) option) \<Rightarrow> compare \<Rightarrow> bool" where
  "cl_holds d cmp = (case cmp of
      Create_Revision k _ v \<Rightarrow> v = 0 \<and> d k = None
    | Mod_Revision k _ v \<Rightarrow> v = (case d k of None \<Rightarrow> 0 | Some (_, m) \<Rightarrow> m))"

definition cl_write :: "txn_op \<Rightarrow> cluster \<Rightarrow> cluster" where
  "cl_write p c = (case p of Txn_Put k b \<Rightarrow>
     c\<lparr>cl_data := (cl_data c)(k \<mapsto> (b, cl_rev c + 1)), cl_rev := cl_rev c + 1\<rparr>)"

definition sample_client :: "cluster etcd_client" where
  "sample_client =
     \<lparr>ec_get = (\<lambda>k _ c. answer (case cl_data c k of None \<Rightarrow> []
         | Some (b, v) \<Rightarrow> [\<lparr>kv_value = b, kv_mod_revision = v\<rparr>]) c),
      ec_put = (\<lambda>k b c. answer (Some (cl_rev c + 1)) (cl_write (Txn_Put k b) c)),
      ec_txn = (\<lambda>cmps ops c.
         if list_all (cl_holds (cl_data c)) cmps
         then answer \<lparr>tr_succeeded = True, tr_revision = Some (cl_rev c + 1)\<rparr> (fold cl_write ops c)
         else answer \<lparr>tr_succeeded = False, tr_revision = Some (cl_rev c)\<rparr> c)\<rparr>"

definition cluster_ok :: "cluster \<Rightarrow> bool" where
  "cluster_ok c \<longleftrightarrow> 0 \<le> cl_rev c \<and> (\<forall>k b v. cl_data c k = Some (b, v) \<longrightarrow> 0 < v \<and> v \<le> cl_rev c)"

definition new_cluster :: "bool list \<Rightarrow> cluster" where
  "new_cluster lost = \<lparr>cl_data = Map.empty, cl_rev = 0, cl_lost = lost\<rparr>"

lemma cl_holds_condition: "cl_holds d (etcd_condition k e) \<longleftrightarrow> holds d k e"
  by (auto simp: cl_holds_def etcd_condition_def holds_def split: option.splits)

lemma cluster_ok_answer [simp]: "cluster_ok (c\<lparr>cl_lost := xs\<rparr>) = cluster_ok c"
  by (simp add: cluster_ok_def)

lemma cluster_ok_write [simp]: "cluster_ok c \<Longrightarrow> cluster_ok (cl_write p c)"
  by (cases p) (fastforce simp: cluster_ok_def cl_write_def split: if_splits)

lemma new_cluster_ok [simp]: "cluster_ok (new_cluster lost)"
  by (simp add: cluster_ok_def new_cluster_def)

lemma cl_written:
  "written cl_data cl_rev k b c (cl_write (Txn_Put k b) c\<lparr>cl_lost := xs\<rparr>) (cl_rev c + 1)"
  by (simp add: written_def cl_write_def)

lemma cl_rev_write: "cl_rev c \<le> cl_rev (cl_write p c)"
  by (cases p) (simp add: cl_write_def)

lemma sample_laws: "etcd_laws sample_client cl_data cl_rev cluster_ok"
  unfolding etcd_laws_def
proof (intro conjI allI impI, goal_cases)
  case (1 c k b v) then show ?case by (auto simp: cluster_ok_def)
next
  case (2 c k b v) then show ?case by (auto simp: cluster_ok_def)
qed (auto simp: sample_client_def answer_def cl_holds_condition cl_rev_write intro: cl_written split: if_splits option.splits)

section \<open>Runs\<close>

definition etcd_run :: "'c etcd_client \<Rightarrow> etcd_store \<Rightarrow> 'c etcd_data \<Rightarrow> 'c \<Rightarrow> (nat \<Rightarrow> task)
    \<Rightarrow> (nat \<times> sys_time) list \<Rightarrow> 'c sys" where
  "etcd_run K E data c0 tk evs = sys_run (etcd_ops K E) (etcd_view data E) tk evs (sys_init c0)"

lemma rooms_True: "rooms S view (\<lambda>_. True) tk evs \<sigma>"
  by (induction evs arbitrary: \<sigma>) simp_all

lemma etcd_run_reach:
  "reach (etcd_ops K E) (etcd_view data E) (\<lambda>_. True) tk c0 (etcd_run K E data c0 tk evs)"
  unfolding etcd_run_def by (intro reach_sys_run reach_init rooms_True)

lemma etcd_run_clocks:
  assumes "\<And>i t. (i, t) \<in> set evs \<Longrightarrow> P t" "c \<in> set (sys_log (etcd_run K E data c0 tk evs))"
  shows "P (c_now c)"
proof -
  have "clocks_in (snd ` set evs) (etcd_run K E data c0 tk evs)"
    unfolding etcd_run_def by (rule clocks_in_run) (auto simp: clocks_in_def sys_init_def)
  with assms show ?thesis by (auto simp: clocks_in_def)
qed

text \<open>The sample's operations in closed form, for examples.\<close>

lemmas cluster_defs = etcd_ops_def etcd_get_def etcd_cas_def sample_client_def answer_def cl_holds_condition
  cl_write_def Let_def

lemma cluster_get:
  "ss_get (etcd_ops sample_client E) k \<lparr>cl_data = d, cl_rev = r, cl_lost = []\<rparr>
    = (d (full_key E k), \<lparr>cl_data = d, cl_rev = r, cl_lost = []\<rparr>)"
  "ss_get (etcd_ops sample_client E) k \<lparr>cl_data = d, cl_rev = r, cl_lost = l # ls\<rparr>
    = (if l then None else d (full_key E k), \<lparr>cl_data = d, cl_rev = r, cl_lost = ls\<rparr>)"
  by (simp_all add: cluster_defs split: option.splits)

lemma cluster_cas_ok:
  "holds d (full_key E k) e \<Longrightarrow>
    ss_cas (etcd_ops sample_client E) k e b \<lparr>cl_data = d, cl_rev = r, cl_lost = []\<rparr>
    = (\<lparr>cr_success = True, cr_version = r + 1\<rparr>,
       \<lparr>cl_data = d(full_key E k \<mapsto> (b, r + 1)), cl_rev = r + 1, cl_lost = []\<rparr>)"
  by (simp add: cluster_defs)

lemma cluster_cas_lost:
  "holds d (full_key E k) e \<Longrightarrow>
    ss_cas (etcd_ops sample_client E) k e b \<lparr>cl_data = d, cl_rev = r, cl_lost = [True]\<rparr>
    = (\<lparr>cr_success = False, cr_version = r + 1\<rparr>,
       \<lparr>cl_data = d(full_key E k \<mapsto> (b, r + 1)), cl_rev = r + 1, cl_lost = []\<rparr>)"
  by (simp add: cluster_defs)

lemmas cluster_steps = etcd_run_def sys_step.simps Let_def sys_init_def set_pc_def next_attempt_def
  planned_def cluster_get cluster_cas_ok cluster_cas_lost etcd_view_def new_cluster_def holds_def

definition lossy :: "(nat \<times> sys_time) list" where
  \<comment> \<open>one call retries after a lost reply, then another arrives\<close>
  "lossy = [(0, 5), (0, 5), (0, 5), (0, 6), (0, 6), (0, 6), (1, 7), (1, 7), (1, 7)]"

lemma lossy_run:
  assumes "codec_roundtrip C"
  shows "map (\<lambda>c. (c_task c, c_now c, d_allowed (c_decision c), c_acked c))
    (sys_log (etcd_run sample_client E cl_data (new_cluster [False, True])
      (fw_task C (fw_new 2 60)) lossy)) = [(0, 5, True, False), (0, 6, True, True), (1, 7, False, True)]"
  using assms by (simp add: lossy_def cluster_steps fw_eval cong: if_cong)

section \<open>Properties\<close>

text \<open>C23. Calls over etcd are linearizable although requests fail: whatever the schedule and
  whichever replies are lost, what a key holds is what the logged plans leave one after
  another; a returned decision is the fallback or an acknowledged entry of the same call,
  and no call has two of those.\<close>

theorem etcd_calls_linearizable:
  assumes "etcd_laws K data rv ok" "ok c0"
  shows "linearized (etcd_view data E) tk c0 (etcd_run K E data c0 tk evs) \<and>
    reports tk (etcd_run K E data c0 tk evs)"
  by (rule conjI [OF etcd_reach_linearized [OF assms etcd_run_reach] reach_reports [OF etcd_run_reach]])

theorem etcd_calls_linearizable_witness:
  "linearized (etcd_view cl_data \<lparr>es_prefix = ''p''\<rparr>) tick_task (new_cluster [False, True])
    (etcd_run sample_client \<lparr>es_prefix = ''p''\<rparr> cl_data (new_cluster [False, True]) tick_task tick_schedule)"
  using etcd_calls_linearizable [OF sample_laws new_cluster_ok, of "\<lparr>es_prefix = ''p''\<rparr>" tick_task
      "[False, True]" tick_schedule] by simp

text \<open>C24. The fixed window keeps its promise across replicas that share an etcd cluster: a lost
  reply can charge a request twice but can never admit more than \<open>max_requests\<close> in a
  window whose commits come in order.\<close>

theorem fw_etcd_budget:
  assumes "etcd_laws K data rv ok" "ok c0" "etcd_view data E c0 k = None"
    and "fw_wf L" "codec_roundtrip C"
    and "\<And>i t. (i, t) \<in> set evs \<Longrightarrow> clock_ok t"
    and "\<And>i. t_key (tk i) = k \<Longrightarrow> t_plan (tk i) = fw_plan oc C L (cost i)"
    and "commits_in_order tk (fw_window L) k (sys_log (etcd_run K E data c0 tk evs))"
  shows "admitted w (window_events tk cost (fw_window L) k (sys_log (etcd_run K E data c0 tk evs)))
    \<le> fw_max L"
proof -
  have "replay_ok tk k None (sys_log (etcd_run K E data c0 tk evs))"
    using etcd_reach_linearized [OF assms(1,2) etcd_run_reach, of E tk evs] assms(3)
    by (auto simp: linearized_def contents_def dest: spec [of _ k])
  then show ?thesis
    using fw.admitted_quota [of "(oc, C, L)" tk k cost "sys_log (etcd_run K E data c0 tk evs)" w]
      etcd_run_clocks [of evs clock_ok _ K E data c0 tk] assms
    by (simp add: fw_plan_of_def)
qed

theorem fw_etcd_budget_witness:
  "admitted 0 (window_events (fw_task fw_sample (fw_new 2 60)) (\<lambda>_. 1) (fw_window (fw_new 2 60))
    (fw_key ''a'' ''r'') (sys_log (etcd_run sample_client \<lparr>es_prefix = ''p''\<rparr> cl_data
      (new_cluster [False, True]) (fw_task fw_sample (fw_new 2 60)) lossy))) \<le> 2"
proof -
  let ?tk = "fw_task fw_sample (fw_new 2 60)" and ?E = "\<lparr>es_prefix = ''p''\<rparr>" and ?c = "new_cluster [False, True]"
  let ?log = "sys_log (etcd_run sample_client ?E cl_data ?c ?tk lossy)"
  have "\<exists>c0 c1 c2. ?log = [c0, c1, c2] \<and> c_now c0 = 5 \<and> c_now c1 = 6 \<and> c_now c2 = 7"
    using lossy_run [OF fw_sample_roundtrip, of ?E] by (auto simp: map_eq_Cons_conv)
  then have "commits_in_order ?tk (fw_window (fw_new 2 60)) (fw_key ''a'' ''r'') ?log"
    by (auto simp: commits_in_order_def on_key_def fw_task_def secs_def)
  then have "admitted 0 (window_events ?tk (\<lambda>_. 1) (fw_window (fw_new 2 60)) (fw_key ''a'' ''r'') ?log)
      \<le> fw_max (fw_new 2 60)"
    by (intro fw_etcd_budget [where oc = False and C = fw_sample, OF sample_laws new_cluster_ok])
      (auto simp: fw_wf_def fw_new_def fw_task_def lossy_def clock_ok_def etcd_view_def new_cluster_def)
  then show ?thesis by (simp add: fw_new_def)
qed



end
