(* ===== verification/Text.thy ===== *)
theory Text
  imports Prelude
begin

text \<open>
  Facts about the strings the program prints: which characters a number is made of, how
  long it is, and when two strings joined by a separator can be told apart.
\<close>

definition printable :: "string \<Rightarrow> bool" where
  \<comment> \<open>visible ASCII and the space\<close>
  "printable s \<longleftrightarrow> (\<forall>c \<in> set s. 32 \<le> (of_char c :: nat) \<and> (of_char c :: nat) < 127)"

lemma printable_simps [simp]:
  "printable []"
  "printable (c # s) \<longleftrightarrow> (32 \<le> (of_char c :: nat) \<and> (of_char c :: nat) < 127) \<and> printable s"
  "printable (s @ t) \<longleftrightarrow> printable s \<and> printable t"
  by (auto simp: printable_def)

lemma show_nat_digits: "c \<in> set (show_nat n) \<Longrightarrow> \<exists>d < 10. c = digit d"
proof (induction n rule: show_nat.induct)
  case (1 n)
  have "\<exists>d < 10. digit (n mod 10) = digit d" by (rule exI [of _ "n mod 10"]) simp
  with 1 show ?case by (auto simp: show_nat.simps [of n] split: if_splits)
qed

lemma show_int_chars: "c \<in> set (show_int i) \<Longrightarrow> c = CHR ''-'' \<or> (\<exists>d < 10. c = digit d)"
  by (auto simp: show_int_def split: if_splits dest: show_nat_digits)

lemma printable_show_nat [simp]: "printable (show_nat n)"
  by (auto simp: printable_def of_char_digit dest!: show_nat_digits)

lemma printable_show_int [simp]: "printable (show_int i)"
  by (simp add: show_int_def)

lemma digit_not: "d < 10 \<Longrightarrow> (of_char c :: nat) < 48 \<or> 58 \<le> (of_char c :: nat) \<Longrightarrow> digit d \<noteq> c"
  using of_char_digit [of d] by auto

lemma show_nat_no_dash: "CHR ''-'' # s \<noteq> show_nat n"
proof
  assume "CHR ''-'' # s = show_nat n"
  then have "CHR ''-'' \<in> set (show_nat n)" by (metis list.set_intros(1))
  from show_nat_digits [OF this] obtain d where "d < 10" "CHR ''-'' = digit d" by blast
  moreover have "digit d \<noteq> CHR ''-''" by (rule digit_not [OF \<open>d < 10\<close>]) simp
  ultimately show False by simp
qed

lemma show_int_inject: "show_int i = show_int j \<Longrightarrow> i = j"
  using show_nat_no_dash show_nat_no_dash [symmetric]
  by (fastforce simp: show_int_def split: if_splits dest!: show_nat_inject)

lemma bar_not_in_show [simp]: "CHR ''|'' \<notin> set (show_int i)" "CHR ''|'' \<notin> set (show_bool b)"
  using digit_not [of _ "CHR ''|''"] by (fastforce dest: show_int_chars) (simp add: show_bool_def)

lemma show_bool_inject: "show_bool a = show_bool b \<Longrightarrow> a = b"
  by (simp add: show_bool_def split: if_splits)

lemma length_show_nat: "n < 10 ^ Suc k \<Longrightarrow> length (show_nat n) \<le> Suc k"
proof (induction k arbitrary: n)
  case (Suc k)
  show ?case
  proof (cases "n < 10")
    case False
    have "n div 10 < 10 ^ Suc k" using Suc.prems by (simp add: less_mult_imp_div_less)
    from Suc.IH [OF this] False show ?thesis by (subst show_nat.simps) simp
  qed (subst show_nat.simps, simp)
qed (subst show_nat.simps, simp)

lemma length_show_u64: "length (show_u64 w) \<le> 20"
proof -
  have "unat w < 2 ^ 64" using unsigned_less [of w] by simp
  then have "unat w < 10 ^ Suc 19" by simp
  from length_show_nat [OF this] show ?thesis by (simp add: show_u64_def)
qed

lemma length_show_int: "is_i64 i \<Longrightarrow> length (show_int i) \<le> 21"
proof -
  assume "is_i64 i"
  then have "nat (- i) < 10 ^ Suc 19" "nat i < 10 ^ Suc 19" by (auto simp: is_i64_def)
  from this [THEN length_show_nat] show ?thesis by (simp add: show_int_def)
qed

text \<open>The first separator ends the first field.\<close>

lemma append_sep_eq:
  "x \<notin> set a \<Longrightarrow> x \<notin> set a' \<Longrightarrow> a @ x # b = a' @ x # b' \<longleftrightarrow> a = a' \<and> b = b'"
proof (induction a arbitrary: a')
  case Nil
  then show ?case by (cases a') auto
next
  case (Cons y a)
  then show ?case by (cases a') auto
qed

end
