(* ===== verification/Service.thy ===== *)
theory Service
  imports Decisions Etcd_Store Text
begin

text \<open>
  \<open>src/config.rs\<close> and \<open>src/main.rs\<close>: the configuration with its defaults, and the start-up
  that builds the store, the limiter, the addresses and the signing key from it. Files,
  the YAML parser, the environment and the network are the parameters of \<open>main_env\<close>.
\<close>

section \<open>Configuration\<close>

datatype algorithm = FixedWindow | SlidingWindowLog | SlidingWindowCounter | TokenBucket | LeakyBucket

record server_config =
  sc_host :: string
  sc_port :: "16 word"
  sc_http_port :: "16 word"
  sc_strict_security :: bool

record etcd_config =
  ec_endpoints :: "string list"
  ec_key_prefix :: string

record rate_limiter_config =
  rc_algorithm :: algorithm
  rc_max_requests :: u64
  rc_window_secs :: u64
  rc_bucket_capacity :: f64
  rc_refill_rate :: f64
  rc_leak_rate :: f64
  rc_queue_capacity :: u64

record config =
  cf_server :: server_config
  cf_etcd :: "etcd_config option"
  cf_rate_limiter :: rate_limiter_config

definition default_http_port :: "16 word" where "default_http_port = 8080"
definition default_key_prefix :: string where "default_key_prefix = ''rate-limiting''"
definition default_max_requests :: u64 where "default_max_requests = 100"
definition default_window_secs :: u64 where "default_window_secs = 1"
definition default_bucket_capacity :: f64 where "default_bucket_capacity = Num 100"
definition default_refill_rate :: f64 where "default_refill_rate = Num 10"
definition default_leak_rate :: f64 where "default_leak_rate = Num 10"
definition default_queue_capacity :: u64 where "default_queue_capacity = 100"

text \<open>
  The derived \<open>Deserialize\<close>: the parser gives each field of the document or nothing; a
  missing field takes its default, a missing field without one is an error.
\<close>

record yaml_server =
  ys_host :: "string option"
  ys_port :: "16 word option"
  ys_http_port :: "16 word option"
  ys_strict_security :: "bool option"

record yaml_etcd =
  ye_endpoints :: "string list option"
  ye_key_prefix :: "string option"

record yaml_limiter =
  yl_algorithm :: "string option"
  yl_max_requests :: "u64 option"
  yl_window_secs :: "u64 option"
  yl_bucket_capacity :: "f64 option"
  yl_refill_rate :: "f64 option"
  yl_leak_rate :: "f64 option"
  yl_queue_capacity :: "u64 option"

record yaml_config =
  yc_server :: "yaml_server option"
  yc_etcd :: "yaml_etcd option"
  yc_rate_limiter :: "yaml_limiter option"

definition or_default :: "'a option \<Rightarrow> 'a \<Rightarrow> 'a" where
  "or_default x d = (case x of None \<Rightarrow> d | Some a \<Rightarrow> a)"

lemma or_default_simps [simp]: "or_default None d = d" "or_default (Some a) d = a"
  by (simp_all add: or_default_def)

definition algorithm_of_name :: "string \<Rightarrow> algorithm option" where
  "algorithm_of_name s =
     (if s = ''fixed_window'' then Some FixedWindow
      else if s = ''sliding_window_log'' then Some SlidingWindowLog
      else if s = ''sliding_window_counter'' then Some SlidingWindowCounter
      else if s = ''token_bucket'' then Some TokenBucket
      else if s = ''leaky_bucket'' then Some LeakyBucket
      else None)"

definition server_config_of :: "yaml_server \<Rightarrow> server_config option" where
  "server_config_of y =
     Option.bind (ys_host y) (\<lambda>host.
     Option.bind (ys_port y) (\<lambda>port.
       Some \<lparr>sc_host = host, sc_port = port, sc_http_port = or_default (ys_http_port y) default_http_port,
         sc_strict_security = or_default (ys_strict_security y) False\<rparr>))"

definition etcd_config_of :: "yaml_etcd \<Rightarrow> etcd_config option" where
  "etcd_config_of y =
     Option.bind (ye_endpoints y) (\<lambda>endpoints.
       Some \<lparr>ec_endpoints = endpoints, ec_key_prefix = or_default (ye_key_prefix y) default_key_prefix\<rparr>)"

definition limiter_config_of :: "yaml_limiter \<Rightarrow> rate_limiter_config option" where
  "limiter_config_of y =
     Option.bind (Option.bind (yl_algorithm y) algorithm_of_name) (\<lambda>alg.
       Some \<lparr>rc_algorithm = alg,
         rc_max_requests = or_default (yl_max_requests y) default_max_requests,
         rc_window_secs = or_default (yl_window_secs y) default_window_secs,
         rc_bucket_capacity = or_default (yl_bucket_capacity y) default_bucket_capacity,
         rc_refill_rate = or_default (yl_refill_rate y) default_refill_rate,
         rc_leak_rate = or_default (yl_leak_rate y) default_leak_rate,
         rc_queue_capacity = or_default (yl_queue_capacity y) default_queue_capacity\<rparr>)"

definition config_of :: "yaml_config \<Rightarrow> config option" where
  "config_of y =
     Option.bind (Option.bind (yc_server y) server_config_of) (\<lambda>server.
     Option.bind (case yc_etcd y of None \<Rightarrow> Some None | Some e \<Rightarrow> map_option Some (etcd_config_of e)) (\<lambda>etcd.
     Option.bind (Option.bind (yc_rate_limiter y) limiter_config_of) (\<lambda>rl.
       Some \<lparr>cf_server = server, cf_etcd = etcd, cf_rate_limiter = rl\<rparr>)))"

section \<open>The store and the limiter\<close>

text \<open>The world behind the shared store: the cluster the process talks to and its own memory.\<close>

record 'c backing =
  bk_cluster :: 'c
  bk_local :: local_store

definition on_cluster :: "'c state_store \<Rightarrow> 'c backing state_store" where
  "on_cluster S =
     \<lparr>ss_get = (\<lambda>k w. apsnd (\<lambda>c. w\<lparr>bk_cluster := c\<rparr>) (ss_get S k (bk_cluster w))),
      ss_put = (\<lambda>k b w. apsnd (\<lambda>c. w\<lparr>bk_cluster := c\<rparr>) (ss_put S k b (bk_cluster w))),
      ss_cas = (\<lambda>k e b w. apsnd (\<lambda>c. w\<lparr>bk_cluster := c\<rparr>) (ss_cas S k e b (bk_cluster w))),
      ss_ping = (\<lambda>w. apsnd (\<lambda>c. w\<lparr>bk_cluster := c\<rparr>) (ss_ping S (bk_cluster w)))\<rparr>"

definition on_local :: "local_store state_store \<Rightarrow> 'c backing state_store" where
  "on_local S =
     \<lparr>ss_get = (\<lambda>k w. apsnd (\<lambda>s. w\<lparr>bk_local := s\<rparr>) (ss_get S k (bk_local w))),
      ss_put = (\<lambda>k b w. apsnd (\<lambda>s. w\<lparr>bk_local := s\<rparr>) (ss_put S k b (bk_local w))),
      ss_cas = (\<lambda>k e b w. apsnd (\<lambda>s. w\<lparr>bk_local := s\<rparr>) (ss_cas S k e b (bk_local w))),
      ss_ping = (\<lambda>w. apsnd (\<lambda>s. w\<lparr>bk_local := s\<rparr>) (ss_ping S (bk_local w)))\<rparr>"

definition etcd_connect :: "(string list \<Rightarrow> 'c etcd_client option) \<Rightarrow> string list \<Rightarrow> string
    \<Rightarrow> ('c etcd_client \<times> etcd_store) option" where
  "etcd_connect connect endpoints key_prefix =
     Option.bind (connect endpoints) (\<lambda>client. Some (client, \<lparr>es_prefix = key_prefix\<rparr>))"

definition build_store :: "(string list \<Rightarrow> 'c etcd_client option) \<Rightarrow> config \<Rightarrow> 'c backing state_store option" where
  "build_store connect cfg =
     (case cf_etcd cfg of
        Some e \<Rightarrow> map_option (\<lambda>(client, E). on_cluster (etcd_ops client E))
          (etcd_connect connect (ec_endpoints e) (ec_key_prefix e))
      | None \<Rightarrow> Some (on_local local_ops))"

record codecs =
  co_fw :: "fw_state codec"
  co_swl :: "swl_state codec"
  co_swc :: "swc_state codec"
  co_tb :: "tb_state codec"
  co_lb :: "lb_state codec"

text \<open>
  A limiter acts on the world of its store and on the environments its calls will find:
  the \<open>n\<close>-th call meets the \<open>n\<close>-th environment.
\<close>

type_synonym 'w timed = "'w \<times> (nat \<Rightarrow> 'w env)"

definition timed_check :: "('w env \<Rightarrow> string \<Rightarrow> string \<Rightarrow> u32 \<Rightarrow> 'w \<Rightarrow> decision res \<times> 'w)
    \<Rightarrow> string \<Rightarrow> string \<Rightarrow> u32 \<Rightarrow> 'w timed \<Rightarrow> decision res \<times> 'w timed" where
  "timed_check chk cid res cost we =
     (case we of (w, envs) \<Rightarrow> (case chk (envs 0) cid res cost w of (r, w') \<Rightarrow> (r, (w', \<lambda>n. envs (Suc n)))))"

definition build_limiter :: "bool \<Rightarrow> codecs \<Rightarrow> rate_limiter_config \<Rightarrow> 'w state_store
    \<Rightarrow> 'w timed rate_limiter res" where
  "build_limiter oc C rl S =
     (case rc_algorithm rl of
        FixedWindow \<Rightarrow>
          let L = fw_new (rc_max_requests rl) (rc_window_secs rl)
          in Inr \<lparr>rl_check = timed_check (fw_check oc (co_fw C) S L), rl_name = fw_name\<rparr>
      | SlidingWindowLog \<Rightarrow>
          and_then (swl_new oc (rc_max_requests rl) (rc_window_secs rl)) (\<lambda>L.
            Inr \<lparr>rl_check = timed_check (swl_check oc (co_swl C) S L), rl_name = swl_name\<rparr>)
      | SlidingWindowCounter \<Rightarrow>
          let L = swc_new (rc_max_requests rl) (rc_window_secs rl)
          in Inr \<lparr>rl_check = timed_check (swc_check oc (co_swc C) S L), rl_name = swc_name\<rparr>
      | TokenBucket \<Rightarrow>
          let L = tb_new (rc_bucket_capacity rl) (rc_refill_rate rl)
          in Inr \<lparr>rl_check = timed_check (tb_check oc (co_tb C) S L), rl_name = tb_name\<rparr>
      | LeakyBucket \<Rightarrow>
          let L = lb_new (rc_leak_rate rl) (rc_queue_capacity rl)
          in Inr \<lparr>rl_check = timed_check (lb_check oc (co_lb C) S L), rl_name = lb_name\<rparr>)"

section \<open>Start-up\<close>

datatype start_error = Reading_Config | Parsing_Config | Connecting_Etcd | Binding_Tcp

record 'c main_env =
  me_args :: "string list"
  me_read_file :: "string \<Rightarrow> string option"
  me_parse_yaml :: "string \<Rightarrow> yaml_config option"
  me_connect :: "string list \<Rightarrow> 'c etcd_client option"
  me_bind :: "string \<Rightarrow> bool"
  me_hmac_var :: "string option"

record 'c service =
  sv_store :: "'c backing state_store"
  sv_limiter :: "'c backing timed rate_limiter"
  sv_tcp_addr :: string
  sv_http_addr :: string
  sv_hmac_secret :: "string option"

definition show_port :: "16 word \<Rightarrow> string" where
  "show_port p = show_nat (unat p)"

definition resolve_hmac :: "server_config \<Rightarrow> string option \<Rightarrow> string option" where
  "resolve_hmac sc var =
     (if sc_strict_security sc
      then (case var of Some s \<Rightarrow> if s \<noteq> [] then Some s else None | None \<Rightarrow> None)
      else None)"

definition main_start :: "bool \<Rightarrow> codecs \<Rightarrow> 'c main_env \<Rightarrow> (start_error + 'c service) res" where
  "main_start oc C E =
     (let config_path = (if 1 < length (me_args E) then me_args E ! 1 else ''config.yaml'') in
      case me_read_file E config_path of None \<Rightarrow> Inr (Inl Reading_Config) | Some config_str \<Rightarrow>
      case Option.bind (me_parse_yaml E config_str) config_of of None \<Rightarrow> Inr (Inl Parsing_Config) | Some cfg \<Rightarrow>
      case build_store (me_connect E) cfg of None \<Rightarrow> Inr (Inl Connecting_Etcd) | Some store \<Rightarrow>
      and_then (build_limiter oc C (cf_rate_limiter cfg) store) (\<lambda>limiter.
        let tcp_addr = sc_host (cf_server cfg) @ '':'' @ show_port (sc_port (cf_server cfg));
            http_addr = sc_host (cf_server cfg) @ '':'' @ show_port (sc_http_port (cf_server cfg))
        in if me_bind E tcp_addr
           then Inr (Inr \<lparr>sv_store = store, sv_limiter = limiter, sv_tcp_addr = tcp_addr,
             sv_http_addr = http_addr, sv_hmac_secret = resolve_hmac (cf_server cfg) (me_hmac_var E)\<rparr>)
           else Inr (Inl Binding_Tcp)))"

section \<open>What every limiter keeps\<close>

definition service_quota :: "rate_limiter_config \<Rightarrow> i64" where
  "service_quota rl =
     (case rc_algorithm rl of
        TokenBucket \<Rightarrow> f64_as_i64 (rc_bucket_capacity rl)
      | LeakyBucket \<Rightarrow> u64_as_i64 (rc_queue_capacity rl)
      | _ \<Rightarrow> u64_as_i64 (rc_max_requests rl))"

text \<open>The store key of a request, by algorithm.\<close>

definition algorithm_key :: "algorithm \<Rightarrow> string \<Rightarrow> string \<Rightarrow> string" where
  "algorithm_key alg =
     (case alg of FixedWindow \<Rightarrow> fw_key | SlidingWindowLog \<Rightarrow> swl_key | SlidingWindowCounter \<Rightarrow> swc_key
      | TokenBucket \<Rightarrow> tb_key | LeakyBucket \<Rightarrow> lb_key)"

text \<open>Every limiter that start-up can build is the retry loop of a plan that keeps the contract.\<close>

lemma build_limiter_loop:
  assumes "build_limiter oc C rl S = Inr R"
  obtains plan where "\<And>cid res cost w envs. rl_check R cid res cost (w, envs) =
      (case check_loop S (envs 0) (algorithm_key (rc_algorithm rl) cid res) (plan cost)
          (conflict_decision (service_quota rl)) w of (r, w') \<Rightarrow> (r, (w', \<lambda>n. envs (Suc n))))"
    "\<And>cost t raw b d. planned (plan cost) t raw = Inr (b, d) \<Longrightarrow> decision_ok (service_quota rl) d"
proof (cases "rc_algorithm rl")
  case FixedWindow
  let ?L = "fw_new (rc_max_requests rl) (rc_window_secs rl)"
  show ?thesis
    by (rule that [of "fw_plan oc (co_fw C) ?L"])
      (use assms fw_dec.verdict [of "(oc, co_fw C, ?L)"] FixedWindow in
        \<open>auto simp: build_limiter_def Let_def timed_check_def fw_check_def algorithm_key_def service_quota_def fw_new_def\<close>)
next
  case SlidingWindowLog
  with assms obtain L where L: "swl_new oc (rc_max_requests rl) (rc_window_secs rl) = Inr L"
    "R = \<lparr>rl_check = timed_check (swl_check oc (co_swl C) S L), rl_name = swl_name\<rparr>"
    by (auto simp: build_limiter_def)
  then have max: "swl_max_requests L = rc_max_requests rl" by (auto simp: swl_new_def and_then_eq_Inr)
  show ?thesis
    by (rule that [of "swl_plan oc (co_swl C) L"])
      (use L(2) max swl_dec.verdict [of "(oc, co_swl C, L)"] SlidingWindowLog in
        \<open>auto simp: timed_check_def swl_check_def algorithm_key_def service_quota_def\<close>)
next
  case SlidingWindowCounter
  let ?L = "swc_new (rc_max_requests rl) (rc_window_secs rl)"
  show ?thesis
    by (rule that [of "swc_plan oc (co_swc C) ?L"])
      (use assms swc_dec.verdict [of "(oc, co_swc C, ?L)"] SlidingWindowCounter in
        \<open>auto simp: build_limiter_def Let_def timed_check_def swc_check_def algorithm_key_def service_quota_def swc_new_def\<close>)
next
  case TokenBucket
  let ?L = "tb_new (rc_bucket_capacity rl) (rc_refill_rate rl)"
  show ?thesis
    by (rule that [of "tb_plan oc (co_tb C) ?L"])
      (use assms tb_dec.verdict [of "(oc, co_tb C, ?L)"] TokenBucket in
        \<open>auto simp: build_limiter_def Let_def timed_check_def tb_check_def algorithm_key_def service_quota_def tb_new_def\<close>)
next
  case LeakyBucket
  let ?L = "lb_new (rc_leak_rate rl) (rc_queue_capacity rl)"
  show ?thesis
    by (rule that [of "lb_plan oc (co_lb C) ?L"])
      (use assms lb_dec.verdict [of "(oc, co_lb C, ?L)"] LeakyBucket in
        \<open>auto simp: build_limiter_def Let_def timed_check_def lb_check_def algorithm_key_def service_quota_def lb_new_def\<close>)
qed

lemma service_quota_range: "is_i64 (service_quota rl)"
  by (simp add: service_quota_def is_i64_f64_as_i64 split: algorithm.split)

lemma service_decision_ok:
  assumes "build_limiter oc C rl S = Inr R" "rl_check R cid res cost w = (Inr d, w')"
  shows "decision_ok (service_quota rl) d"
proof -
  obtain w0 envs where w: "w = (w0, envs)" by (cases w)
  show ?thesis
  proof (rule build_limiter_loop [OF assms(1)])
    fix plan
    assume run: "\<And>cid res cost w envs. rl_check R cid res cost (w, envs) =
      (case check_loop S (envs 0) (algorithm_key (rc_algorithm rl) cid res) (plan cost)
          (conflict_decision (service_quota rl)) w of (r, w') \<Rightarrow> (r, (w', \<lambda>n. envs (Suc n))))"
      and ok: "\<And>cost t raw b d. planned (plan cost) t raw = Inr (b, d) \<Longrightarrow> decision_ok (service_quota rl) d"
    from run [of cid res cost w0 envs] assms(2) obtain s' where
      "check_loop S (envs 0) (algorithm_key (rc_algorithm rl) cid res) (plan cost)
        (conflict_decision (service_quota rl)) w0 = (Inr d, s')"
      by (auto simp: w split: prod.splits)
    from check_loop_decision [OF this] ok service_quota_range show ?thesis by auto
  qed
qed

section \<open>Store keys\<close>

lemmas key_defs = algorithm_key_def fw_key_def swl_key_def swc_key_def tb_key_def lb_key_def

lemma algorithm_key_shape:
  "\<exists>p. CHR ''/'' \<notin> set p \<and> (\<forall>cid res. algorithm_key alg cid res = p @ CHR ''/'' # cid @ CHR ''/'' # res) \<and>
    algorithm_of_name p = Some alg"
proof (cases alg)
  case FixedWindow
  then show ?thesis
    by (intro exI [of _ "''fixed_window''"]) (simp add: key_defs algorithm_of_name_def)
next
  case SlidingWindowLog
  then show ?thesis
    by (intro exI [of _ "''sliding_window_log''"]) (simp add: key_defs algorithm_of_name_def)
next
  case SlidingWindowCounter
  then show ?thesis
    by (intro exI [of _ "''sliding_window_counter''"]) (simp add: key_defs algorithm_of_name_def)
next
  case TokenBucket
  then show ?thesis
    by (intro exI [of _ "''token_bucket''"]) (simp add: key_defs algorithm_of_name_def)
next
  case LeakyBucket
  then show ?thesis
    by (intro exI [of _ "''leaky_bucket''"]) (simp add: key_defs algorithm_of_name_def)
qed

section \<open>A sample service\<close>

definition sample_codecs :: codecs where
  "sample_codecs = \<lparr>co_fw = fw_sample, co_swl = swl_sample, co_swc = swc_sample, co_tb = tb_sample,
     co_lb = lb_sample\<rparr>"

definition sample_config :: rate_limiter_config where
  "sample_config = \<lparr>rc_algorithm = FixedWindow, rc_max_requests = 2, rc_window_secs = 60,
     rc_bucket_capacity = default_bucket_capacity, rc_refill_rate = default_refill_rate,
     rc_leak_rate = default_leak_rate, rc_queue_capacity = default_queue_capacity\<rparr>"

definition sample_limiter :: "local_store timed rate_limiter" where
  "sample_limiter = \<lparr>rl_check = timed_check (fw_check False fw_sample local_ops (fw_new 2 60)), rl_name = fw_name\<rparr>"

definition sample_world :: "local_store timed" where
  "sample_world = (local_new, \<lambda>_. quiet (\<lambda>_. 5))"

lemma sample_limiter_built: "build_limiter False sample_codecs sample_config local_ops = Inr sample_limiter"
  by (simp add: build_limiter_def sample_codecs_def sample_config_def sample_limiter_def)

lemma sample_plan_allows:
  "\<exists>b d. planned (fw_plan False fw_sample (fw_new 2 60) 1) 5 None = Inr (b, d) \<and> d_allowed d"
proof -
  let ?L = "fw_new 2 60"
  have "fw_wf ?L" "clock_ok 5" by (simp_all add: fw_wf_def fw_new_def clock_ok_def)
  moreover have "fw_spec ?L 5 (wcount (fw_abs fw_sample None) (fw_window ?L 5)) (unat (1 :: u32)) = (True, 1, 0)"
    by (simp add: fw_spec_def wcount_def fw_abs_def fw_new_def)
  ultimately show ?thesis
    using fw_plan_eval [of ?L 5 fw_sample None 1 True 1 0 False] by (auto simp: wcount_def fw_abs_def)
qed

lemma sample_limiter_check: "\<exists>d w'. rl_check sample_limiter cid res 1 sample_world = (Inr d, w') \<and> d_allowed d"
proof -
  obtain b d where plan: "planned (fw_plan False fw_sample (fw_new 2 60) 1) 5 None = Inr (b, d)" "d_allowed d"
    using sample_plan_allows by blast
  have "\<exists>s' v. check_loop local_ops (quiet (\<lambda>_. 5)) (fw_key cid res) (fw_plan False fw_sample (fw_new 2 60) 1)
      (conflict_decision (u64_as_i64 (fw_max_requests (fw_new 2 60)))) local_new = (Inr d, s') \<and>
    ls_state s' = (ls_state local_new)(fw_key cid res \<mapsto> (b, v))"
    by (rule local_check_quiet) (use plan in \<open>simp_all add: local_room_def local_new_def local_inv_def contents_def\<close>)
  with plan(2) show ?thesis
    by (auto simp: sample_limiter_def sample_world_def timed_check_def fw_check_def)
qed

section \<open>The service's own store\<close>

text \<open>The local store keeps its contract as a part of the service's world.\<close>

interpretation svc: reliable_store "on_local local_ops" "\<lambda>w. ls_state (bk_local w)" "\<lambda>w. local_inv (bk_local w)"
  "\<lambda>w. local_room (bk_local w)" "\<lambda>w. ls_counter (bk_local w)"
  by unfold_locales
    (auto simp: on_local_def local_ops_def local_get_def local_cas_eq local_inv_write
      dest: local_invD split: if_splits)

section \<open>Properties\<close>

text \<open>C28. The limiter that start-up builds, whatever the configuration, the store and the
  clock: a decision has \<open>i64\<close> fields, the configured limit, and no wait when it allows.\<close>

theorem service_decisions_typed:
  assumes "build_limiter oc C rl S = Inr R" "rl_check R cid res cost w = (Inr d, w')"
  shows "d_limit d = service_quota rl \<and> is_i64 (d_limit d) \<and> is_i64 (d_remaining d) \<and>
    is_i64 (d_retry_after_ms d) \<and> (d_allowed d \<longrightarrow> d_retry_after_ms d = 0)"
  using service_decision_ok [OF assms] by (auto simp: decision_ok_def)

theorem service_decisions_typed_witness:
  "\<exists>d w'. rl_check sample_limiter ''a'' ''r'' 1 sample_world = (Inr d, w') \<and> d_allowed d \<and>
     d_limit d = 2 \<and> d_retry_after_ms d = 0"
proof -
  obtain d w' where run: "rl_check sample_limiter ''a'' ''r'' 1 sample_world = (Inr d, w')" "d_allowed d"
    using sample_limiter_check by blast
  from service_decisions_typed [OF sample_limiter_built run(1)] run show ?thesis
    by (auto simp: service_quota_def sample_config_def u64_as_i64_def)
qed

text \<open>C29. Requests of different clients or resources, or under different algorithms, use
  different keys of the store, as long as client identifiers contain no slash.\<close>

theorem keys_isolate:
  assumes "CHR ''/'' \<notin> set cid" "CHR ''/'' \<notin> set cid'"
  shows "algorithm_key alg cid res = algorithm_key alg' cid' res' \<longleftrightarrow> alg = alg' \<and> cid = cid' \<and> res = res'"
proof -
  obtain p where p: "CHR ''/'' \<notin> set p" "algorithm_of_name p = Some alg"
    "\<And>cid res. algorithm_key alg cid res = p @ CHR ''/'' # cid @ CHR ''/'' # res"
    using algorithm_key_shape by blast
  obtain p' where p': "CHR ''/'' \<notin> set p'" "algorithm_of_name p' = Some alg'"
    "\<And>cid res. algorithm_key alg' cid res = p' @ CHR ''/'' # cid @ CHR ''/'' # res"
    using algorithm_key_shape by blast
  have "algorithm_key alg cid res = algorithm_key alg' cid' res' \<longleftrightarrow> p = p' \<and> cid = cid' \<and> res = res'"
    using p(1) p'(1) assms by (simp add: p(3) p'(3) append_sep_eq)
  with p(2,3) p'(2,3) show ?thesis by (auto dest: spec [of _ "[]"])
qed

theorem keys_isolate_witness:
  "algorithm_key FixedWindow ''a'' ''b/c'' \<noteq> algorithm_key FixedWindow ''b'' ''a/c''"
  using keys_isolate [of "''a''" "''b''" FixedWindow "''b/c''" FixedWindow "''a/c''"] by simp

text \<open>C30. With slashes they can collide: client \<open>a/b\<close> on resource \<open>c\<close> and client \<open>a\<close> on resource
  \<open>b/c\<close> are the same client to every limiter.\<close>

theorem keys_collide:
  assumes "build_limiter oc C rl S = Inr R"
  shows "rl_check R (a @ ''/'' @ b) c cost w = rl_check R a (b @ ''/'' @ c) cost w"
proof -
  obtain w0 envs where w: "w = (w0, envs)" by (cases w)
  have same: "algorithm_key (rc_algorithm rl) (a @ ''/'' @ b) c = algorithm_key (rc_algorithm rl) a (b @ ''/'' @ c)"
    by (simp add: key_defs split: algorithm.split)
  show ?thesis
    by (rule build_limiter_loop [OF assms]) (simp only: w same)
qed

theorem keys_collide_witness:
  "rl_check sample_limiter ''a/b'' ''c'' 1 sample_world = rl_check sample_limiter ''a'' ''b/c'' 1 sample_world"
  using keys_collide [OF sample_limiter_built, of "''a''" "''b''" "''c''" 1 sample_world] by simp

end
