(* ===== verification/Tcp_Client.thy ===== *)
theory Tcp_Client
  imports Tcp_Server Service
begin

text \<open>
  \<open>src/bin/client.rs\<close>: the test client, its command line and its request loop; and what the
  TCP server and the client promise together.
\<close>

section \<open>Command line\<close>

fun parse_digits :: "nat \<Rightarrow> nat \<Rightarrow> string \<Rightarrow> nat option" where
  "parse_digits bound acc [] = Some acc"
| "parse_digits bound acc (c # cs) =
     (if 48 \<le> (of_char c :: nat) \<and> (of_char c :: nat) \<le> 57 then
        let acc' = 10 * acc + (of_char c - 48)
        in if acc' < bound then parse_digits bound acc' cs else None
      else None)"

definition parse_uint :: "nat \<Rightarrow> string \<Rightarrow> nat option" where
  \<comment> \<open>\<open>str::parse\<close> at an unsigned type with that many values\<close>
  "parse_uint bound s =
     (case s of [] \<Rightarrow> None
      | c # cs \<Rightarrow> if c = CHR ''+'' then (if cs = [] then None else parse_digits bound 0 cs)
                 else parse_digits bound 0 s)"

record client_args =
  ca_addr :: string
  ca_client_id :: string
  ca_num_requests :: u32
  ca_delay_ms :: u64

definition nth_arg :: "string list \<Rightarrow> nat \<Rightarrow> string option" where
  "nth_arg args i = (if i < length args then Some (args ! i) else None)"

definition client_args_of :: "string list \<Rightarrow> client_args" where
  "client_args_of args =
     \<lparr>ca_addr = or_default (nth_arg args 1) ''127.0.0.1:9000'',
      ca_client_id = or_default (nth_arg args 2) ''client_1'',
      ca_num_requests = word_of_nat (or_default (Option.bind (nth_arg args 3) (parse_uint (2 ^ 32))) 20),
      ca_delay_ms = word_of_nat (or_default (Option.bind (nth_arg args 4) (parse_uint (2 ^ 64))) 100)\<rparr>"

section \<open>The request loop\<close>

definition client_request :: "('b, 'v) flatbuffers \<Rightarrow> string \<Rightarrow> bytes" where
  "client_request F client_id =
     (let fbb = fb_with_capacity F 256;
          (cid, fbb) = fb_create_string F client_id fbb;
          (res, fbb) = fb_create_string F ''/api/v1/data'' fbb;
          rb = rqb_new F fbb;
          rb = rqb_add_client_id F cid rb;
          rb = rqb_add_resource F res rb;
          rb = rqb_add_cost F 1 rb;
          (req, fbb) = rqb_finish F rb
      in fb_finished_data F (fb_finish F req fbb))"

datatype client_error = Client_Io io_error | Invalid_Response

record client_line =
  ln_allowed :: bool
  ln_remaining :: i64
  ln_retry_after_ms :: i64
  ln_reason :: string

definition client_round :: "('b, 'v) flatbuffers \<Rightarrow> string \<Rightarrow> conn \<Rightarrow> (client_error + client_line) \<times> conn" where
  "client_round F client_id c =
     (let data = client_request F client_id in
      case write_all (u32_to_le_bytes (len_as_u32 data)) c of
        (Inl e, c1) \<Rightarrow> (Inl (Client_Io e), c1)
      | (Inr _, c1) \<Rightarrow> (case write_all data c1 of
        (Inl e, c2) \<Rightarrow> (Inl (Client_Io e), c2)
      | (Inr _, c2) \<Rightarrow> (case read_exact 4 c2 of
        (Inl e, c3) \<Rightarrow> (Inl (Client_Io e), c3)
      | (Inr len_buf, c3) \<Rightarrow> (case read_exact (unat (u32_from_le_bytes len_buf)) c3 of
        (Inl e, c4) \<Rightarrow> (Inl (Client_Io e), c4)
      | (Inr resp_body, c4) \<Rightarrow> (case root_as_rate_limit_response F resp_body of
          None \<Rightarrow> (Inl Invalid_Response, c4)
        | Some resp \<Rightarrow>
            (Inr \<lparr>ln_allowed = rp_allowed F resp, ln_remaining = rp_remaining F resp,
               ln_retry_after_ms = rp_retry_after_ms F resp,
               ln_reason = or_default (rp_reason F resp) ''''\<rparr>, c4))))))"

primrec client_loop :: "('b, 'v) flatbuffers \<Rightarrow> string \<Rightarrow> nat \<Rightarrow> conn
    \<Rightarrow> client_line list \<times> client_error option \<times> conn" where
  "client_loop F client_id 0 c = ([], None, c)"
| "client_loop F client_id (Suc n) c =
     (case client_round F client_id c of
        (Inl e, c') \<Rightarrow> ([], Some e, c')
      | (Inr line, c') \<Rightarrow> (case client_loop F client_id n c' of (lines, e, c'') \<Rightarrow> (line # lines, e, c'')))"

section \<open>Client and server together\<close>

definition line_of :: "decision \<Rightarrow> client_line" where
  "line_of d = \<lparr>ln_allowed = d_allowed d, ln_remaining = d_remaining d,
     ln_retry_after_ms = d_retry_after_ms d, ln_reason = d_reason d\<rparr>"

definition fresh_conn :: "bytes \<Rightarrow> conn" where
  "fresh_conn input = \<lparr>cn_in = input, cn_reset = False, cn_out = [], cn_room = None\<rparr>"

lemma fresh_conn_simps [simp]:
  "cn_in (fresh_conn b) = b" "cn_reset (fresh_conn b) = False" "cn_out (fresh_conn b) = []"
  "cn_room (fresh_conn b) = None"
  by (simp_all add: fresh_conn_def)

text \<open>\<open>n\<close> checks by one client, one after another.\<close>

primrec repeat_check :: "'w rate_limiter \<Rightarrow> string \<Rightarrow> nat \<Rightarrow> 'w \<Rightarrow> (decision list \<times> 'w) option" where
  "repeat_check L cid 0 w = Some ([], w)"
| "repeat_check L cid (Suc n) w =
     (case rl_check L cid ''/api/v1/data'' 1 w of
        (Inl p, w') \<Rightarrow> None
      | (Inr d, w') \<Rightarrow> map_option (apfst (Cons d)) (repeat_check L cid n w'))"

lemma client_request_root:
  assumes laws: "builder_laws F M" and "small_string cid"
  shows "fm_root M (client_request F cid) (request_fields (Some cid) (Some ''/api/v1/data'') 1)"
proof -
  obtain c b1 where b1: "fb_create_string F cid (fb_with_capacity F 256) = (c, b1)"
    and v1: "fm_view M b1 = (fm_view M (fb_with_capacity F 256))\<lparr>bv_strs :=
      (bv_strs (fm_view M (fb_with_capacity F 256)))(c \<mapsto> cid)\<rparr>"
    by (rule view_create_string [OF laws idle_new [OF laws] assms(2)])
  then have "bv_open (fm_view M b1) = None" using idle_new [OF laws, of 256] by simp
  moreover have "small_string ''/api/v1/data''" by (simp add: small_string_def)
  ultimately obtain r b2 where b2: "fb_create_string F ''/api/v1/data'' b1 = (r, b2)"
    and new: "bv_strs (fm_view M b1) r = None"
    and v2: "fm_view M b2 = (fm_view M b1)\<lparr>bv_strs := (bv_strs (fm_view M b1))(r \<mapsto> ''/api/v1/data'')\<rparr>"
    by (rule view_create_string [OF laws])
  have idle: "bv_open (fm_view M b2) = None" and r: "bv_strs (fm_view M b2) r = Some ''/api/v1/data''"
    and c: "bv_strs (fm_view M b2) c = Some cid"
    using v1 v2 new idle_new [OF laws, of 256] by auto
  define B1 where "B1 = rqb_add_client_id F c (rqb_new F b2)"
  define B2 where "B2 = rqb_add_resource F r B1"
  define B3 where "B3 = rqb_add_cost F 1 B2"
  let ?f1 = "[vt_client_id \<mapsto> Fb_Str cid]"
  let ?f2 = "?f1(vt_resource \<mapsto> Fb_Str ''/api/v1/data'')"
  have B1: "rqb_has M B1 (bv_strs (fm_view M b2)) ?f1"
    unfolding B1_def by (rule rqb_has_add_client_id [OF laws rqb_has_new [OF laws idle] _ c]) simp
  have B2: "rqb_has M B2 (bv_strs (fm_view M b2)) ?f2"
    unfolding B2_def by (rule rqb_has_add_resource [OF laws B1 _ r]) (simp add: vt_defs)
  have B3: "rqb_has M B3 (bv_strs (fm_view M b2)) (push_field vt_cost (Fb_U32 1) (1 = (1 :: u32)) ?f2)"
    unfolding B3_def by (rule rqb_has_add_cost [OF laws B2]) (simp add: vt_defs)
  have fields: "push_field vt_cost (Fb_U32 1) (1 = (1 :: u32)) ?f2
      = request_fields (Some cid) (Some ''/api/v1/data'') 1"
    by (auto simp: request_fields_def push_field_def vt_defs)
  obtain req b' where fin: "rqb_finish F B3 = (req, b')" by fastforce
  have "client_request F cid = fb_finished_data F (fb_finish F req b')"
    using fin by (simp add: client_request_def b1 b2 B3_def B2_def B1_def)
  with rqb_close [OF laws B3 fin] fields show ?thesis by simp
qed

lemma client_body_check:
  assumes "flatbuffers_laws F M" "small_string cid"
  shows "check_body F L (client_request F cid) w = Some (rl_check L cid ''/api/v1/data'' 1 w)"
proof -
  have "builder_laws F M" using assms(1) by (simp add: flatbuffers_laws_def)
  from read_request(2) [OF assms(1) client_request_root [OF this assms(2)]] obtain r where
    "root_as_rate_limit_request F (client_request F cid) = Some r" "rq_client_id F r = Some cid"
    "rq_resource F r = Some ''/api/v1/data''" "rq_cost F r = 1" by auto
  then show ?thesis by (simp add: check_body_def)
qed

lemma serve_client:
  assumes "flatbuffers_laws F M" "small_string cid"
  shows "serve F L (replicate n (client_request F cid)) w = repeat_check L cid n w"
  by (induction n arbitrary: w)
    (simp_all add: client_body_check [OF assms] split: prod.split sum.split)

lemma client_round_ok:
  assumes laws: "flatbuffers_laws F M" and "sendable d" "length (encode_response F d) < 2 ^ 32"
    and "cn_room c = None" "cn_in c = frame (encode_response F d) @ rest"
  shows "client_round F cid c
    = (Inr (line_of d), c\<lparr>cn_in := rest, cn_out := cn_out c @ frame (client_request F cid)\<rparr>)"
proof -
  let ?c = "c\<lparr>cn_out := cn_out c @ frame (client_request F cid)\<rparr>"
  obtain r where r: "root_as_rate_limit_response F (encode_response F d) = Some r"
    "rp_allowed F r = d_allowed d" "rp_remaining F r = d_remaining d"
    "rp_retry_after_ms F r = d_retry_after_ms d" "rp_reason F r = Some (d_reason d)"
    using response_readable [OF laws assms(2)] by blast
  have "read_exact 4 ?c = (Inr (u32_to_le_bytes (len_as_u32 (encode_response F d))),
      ?c\<lparr>cn_in := encode_response F d @ rest\<rparr>)"
    by (rule read_header) (simp add: assms(5) frame_def)
  moreover have "read_exact (length (encode_response F d)) (?c\<lparr>cn_in := encode_response F d @ rest\<rparr>)
      = (Inr (encode_response F d), ?c\<lparr>cn_in := rest\<rparr>)"
    using read_body [of "?c\<lparr>cn_in := encode_response F d @ rest\<rparr>" "encode_response F d" rest] by simp
  ultimately show ?thesis
    using assms(3,4) r
    by (cases c) (simp add: client_round_def write_all_open frame_def unat_len_as_u32 line_of_def Let_def)
qed

lemma client_loop_ok:
  assumes "flatbuffers_laws F M" "\<And>d. d \<in> set ds \<Longrightarrow> sendable d \<and> length (encode_response F d) < 2 ^ 32"
    and "cn_room c = None" "cn_in c = concat (map (\<lambda>d. frame (encode_response F d)) ds) @ rest"
  shows "client_loop F cid (length ds) c = (map line_of ds, None,
    c\<lparr>cn_in := rest, cn_out := cn_out c @ concat (replicate (length ds) (frame (client_request F cid)))\<rparr>)"
  using assms(2-)
proof (induction ds arbitrary: c)
  case Nil
  then show ?case by (cases c) simp
next
  case (Cons d ds)
  let ?rest = "concat (map (\<lambda>d. frame (encode_response F d)) ds) @ rest"
  have "client_round F cid c
      = (Inr (line_of d), c\<lparr>cn_in := ?rest, cn_out := cn_out c @ frame (client_request F cid)\<rparr>)"
    using Cons.prems by (intro client_round_ok [OF assms(1)]) simp_all
  with Cons.IH [of "c\<lparr>cn_in := ?rest, cn_out := cn_out c @ frame (client_request F cid)\<rparr>"] Cons.prems
  show ?case by simp
qed

lemma repeat_check_length: "repeat_check L cid n w = Some (ds, w') \<Longrightarrow> length ds = n"
  by (induction n arbitrary: w ds) (auto split: prod.splits sum.splits)

section \<open>Runs used as examples\<close>

lemma length_unary: "length (unary ns) = sum_list ns + length ns"
  by (induction ns) (simp_all add: unary_def)

lemma sample_finish: "off < length (sb_tabs b) \<Longrightarrow>
    fb_finished_data sample_flatbuffers (fb_finish sample_flatbuffers off b) = unary (table_code (sb_tabs b ! off))"
  by (simp add: sample_flatbuffers_def)

lemma sample_client_request:
  "client_request sample_flatbuffers cid
    = unary (table_code [(vt_resource, Fb_Str ''/api/v1/data''), (vt_client_id, Fb_Str cid)])"
  by (simp add: client_request_def sample_flatbuffers_def rqb_new_def rqb_add_client_id_def
      rqb_add_resource_def rqb_add_cost_def rqb_finish_def sample_push_def)

lemma sample_request_frame: "frame_ok (client_request sample_flatbuffers ''a'')"
  by (simp add: frame_ok_def sample_client_request table_code_def length_unary max_msg_bytes_def vt_defs)
    (simp add: unary_def)

end
