(* ===== verification/Tcp_Session.thy ===== *)
theory Tcp_Session
  imports Tcp_Client
begin

text \<open>
  Whole TCP sessions: arbitrary input to the server, the client of \<open>src/bin/client.rs\<close> against
  the server, and the fixed window behind both.
\<close>

section \<open>The reasons of a fixed window\<close>

text \<open>Reasons of the fixed window fit any buffer.\<close>

lemma length_fw_reason: "is_i64 retry \<Longrightarrow> length (fw_reason L allowed cnt n retry) \<le> 120"
  using length_show_u64 [of n] length_show_u64 [of cnt] length_show_u64 [of "fw_max_requests L"]
    length_show_int [of retry]
  by (simp add: fw_reason_def em_dash_def)

lemma fw_plan_reason:
  assumes "planned (fw_plan oc C L cost) t raw = Inr (b, d)"
  shows "length (d_reason d) \<le> 120"
  using assms
  by (auto simp: planned_def fw_plan_def and_then_eq_Inr Let_def dest!: fw_decide_range intro!: length_fw_reason)

section \<open>Fixed window, one request after another\<close>

definition fw_limiter :: "bool \<Rightarrow> fw_state codec \<Rightarrow> fixed_window \<Rightarrow> local_store timed rate_limiter" where
  "fw_limiter oc C L = \<lparr>rl_check = timed_check (fw_check oc C local_ops L), rl_name = fw_name\<rparr>"

definition fw_answer :: "fixed_window \<Rightarrow> decision \<Rightarrow> bool" where
  \<comment> \<open>the range of what a fixed window says\<close>
  "fw_answer L d \<longleftrightarrow> d_limit d = int (fw_max L) \<and> 0 \<le> d_remaining d \<and> d_remaining d \<le> int (fw_max L) \<and>
     0 \<le> d_retry_after_ms d \<and> d_retry_after_ms d \<le> int (1000 * unat (fw_window_secs L)) \<and>
     length (d_reason d) \<le> 120"

lemma fw_answer_sendable: "fw_wf L \<Longrightarrow> fw_answer L d \<Longrightarrow> sendable d"
proof -
  assume wf: "fw_wf L" and ok: "fw_answer L d"
  from wf have "int (fw_max L) < 2 ^ 63" "int (1000 * unat (fw_window_secs L)) < 2 ^ 63"
    unfolding fw_wf_def by (simp_all only: of_nat_less_numeral_power_cancel_iff)
  with ok show "sendable d" by (simp add: sendable_def fw_answer_def is_i64_def small_string_def)
qed

lemma fw_one_more:
  assumes "fw_wf L" "codec_roundtrip C" "local_room s" "clock_ok (clk 0)"
    and "wcount (fw_abs C (contents ls_state s (fw_key cid res))) (fw_window L (clk 0)) = k" "k \<le> fw_max L"
  shows "\<exists>d b. fw_check oc C local_ops L (quiet clk) cid res 1 s = (Inr d,
      s\<lparr>ls_counter := ls_counter s + 1, ls_state := (ls_state s)(fw_key cid res \<mapsto> (b, ls_counter s))\<rparr>) \<and>
    fw_answer L d \<and> (d_allowed d \<longleftrightarrow> k < fw_max L) \<and>
    fw_abs C (Some b) = Some (fw_window L (clk 0), if k < fw_max L then Suc k else k)"
proof -
  let ?t = "clk 0"
  have max: "fw_max L < 2 ^ 63" using assms(1) by (simp add: fw_wf_def)
  obtain allowed n wait where spec: "fw_spec L ?t k (unat (1 :: u32)) = (allowed, n, wait)" by (metis prod_cases3)
  have "wcount (fw_abs C (contents ls_state s (fw_key cid res))) (fw_window L ?t) + unat (1 :: u32) < 2 ^ 64"
    using assms(5,6) max by simp
  from fw_plan_eval [OF assms(1,4,2) this, of allowed n wait oc] spec assms(5) obtain b rsn where
    run: "planned (fw_plan oc C L 1) ?t (contents ls_state s (fw_key cid res)) = Inr (b,
      \<lparr>d_allowed = allowed, d_limit = int (fw_max L), d_remaining = int (fw_max L - n), d_retry_after_ms = int wait,
       d_reason = rsn\<rparr>)"
    and abs: "fw_abs C (Some b) = Some (fw_window L ?t, n)" by auto
  have "wait \<le> 1000 * unat (fw_window_secs L)"
    using spec fw_wait_bounds [OF assms(1), of ?t] by (auto simp: fw_spec_def split: if_splits)
  then have "int wait \<le> int (1000 * unat (fw_window_secs L))" by (simp only: of_nat_le_iff)
  moreover have "length rsn \<le> 120" using fw_plan_reason [OF run] by simp
  moreover have "allowed = (k < fw_max L)" "n = (if k < fw_max L then Suc k else k)"
    using spec by (auto simp: fw_spec_def split: if_splits)
  ultimately show ?thesis
    using local_check_exact [where clk = clk, OF assms(3) run] abs
    by (auto simp: fw_check_def fw_answer_def)
qed

lemma fw_repeat:
  assumes "fw_wf L" "codec_roundtrip C"
    and "\<And>i. envs i = quiet (clk i)" "\<And>i. clock_ok (clk i 0)" "\<And>i. fw_window L (clk i 0) = w"
    and "0 \<le> ls_counter s" "ls_counter s + int n < 2 ^ 62"
    and "wcount (fw_abs C (contents ls_state s (fw_key cid ''/api/v1/data''))) w = k" "k \<le> fw_max L"
  shows "\<exists>ds w'. repeat_check (fw_limiter oc C L) cid n (s, envs) = Some (ds, w') \<and>
    (\<forall>d \<in> set ds. fw_answer L d) \<and> map d_allowed ds = map (\<lambda>i. k + i < fw_max L) [0..<n]"
  using assms(3-)
proof (induction n arbitrary: s envs clk k)
  case (Suc n)
  let ?key = "fw_key cid ''/api/v1/data''"
  have room: "local_room s" using Suc.prems(4,5) by (simp add: local_room_def)
  obtain d b where one: "fw_check oc C local_ops L (quiet (clk 0)) cid ''/api/v1/data'' 1 s = (Inr d,
      s\<lparr>ls_counter := ls_counter s + 1, ls_state := (ls_state s)(?key \<mapsto> (b, ls_counter s))\<rparr>)"
    and d: "fw_answer L d" "d_allowed d \<longleftrightarrow> k < fw_max L"
    and abs: "fw_abs C (Some b) = Some (w, if k < fw_max L then Suc k else k)"
    using fw_one_more [where clk = "clk 0", OF assms(1,2) room Suc.prems(2), of cid "''/api/v1/data''" k oc]
      Suc.prems by auto
  let ?s = "s\<lparr>ls_counter := ls_counter s + 1, ls_state := (ls_state s)(?key \<mapsto> (b, ls_counter s))\<rparr>"
  let ?k = "if k < fw_max L then Suc k else k"
  have "\<exists>ds w'. repeat_check (fw_limiter oc C L) cid n (?s, \<lambda>i. envs (Suc i)) = Some (ds, w') \<and>
    (\<forall>d \<in> set ds. fw_answer L d) \<and> map d_allowed ds = map (\<lambda>i. ?k + i < fw_max L) [0..<n]"
    using Suc.prems abs
    by (intro Suc.IH [where clk = "\<lambda>i. clk (Suc i)"]) (simp_all add: contents_def wcount_def)
  then obtain ds w' where "repeat_check (fw_limiter oc C L) cid n (?s, \<lambda>i. envs (Suc i)) = Some (ds, w')"
    and "\<forall>d \<in> set ds. fw_answer L d" and ds: "map d_allowed ds = map (\<lambda>i. ?k + i < fw_max L) [0..<n]" by blast
  moreover have "map (\<lambda>i. k + i < fw_max L) [0..<Suc n] = (k < fw_max L) # map (\<lambda>i. ?k + i < fw_max L) [0..<n]"
    using Suc.prems(7) by (auto simp: upt_conv_Cons map_Suc_upt [symmetric] comp_def simp del: upt_Suc)
  ultimately show ?case
    using one d Suc.prems(1) by (simp add: fw_limiter_def timed_check_def del: upt_Suc)
qed simp

lemma read_short:
  "length (cn_in c) < n \<Longrightarrow>
    read_exact n c = (Inl (if cn_reset c then Other_Io else Unexpected_Eof), c\<lparr>cn_in := []\<rparr>)"
  by (simp add: read_exact_def)

lemma client_server_session:
  assumes laws: "flatbuffers_laws F M" and "small_string cid" "frame_ok (client_request F cid)"
    and run: "repeat_check L cid n w = Some (ds, w')"
    and sizes: "\<And>d. d \<in> set ds \<Longrightarrow> sendable d \<and> length (encode_response F d) < 2 ^ 32"
  shows "\<exists>requests responses.
    client_loop F cid n (fresh_conn responses) = (map line_of ds, None, (fresh_conn [])\<lparr>cn_out := requests\<rparr>) \<and>
    handle_conn F L (fresh_conn requests) w = (Closed, (fresh_conn [])\<lparr>cn_out := responses\<rparr>, w')"
proof -
  let ?requests = "concat (replicate n (frame (client_request F cid)))"
  let ?responses = "concat (map (\<lambda>d. frame (encode_response F d)) ds)"
  have n: "length ds = n" by (rule repeat_check_length [OF run])
  have "serve F L (replicate n (client_request F cid)) w = Some (ds, w')"
    using run by (simp add: serve_client [OF laws assms(2)])
  from handle_conn_serve [OF this, of "fresh_conn ?requests" "[]"] assms(3)
  have "handle_conn F L (fresh_conn ?requests) w
      = handle_conn F L ((fresh_conn [])\<lparr>cn_out := ?responses\<rparr>) w'"
    by (simp add: fresh_conn_def list_all_iff)
  then have "handle_conn F L (fresh_conn ?requests) w = (Closed, (fresh_conn [])\<lparr>cn_out := ?responses\<rparr>, w')"
    by (simp add: handle_conn_eof fresh_conn_def)
  moreover have "client_loop F cid n (fresh_conn ?responses)
      = (map line_of ds, None, (fresh_conn [])\<lparr>cn_out := ?requests\<rparr>)"
    using client_loop_ok [OF laws sizes, of ds "fresh_conn ?responses" "[]" cid] by (simp add: n fresh_conn_def)
  ultimately show ?thesis by blast
qed

section \<open>Runs used as examples\<close>

lemma sum_chars: "sum_list (map of_char s) \<le> 255 * length (s :: string)"
proof (induction s)
  case (Cons c s)
  have "of_char c < (256 :: nat)" by (rule nat_of_char_less_256)
  with Cons show ?case by (simp del: nat_of_char_less_256)
qed simp

definition cells :: "sample_table \<Rightarrow> nat" where
  "cells l = length (unary (table_code l))"

lemma cells_simps [simp]:
  "cells [] = 0"
  "cells ((slot, Fb_I64 i) # l) = slot + int_code i + 4 + cells l"
  "cells ((slot, Fb_Bool b) # l) = slot + (if b then 1 else 0) + 5 + cells l"
  "cells ((slot, Fb_Str s) # l) = slot + 6 + 2 * length s + sum_list (map of_char s) + cells l"
  by (simp_all add: cells_def table_code_def length_unary)

lemma sample_encode_response:
  "encode_response sample_flatbuffers d = unary (table_code ((vt_reason, Fb_Str (d_reason d)) #
     (if d_retry_after_ms d = 0 then [] else [(vt_retry_after_ms, Fb_I64 (d_retry_after_ms d))]) @
     (if d_remaining d = 0 then [] else [(vt_remaining, Fb_I64 (d_remaining d))]) @
     (if d_allowed d then [(vt_allowed, Fb_Bool True)] else [])))"
  by (simp add: encode_response_def sample_flatbuffers_def rpb_new_def rpb_add_allowed_def rpb_add_remaining_def
      rpb_add_retry_after_ms_def rpb_add_reason_def rpb_finish_def sample_push_def)

lemma sample_response_size:
  assumes "fw_answer (fw_new 2 60) d"
  shows "length (encode_response sample_flatbuffers d) < 2 ^ 32"
proof -
  have rem: "0 \<le> d_remaining d" "d_remaining d \<le> 2" "0 \<le> d_retry_after_ms d" "d_retry_after_ms d \<le> 60000"
    and rsn: "length (d_reason d) \<le> 120"
    using assms by (simp_all add: fw_answer_def fw_new_def)
  have "int_code (d_remaining d) \<le> 4" "int_code (d_retry_after_ms d) \<le> 120000"
    using rem by (simp_all add: int_code_def)
  moreover have "sum_list (map of_char (d_reason d)) \<le> 255 * length (d_reason d)" by (rule sum_chars)
  moreover have "length (encode_response sample_flatbuffers d) = cells ((vt_reason, Fb_Str (d_reason d)) #
     (if d_retry_after_ms d = 0 then [] else [(vt_retry_after_ms, Fb_I64 (d_retry_after_ms d))]) @
     (if d_remaining d = 0 then [] else [(vt_remaining, Fb_I64 (d_remaining d))]) @
     (if d_allowed d then [(vt_allowed, Fb_Bool True)] else []))"
    by (simp only: sample_encode_response cells_def)
  ultimately show ?thesis using rsn by (auto simp: vt_defs)
qed

lemma sample_session:
  "\<exists>ds w'. repeat_check (fw_limiter False fw_sample (fw_new 2 60)) ''a'' n (local_new, \<lambda>_. quiet (\<lambda>_. 5)) = Some (ds, w') \<and>
    (\<forall>d \<in> set ds. fw_answer (fw_new 2 60) d) \<and> map d_allowed ds = map (\<lambda>i. i < 2) [0..<n]" if "n < 2 ^ 61"
  using fw_repeat [where clk = "\<lambda>_ _. 5" and L = "fw_new 2 60" and C = fw_sample and oc = False and n = n
      and cid = "''a''" and s = local_new and envs = "\<lambda>_. quiet (\<lambda>_. 5)" and w = 0 and k = 0] that
  by (simp add: fw_wf_def fw_new_def clock_ok_def secs_def local_new_def contents_def fw_abs_def wcount_def)

section \<open>Properties\<close>

text \<open>C34. The server answers the well-formed messages of a connection one by one, in order, each
  from the limiter's state after the previous one, whatever follows them; at an end of file
  or less than a length prefix it closes without complaint.\<close>

theorem tcp_pipeline:
  assumes "serve F L bodies w = Some (ds, w')" "list_all frame_ok bodies" "cn_room c = None"
    and "cn_in c = concat (map frame bodies) @ rest" "length rest < 4" "\<not> cn_reset c"
  shows "handle_conn F L c w = (Closed,
    c\<lparr>cn_in := [], cn_out := cn_out c @ concat (map (\<lambda>d. frame (encode_response F d)) ds)\<rparr>, w')"
  using handle_conn_serve [OF assms(1-4)] assms(5,6) by (simp add: handle_conn_eof)

theorem tcp_pipeline_witness:
  "\<exists>d w'. d_allowed d \<and>
    handle_conn sample_flatbuffers sample_limiter (fresh_conn (frame (client_request sample_flatbuffers ''a'') @ [7, 7]))
      sample_world = (Closed, (fresh_conn [])\<lparr>cn_out := frame (encode_response sample_flatbuffers d)\<rparr>, w')"
proof -
  obtain d w' where run: "rl_check sample_limiter ''a'' ''/api/v1/data'' 1 sample_world = (Inr d, w')" "d_allowed d"
    using sample_limiter_check by blast
  then have "serve sample_flatbuffers sample_limiter [client_request sample_flatbuffers ''a''] sample_world
      = Some ([d], w')"
    by (simp add: client_body_check [OF sample_flatbuffers_laws] small_string_def)
  from tcp_pipeline [OF this, of "fresh_conn (frame (client_request sample_flatbuffers ''a'') @ [7, 7])" "[7, 7]"]
    sample_request_frame run(2) show ?thesis by (auto simp: fresh_conn_def)
qed

text \<open>C35. What ends a connection early: a length of zero or above one mebibyte, and a message
  that is no request, close it before the limiter is asked; a message cut off is an error,
  equally before; a panic of the limiter ends the task; and when the answer cannot be
  written the request has been charged all the same.\<close>

theorem tcp_early_ends:
  assumes "cn_in c = u32_to_le_bytes n @ input"
  shows "(unat n = 0 \<or> max_msg_bytes < unat n \<longrightarrow> handle_conn F L c w = (Closed, c\<lparr>cn_in := input\<rparr>, w)) \<and>
    (0 < unat n \<and> unat n \<le> max_msg_bytes \<and> length input < unat n \<longrightarrow>
      handle_conn F L c w = (Io_Failed (if cn_reset c then Other_Io else Unexpected_Eof), c\<lparr>cn_in := []\<rparr>, w)) \<and>
    (\<forall>body rest. frame_ok body \<and> unat n = length body \<and> input = body @ rest \<longrightarrow>
      (root_as_rate_limit_request F body = None \<longrightarrow> handle_conn F L c w = (Closed, c\<lparr>cn_in := rest\<rparr>, w)) \<and>
      (\<forall>p w'. check_body F L body w = Some (Inl p, w') \<longrightarrow>
        handle_conn F L c w = (Task_Panicked p, c\<lparr>cn_in := rest\<rparr>, w')) \<and>
      (\<forall>d w'. check_body F L body w = Some (Inr d, w') \<and> cn_room c = Some 0 \<longrightarrow>
        handle_conn F L c w = (Io_Failed Other_Io, c\<lparr>cn_in := rest\<rparr>, w')))"
proof (intro conjI allI impI, goal_cases)
  case 1
  then show ?case by (subst handle_conn_unfold) (auto simp: read_header [OF assms])
next
  case 2
  then show ?case by (subst handle_conn_unfold) (simp add: read_header [OF assms] read_short)
next
  case (3 body rest)
  with assms show ?case by (subst handle_conn_body [of c n body rest]) (auto simp: check_body_def)
next
  case (4 body rest p w')
  with assms show ?case by (subst handle_conn_body [of c n body rest]) auto
next
  case (5 body rest d w')
  then have "write_all (u32_to_le_bytes k) (c\<lparr>cn_in := rest\<rparr>) = (Inl Other_Io, c\<lparr>cn_in := rest\<rparr>)" for k
    by (cases c) (simp add: write_all_def)
  with 5 assms show ?case by (subst handle_conn_body [of c n body rest]) auto
qed

theorem tcp_early_ends_witness:
  "handle_conn sample_flatbuffers sample_limiter (fresh_conn (u32_to_le_bytes 0 @ [1, 2])) sample_world
    = (Closed, fresh_conn [1, 2], sample_world)"
  using tcp_early_ends [of "fresh_conn (u32_to_le_bytes 0 @ [1, 2])" 0 "[1, 2]" sample_flatbuffers sample_limiter
      sample_world] by (simp add: fresh_conn_def)

text \<open>C36. Whatever bytes arrive and whatever the runtime makes of them, the loop ends and has asked
  the limiter at most once for every five bytes.\<close>

theorem tcp_checks_bounded:
  "\<exists>e c' w' n. handle_conn F (counting L) c (w, 0) = (e, c', (w', n)) \<and> 5 * n \<le> length (cn_in c)"
  using handle_conn_counts [of F L c w 0] by (cases "handle_conn F (counting L) c (w, 0)") auto

text \<open>C37. Client and server agree: the client's \<open>n\<close> requests, sent through one connection, are
  checked in order under its identifier, the resource \<open>/api/v1/data\<close> and cost 1, and the
  lines it prints are the limiter's decisions.\<close>

theorem tcp_session:
  assumes "flatbuffers_laws F M" "small_string cid" "frame_ok (client_request F cid)"
    and "repeat_check L cid n w = Some (ds, w')"
    and "\<And>d. d \<in> set ds \<Longrightarrow> sendable d \<and> length (encode_response F d) < 2 ^ 32"
  shows "\<exists>requests responses.
    client_loop F cid n (fresh_conn responses) = (map line_of ds, None, (fresh_conn [])\<lparr>cn_out := requests\<rparr>) \<and>
    handle_conn F L (fresh_conn requests) w = (Closed, (fresh_conn [])\<lparr>cn_out := responses\<rparr>, w')"
  by (rule client_server_session [OF assms])

theorem tcp_session_witness:
  "\<exists>requests responses d1 d2 d3 w'.
    client_loop sample_flatbuffers ''a'' 3 (fresh_conn responses)
      = (map line_of [d1, d2, d3], None, (fresh_conn [])\<lparr>cn_out := requests\<rparr>) \<and>
    handle_conn sample_flatbuffers (fw_limiter False fw_sample (fw_new 2 60)) (fresh_conn requests)
      (local_new, \<lambda>_. quiet (\<lambda>_. 5)) = (Closed, (fresh_conn [])\<lparr>cn_out := responses\<rparr>, w') \<and>
    d_allowed d1 \<and> d_allowed d2 \<and> \<not> d_allowed d3"
proof -
  let ?L = "fw_limiter False fw_sample (fw_new 2 60)" and ?w = "(local_new, \<lambda>_. quiet (\<lambda>_. 5))"
  obtain ds w' where run: "repeat_check ?L ''a'' 3 ?w = Some (ds, w')"
    and answers: "\<forall>d \<in> set ds. fw_answer (fw_new 2 60) d" and "map d_allowed ds = map (\<lambda>i. i < 2) [0..<3]"
    using sample_session [of 3] by auto
  then obtain d1 d2 d3 where "ds = [d1, d2, d3]" "d_allowed d1" "d_allowed d2" "\<not> d_allowed d3"
    by (auto simp: eval_nat_numeral map_eq_Cons_conv)
  moreover have "fw_wf (fw_new 2 60)" by (simp add: fw_wf_def fw_new_def)
  ultimately show ?thesis
    using tcp_session [OF sample_flatbuffers_laws _ sample_request_frame run] answers
      fw_answer_sendable sample_response_size by (fastforce simp: small_string_def)
qed

text \<open>C38. The whole stack with the fixed window over a fresh \<open>LocalStore\<close>: a client that sends \<open>n\<close>
  requests through one connection within one window prints "allowed" for the first
  \<open>max_requests\<close> and "denied" for the rest.\<close>

theorem fw_tcp_session:
  assumes laws: "flatbuffers_laws F M" and cid: "small_string cid" "frame_ok (client_request F cid)"
    and sizes: "\<And>d. fw_answer L d \<Longrightarrow> length (encode_response F d) < 2 ^ 32"
    and wf: "fw_wf L" "codec_roundtrip C" "n < 2 ^ 61"
    and clocks: "\<And>i. envs i = quiet (clk i)" "\<And>i. clock_ok (clk i 0)" "\<And>i. fw_window L (clk i 0) = w"
  shows "\<exists>requests responses lines w'.
    client_loop F cid n (fresh_conn responses) = (lines, None, (fresh_conn [])\<lparr>cn_out := requests\<rparr>) \<and>
    handle_conn F (fw_limiter oc C L) (fresh_conn requests) (local_new, envs)
      = (Closed, (fresh_conn [])\<lparr>cn_out := responses\<rparr>, w') \<and>
    map ln_allowed lines = map (\<lambda>i. i < fw_max L) [0..<n]"
proof -
  have "int n < 2 ^ 61" using wf(3) by (simp only: of_nat_less_numeral_power_cancel_iff)
  then obtain ds w' where run: "repeat_check (fw_limiter oc C L) cid n (local_new, envs) = Some (ds, w')"
    and answers: "\<forall>d \<in> set ds. fw_answer L d" and allowed: "map d_allowed ds = map (\<lambda>i. i < fw_max L) [0..<n]"
    using fw_repeat [where envs = envs and clk = clk and w = w and s = local_new and n = n and cid = cid
        and k = 0 and oc = oc, OF wf(1,2) clocks]
    by (auto simp: local_new_def contents_def fw_abs_def wcount_def)
  have "sendable d \<and> length (encode_response F d) < 2 ^ 32" if "d \<in> set ds" for d
    using that answers sizes fw_answer_sendable [OF wf(1)] by blast
  from client_server_session [OF laws cid run this] obtain requests responses where
    "client_loop F cid n (fresh_conn responses) = (map line_of ds, None, (fresh_conn [])\<lparr>cn_out := requests\<rparr>)"
    "handle_conn F (fw_limiter oc C L) (fresh_conn requests) (local_new, envs)
      = (Closed, (fresh_conn [])\<lparr>cn_out := responses\<rparr>, w')" by blast
  moreover have "map ln_allowed (map line_of ds) = map (\<lambda>i. i < fw_max L) [0..<n]"
    using allowed by (simp add: line_of_def comp_def)
  ultimately show ?thesis by blast
qed

theorem fw_tcp_session_witness:
  "\<exists>requests responses lines w'.
    client_loop sample_flatbuffers ''a'' 4 (fresh_conn responses) = (lines, None, (fresh_conn [])\<lparr>cn_out := requests\<rparr>) \<and>
    handle_conn sample_flatbuffers (fw_limiter False fw_sample (fw_new 2 60)) (fresh_conn requests)
      (local_new, \<lambda>_. quiet (\<lambda>_. 5)) = (Closed, (fresh_conn [])\<lparr>cn_out := responses\<rparr>, w') \<and>
    map ln_allowed lines = [True, True, False, False]"
proof -
  have "[0..<4] = [0, 1, 2, 3 :: nat]" by (simp add: upt_rec)
  moreover have "fw_wf (fw_new 2 60)" by (simp add: fw_wf_def fw_new_def)
  ultimately show ?thesis
    using fw_tcp_session [where F = sample_flatbuffers and M = sample_meaning and cid = "''a''" and L = "fw_new 2 60"
        and C = fw_sample and n = 4 and envs = "\<lambda>_. quiet (\<lambda>_. 5)" and clk = "\<lambda>_ _. 5" and w = 0 and oc = False]
      sample_response_size sample_flatbuffers_laws sample_request_frame
    by (simp add: small_string_def clock_ok_def secs_def fw_new_def)
qed

end
