(* ===== verification/Http_Server.thy ===== *)
theory Http_Server
  imports Service
begin

text \<open>
  \<open>src/http_server.rs\<close>: the HTTP answer to a check, the signature and the health probes.
  The crates \<open>hmac\<close> and \<open>sha2\<close> are the parameter \<open>hm_sha256\<close>, \<open>hex::encode\<close> is \<open>hm_hex\<close>,
  \<open>HeaderValue::from_str\<close> is \<open>hm_header\<close>, and the router and the JSON reader of \<open>axum\<close>
  deliver a parsed request to \<open>check_handler\<close>.
\<close>

section \<open>Requests\<close>

record http_crates =
  hm_sha256 :: "bytes \<Rightarrow> bytes \<Rightarrow> bytes"  \<comment> \<open>HMAC-SHA256 of a key and a message\<close>
  hm_hex :: "bytes \<Rightarrow> string"
  hm_header :: "string \<Rightarrow> string option"  \<comment> \<open>the bytes of a header value, when the text can be one\<close>

record check_request =
  hq_client_id :: string
  hq_resource :: string
  hq_cost :: u32

record json_request =
  jq_client_id :: "string option"
  jq_resource :: "string option"
  jq_cost :: "u32 option"

definition default_resource :: string where "default_resource = ''/''"
definition default_cost :: u32 where "default_cost = 1"

definition check_request_of :: "json_request \<Rightarrow> check_request option" where
  "check_request_of j =
     Option.bind (jq_client_id j) (\<lambda>cid.
       Some \<lparr>hq_client_id = cid, hq_resource = or_default (jq_resource j) default_resource,
         hq_cost = or_default (jq_cost j) default_cost\<rparr>)"

section \<open>Responses\<close>

record check_response =
  hr_allowed :: bool
  hr_remaining :: i64
  hr_retry_after_ms :: i64
  hr_reason :: string

datatype status_code = Status_OK | Too_Many_Requests | Service_Unavailable

type_synonym header_map = "string \<Rightarrow> string option"

record 'w app_state =
  as_limiter :: "'w timed rate_limiter"
  as_store :: "'w state_store"
  as_hmac_secret :: "string option"

definition str_bytes :: "string \<Rightarrow> bytes" where
  "str_bytes s = map (\<lambda>c. word_of_nat (of_char c)) s"

definition hmac_sha256_hex :: "http_crates \<Rightarrow> string \<Rightarrow> string \<Rightarrow> string" where
  "hmac_sha256_hex H secret message = hm_hex H (hm_sha256 H (str_bytes secret) (str_bytes message))"

definition http_now_ms :: "sys_time \<Rightarrow> i64" where
  "http_now_ms t = u128_as_i64 (as_millis (or_default (duration_since_epoch t) 0))"

definition header_value :: "http_crates \<Rightarrow> string \<Rightarrow> string" where
  "header_value H s = or_default (hm_header H s) ''0''"

definition reset_secs :: "decision \<Rightarrow> i64" where
  "reset_secs d = (if d_allowed d then 0 else max (i64_div (d_retry_after_ms d) 1000) 1)"

definition mac_payload :: "check_request \<Rightarrow> decision \<Rightarrow> i64 \<Rightarrow> string" where
  "mac_payload req d ts =
     hq_client_id req @ ''|'' @ hq_resource req @ ''|'' @ show_bool (d_allowed d) @ ''|'' @
     show_int (d_remaining d) @ ''|'' @ show_int (d_retry_after_ms d) @ ''|'' @ show_int ts"

definition check_headers :: "http_crates \<Rightarrow> string \<Rightarrow> string option \<Rightarrow> sys_time \<Rightarrow> check_request \<Rightarrow> decision
    \<Rightarrow> header_map" where
  "check_headers H name secret now req d =
     (let hv = header_value H;
          headers = Map.empty(''ratelimit-limit'' \<mapsto> hv (show_int (d_limit d)));
          headers = headers(''ratelimit-remaining'' \<mapsto> hv (show_int (d_remaining d)));
          headers = headers(''ratelimit-reset'' \<mapsto> hv (show_int (reset_secs d)));
          headers = headers(''ratelimit-policy'' \<mapsto> hv (name @ '';l='' @ show_int (d_limit d)));
          headers = (if \<not> d_allowed d \<and> d_retry_after_ms d > 0
            then headers(''retry-after'' \<mapsto> hv (show_int (reset_secs d))) else headers)
      in (case secret of
            None \<Rightarrow> headers
          | Some key \<Rightarrow>
              let ts = http_now_ms now;
                  sig = hmac_sha256_hex H key (mac_payload req d ts)
              in headers(''x-ratelimit-mac'' \<mapsto> hv (''t='' @ show_int ts @ '',v='' @ sig))))"

definition check_handler :: "http_crates \<Rightarrow> 'w app_state \<Rightarrow> sys_time \<Rightarrow> check_request \<Rightarrow> 'w timed
    \<Rightarrow> (status_code \<times> header_map \<times> check_response) res \<times> 'w timed" where
  "check_handler H A now req w =
     (case rl_check (as_limiter A) (hq_client_id req) (hq_resource req) (hq_cost req) w of
        (Inl p, w') \<Rightarrow> (Inl p, w')
      | (Inr d, w') \<Rightarrow>
          (Inr (if d_allowed d then Status_OK else Too_Many_Requests,
                check_headers H (rl_name (as_limiter A)) (as_hmac_secret A) now req d,
                \<lparr>hr_allowed = d_allowed d, hr_remaining = d_remaining d,
                 hr_retry_after_ms = d_retry_after_ms d, hr_reason = d_reason d\<rparr>), w'))"

section \<open>Health probes and routes\<close>

definition health_startup :: status_code where
  "health_startup = Status_OK"

definition health_live :: status_code where
  "health_live = Status_OK"

definition health_ready :: "'w app_state \<Rightarrow> 'w \<Rightarrow> status_code \<times> 'w" where
  "health_ready A w = (case ss_ping (as_store A) w of (ok, w') \<Rightarrow>
     (if ok then Status_OK else Service_Unavailable, w'))"

datatype http_method = Get | Post
datatype route = Route_Check | Route_Startup | Route_Live | Route_Ready

definition routes :: "(string \<times> http_method \<times> route) list" where
  "routes = [(''/check'', Post, Route_Check), (''/health/startup'', Get, Route_Startup),
     (''/health/live'', Get, Route_Live), (''/health/ready'', Get, Route_Ready)]"

definition app_state_of :: "'c service \<Rightarrow> 'c backing app_state" where
  "app_state_of V = \<lparr>as_limiter = sv_limiter V, as_store = sv_store V, as_hmac_secret = sv_hmac_secret V\<rparr>"

section \<open>What the crates promise\<close>

text \<open>Visible ASCII text is a header value as it stands, and \<open>hex\<close> writes such text.\<close>

definition http_laws :: "http_crates \<Rightarrow> bool" where
  "http_laws H \<longleftrightarrow> (\<forall>s. printable s \<longrightarrow> hm_header H s = Some s) \<and> (\<forall>b. printable (hm_hex H b))"

lemma header_value_printable: "http_laws H \<Longrightarrow> printable s \<Longrightarrow> header_value H s = s"
  by (simp add: http_laws_def header_value_def)

lemma printable_hmac [simp]: "http_laws H \<Longrightarrow> printable (hmac_sha256_hex H key m)"
  by (simp add: http_laws_def hmac_sha256_hex_def)

lemma build_limiter_name: "build_limiter oc C rl S = Inr R \<Longrightarrow> printable (rl_name R)"
  by (auto simp: build_limiter_def Let_def and_then_eq_Inr fw_name_def swl_name_def swc_name_def tb_name_def
      lb_name_def split: algorithm.splits)

lemma check_headers_simps:
  assumes "http_laws H" "printable name"
  shows "check_headers H name secret now req d ''ratelimit-limit'' = Some (show_int (d_limit d))"
    and "check_headers H name secret now req d ''ratelimit-remaining'' = Some (show_int (d_remaining d))"
    and "check_headers H name secret now req d ''ratelimit-reset'' = Some (show_int (reset_secs d))"
    and "check_headers H name secret now req d ''ratelimit-policy'' = Some (name @ '';l='' @ show_int (d_limit d))"
    and "check_headers H name secret now req d ''retry-after'' =
      (if \<not> d_allowed d \<and> d_retry_after_ms d > 0 then Some (show_int (reset_secs d)) else None)"
    and "check_headers H name secret now req d ''x-ratelimit-mac'' = map_option (\<lambda>key.
      ''t='' @ show_int (http_now_ms now) @ '',v='' @
        hmac_sha256_hex H key (mac_payload req d (http_now_ms now))) secret"
  using assms by (simp_all add: check_headers_def header_value_printable Let_def split: option.split)

lemma i64_div_pos: "0 \<le> a \<Longrightarrow> 0 < b \<Longrightarrow> i64_div a b = a div b"
  by (cases "a = 0") (simp_all add: i64_div_def)

lemma ping_local: "ss_ping (on_local local_ops) w = (True, w)"
  by (cases w) (simp add: on_local_def local_ops_def default_ping_def)

lemma ping_cluster:
  "fst (ss_ping (on_cluster (etcd_ops K E)) w) \<longleftrightarrow> fst (ec_get K ''__ping__'' (Some 1) (bk_cluster w)) \<noteq> None"
  by (simp add: on_cluster_def etcd_ops_def etcd_ping_def split_beta)

section \<open>A sample of the crates\<close>

text \<open>For the witnesses only: text passes through, and a digest is its length in decimal.\<close>

definition sample_crates :: http_crates where
  "sample_crates = \<lparr>hm_sha256 = (\<lambda>k m. k @ m), hm_hex = (\<lambda>b. show_nat (length b)), hm_header = Some\<rparr>"

lemma sample_http_laws: "http_laws sample_crates"
  by (simp add: http_laws_def sample_crates_def)

definition sample_app :: "string option \<Rightarrow> local_store app_state" where
  "sample_app secret = \<lparr>as_limiter = sample_limiter, as_store = local_ops, as_hmac_secret = secret\<rparr>"

definition sample_request :: check_request where
  "sample_request = \<lparr>hq_client_id = ''a'', hq_resource = ''r'', hq_cost = 1\<rparr>"

definition sample_decision :: "bool \<Rightarrow> i64 \<Rightarrow> decision" where
  "sample_decision allowed retry = \<lparr>d_allowed = allowed, d_limit = 5, d_remaining = 0,
     d_retry_after_ms = retry, d_reason = []\<rparr>"

section \<open>A sample service, started\<close>

definition sample_yaml :: yaml_config where
  "sample_yaml =
     \<lparr>yc_server = Some \<lparr>ys_host = Some ''h'', ys_port = Some 9000, ys_http_port = None,
        ys_strict_security = Some True\<rparr>,
      yc_etcd = None,
      yc_rate_limiter = Some \<lparr>yl_algorithm = Some ''fixed_window'', yl_max_requests = Some 2,
        yl_window_secs = Some 60, yl_bucket_capacity = None, yl_refill_rate = None, yl_leak_rate = None,
        yl_queue_capacity = None\<rparr>\<rparr>"

definition sample_main :: "cluster main_env" where
  "sample_main = \<lparr>me_args = [''server''], me_read_file = (\<lambda>_. Some []), me_parse_yaml = (\<lambda>_. Some sample_yaml),
     me_connect = (\<lambda>_. None), me_bind = (\<lambda>_. True), me_hmac_var = Some ''k''\<rparr>"

definition sample_backing :: "cluster backing timed" where
  "sample_backing = (\<lparr>bk_cluster = new_cluster [], bk_local = local_new\<rparr>, \<lambda>_. quiet (\<lambda>_. 5))"

lemma sample_main_starts:
  "\<exists>V. main_start False sample_codecs sample_main = Inr (Inr V) \<and>
    rl_check (sv_limiter V) = timed_check (fw_check False fw_sample (on_local local_ops) (fw_new 2 60))"
  by (simp add: main_start_def sample_main_def sample_yaml_def config_of_def server_config_of_def
      limiter_config_of_def algorithm_of_name_def build_store_def build_limiter_def sample_codecs_def)

lemma sample_backing_check:
  "\<exists>d w'. timed_check (fw_check False fw_sample (on_local local_ops) (fw_new 2 60)) cid res 1 sample_backing = (Inr d, w')"
proof -
  obtain b d where plan: "planned (fw_plan False fw_sample (fw_new 2 60) 1) 5 None = Inr (b, d)"
    using sample_plan_allows by blast
  let ?w = "\<lparr>bk_cluster = new_cluster [], bk_local = local_new\<rparr>"
  have "\<exists>s' v. check_loop (on_local local_ops) (quiet (\<lambda>_. 5)) (fw_key cid res) (fw_plan False fw_sample (fw_new 2 60) 1)
      (conflict_decision (u64_as_i64 (fw_max_requests (fw_new 2 60)))) ?w = (Inr d, s') \<and>
    local_inv (bk_local s') \<and> ls_state (bk_local s') = (ls_state (bk_local ?w))(fw_key cid res \<mapsto> (b, v))"
    by (rule svc.check_loop_quiet) (use plan in \<open>simp_all add: local_room_def local_new_def local_inv_def\<close>)
  then show ?thesis by (auto simp: timed_check_def fw_check_def sample_backing_def)
qed

section \<open>Properties\<close>

text \<open>C31. The answer to a check, for every limiter start-up can build: status 200 exactly for an
  allowed request, body and \<open>RateLimit\<close> headers from the decision, \<open>Retry-After\<close> exactly on
  a denial with a wait and then equal to \<open>RateLimit-Reset\<close>, the signature exactly when a
  secret is configured and over the decision that the body carries.\<close>

theorem http_check_answer:
  assumes "http_laws H" "build_limiter oc C rl S = Inr R" "as_limiter A = R"
    and "check_handler H A now req w = (Inr (st, hs, body), w')"
  shows "\<exists>d. rl_check R (hq_client_id req) (hq_resource req) (hq_cost req) w = (Inr d, w') \<and>
    body = \<lparr>hr_allowed = d_allowed d, hr_remaining = d_remaining d, hr_retry_after_ms = d_retry_after_ms d,
      hr_reason = d_reason d\<rparr> \<and>
    st = (if d_allowed d then Status_OK else Too_Many_Requests) \<and>
    hs ''ratelimit-limit'' = Some (show_int (service_quota rl)) \<and>
    hs ''ratelimit-remaining'' = Some (show_int (d_remaining d)) \<and>
    hs ''ratelimit-policy'' = Some (rl_name R @ '';l='' @ show_int (service_quota rl)) \<and>
    hs ''ratelimit-reset'' = Some (show_int (if d_allowed d then 0 else max (i64_div (d_retry_after_ms d) 1000) 1)) \<and>
    hs ''retry-after'' = (if d_retry_after_ms d > 0 then hs ''ratelimit-reset'' else None) \<and>
    hs ''x-ratelimit-mac'' = map_option (\<lambda>key. ''t='' @ show_int (http_now_ms now) @ '',v='' @
      hmac_sha256_hex H key (mac_payload req d (http_now_ms now))) (as_hmac_secret A)"
proof -
  from assms(3,4) obtain d where d: "rl_check R (hq_client_id req) (hq_resource req) (hq_cost req) w = (Inr d, w')"
    and ans: "hs = check_headers H (rl_name R) (as_hmac_secret A) now req d"
      "st = (if d_allowed d then Status_OK else Too_Many_Requests)"
      "body = \<lparr>hr_allowed = d_allowed d, hr_remaining = d_remaining d, hr_retry_after_ms = d_retry_after_ms d,
        hr_reason = d_reason d\<rparr>"
    by (auto simp: check_handler_def split: prod.splits sum.splits)
  note heads = check_headers_simps [OF assms(1) build_limiter_name [OF assms(2)]]
  have "d_limit d = service_quota rl" "d_allowed d \<Longrightarrow> d_retry_after_ms d = 0"
    using service_decision_ok [OF assms(2) d] by (simp_all add: decision_ok_def)
  then show ?thesis
    using d by (intro exI [of _ d]) (simp add: ans heads reset_secs_def)
qed

theorem http_check_answer_witness:
  "\<exists>st hs body w'. check_handler sample_crates (sample_app (Some ''k'')) 7 sample_request sample_world
      = (Inr (st, hs, body), w') \<and>
    st = Status_OK \<and> hs ''ratelimit-limit'' = Some ''2'' \<and> hs ''ratelimit-reset'' = Some ''0'' \<and>
    hs ''retry-after'' = None \<and> hs ''x-ratelimit-mac'' \<noteq> None"
proof -
  obtain d w' where run: "rl_check sample_limiter ''a'' ''r'' 1 sample_world = (Inr d, w')" "d_allowed d"
    using sample_limiter_check by blast
  then obtain st hs body where ans: "check_handler sample_crates (sample_app (Some ''k'')) 7 sample_request
      sample_world = (Inr (st, hs, body), w')"
    by (simp add: check_handler_def sample_app_def sample_request_def)
  have "service_quota sample_config = 2" by (simp add: service_quota_def sample_config_def u64_as_i64_def)
  moreover have "show_int 2 = ''2''" "show_int 0 = ''0''"
    by code_simp+
  moreover have "d_retry_after_ms d = 0"
    using service_decision_ok [OF sample_limiter_built run(1)] run(2) by (simp add: decision_ok_def)
  ultimately show ?thesis
    using http_check_answer [OF sample_http_laws sample_limiter_built _ ans] ans run
    by (auto simp: sample_app_def sample_request_def)
qed

text \<open>What a denied client is told to wait, in whole seconds: at least one, the milliseconds
  rounded down from one second on. The wait is too short exactly when the milliseconds are
  above a second and not a whole number of them.\<close>

theorem http_reset_bounds:
  assumes "\<not> d_allowed d" "0 \<le> d_retry_after_ms d"
  shows "1 \<le> reset_secs d \<and> d_retry_after_ms d < 1000 * (reset_secs d + 1) \<and>
    (1000 * reset_secs d < d_retry_after_ms d \<longleftrightarrow> 1000 < d_retry_after_ms d \<and> d_retry_after_ms d mod 1000 \<noteq> 0)"
proof -
  let ?r = "d_retry_after_ms d"
  have eq: "reset_secs d = max (?r div 1000) 1" using assms by (simp add: reset_secs_def i64_div_pos)
  show ?thesis
  proof (cases "?r < 1000")
    case True
    with assms(2) eq show ?thesis by simp
  next
    case False
    define q m where "q = ?r div 1000" and "m = ?r mod 1000"
    have "?r = 1000 * q + m" "0 \<le> m" "m < 1000" by (simp_all add: q_def m_def)
    moreover from this False have "1 \<le> q" by linarith
    ultimately show ?thesis unfolding eq q_def [symmetric] m_def [symmetric] by auto
  qed
qed

theorem http_reset_bounds_witness:
  "reset_secs (sample_decision False 1999) = 1 \<and> 1000 * reset_secs (sample_decision False 1999) < 1999"
  using http_reset_bounds [of "sample_decision False 1999"]
  by (simp add: reset_secs_def i64_div_def sample_decision_def)

text \<open>C32. The signed text determines the request and the decision, when neither client nor
  resource contains a bar: a signature for one answer is not one for another.\<close>

theorem mac_payload_binds:
  assumes "CHR ''|'' \<notin> set (hq_client_id req)" "CHR ''|'' \<notin> set (hq_client_id req')"
    and "CHR ''|'' \<notin> set (hq_resource req)" "CHR ''|'' \<notin> set (hq_resource req')"
    and "mac_payload req d ts = mac_payload req' d' ts'"
  shows "hq_client_id req = hq_client_id req' \<and> hq_resource req = hq_resource req' \<and>
    d_allowed d = d_allowed d' \<and> d_remaining d = d_remaining d' \<and>
    d_retry_after_ms d = d_retry_after_ms d' \<and> ts = ts'"
  using assms by (auto simp: mac_payload_def append_sep_eq dest: show_int_inject show_bool_inject)

theorem mac_payload_binds_witness:
  "mac_payload sample_request (sample_decision True 0) 7 \<noteq> mac_payload sample_request (sample_decision False 0) 7"
  using mac_payload_binds [of sample_request sample_request "sample_decision True 0" 7 "sample_decision False 0" 7]
  by (auto simp: sample_request_def sample_decision_def)

text \<open>With bars it does not: client \<open>a|b\<close> on resource \<open>c\<close> and client \<open>a\<close> on resource \<open>b|c\<close>
  have the same signed text.\<close>

theorem mac_payload_collides:
  "mac_payload \<lparr>hq_client_id = a @ ''|'' @ b, hq_resource = c, hq_cost = n\<rparr> d ts
    = mac_payload \<lparr>hq_client_id = a, hq_resource = b @ ''|'' @ c, hq_cost = n\<rparr> d ts"
  by (simp add: mac_payload_def)

text \<open>The readiness probe says 200 always over the local store, and over etcd exactly when
  the cluster answers the probe's read.\<close>

theorem readiness_follows_store:
  assumes "build_store connect cfg = Some (as_store A)"
  shows "case cf_etcd cfg of
      None \<Rightarrow> fst (health_ready A w) = Status_OK
    | Some e \<Rightarrow> \<exists>K. connect (ec_endpoints e) = Some K \<and>
        fst (health_ready A w) = (if fst (ec_get K ''__ping__'' (Some 1) (bk_cluster w)) = None
          then Service_Unavailable else Status_OK)"
proof (cases "cf_etcd cfg")
  case None
  with assms have "as_store A = on_local local_ops" by (simp add: build_store_def)
  with None show ?thesis by (simp add: health_ready_def ping_local)
next
  case (Some e)
  with assms obtain K where K: "connect (ec_endpoints e) = Some K"
    and store: "as_store A = on_cluster (etcd_ops K \<lparr>es_prefix = ec_key_prefix e\<rparr>)"
    by (auto simp: build_store_def etcd_connect_def bind_eq_Some_conv)
  have "fst (health_ready A w) = (if fst (ec_get K ''__ping__'' (Some 1) (bk_cluster w)) = None
      then Service_Unavailable else Status_OK)"
    using ping_cluster [of K "\<lparr>es_prefix = ec_key_prefix e\<rparr>" w]
    by (simp only: health_ready_def store) (simp add: split_beta del: One_nat_def)
  with Some K show ?thesis by auto
qed

definition sample_cluster_config :: config where
  "sample_cluster_config = \<lparr>cf_server = \<lparr>sc_host = ''h'', sc_port = 9000, sc_http_port = 8080,
      sc_strict_security = False\<rparr>, cf_etcd = Some \<lparr>ec_endpoints = [], ec_key_prefix = ''p''\<rparr>,
      cf_rate_limiter = sample_config\<rparr>"

theorem readiness_follows_store_witness:
  "\<exists>A. build_store (\<lambda>_. Some sample_client) sample_cluster_config = Some (as_store A) \<and>
    fst (health_ready A \<lparr>bk_cluster = new_cluster [True], bk_local = local_new\<rparr>) = Service_Unavailable"
proof -
  obtain S where S: "build_store (\<lambda>_. Some sample_client) sample_cluster_config = Some S"
    by (simp add: build_store_def etcd_connect_def sample_cluster_config_def)
  then have "build_store (\<lambda>_. Some sample_client) sample_cluster_config
      = Some (as_store \<lparr>as_limiter = undefined, as_store = S, as_hmac_secret = None\<rparr>)" by simp
  from this readiness_follows_store [OF this, of "\<lparr>bk_cluster = new_cluster [True], bk_local = local_new\<rparr>"]
  show ?thesis
    by (intro exI, intro conjI) (assumption, simp add: sample_cluster_config_def sample_client_def answer_def new_cluster_def)
qed

text \<open>C33. A service that has started answers with the limit of its configuration, and signs its
  answers exactly when \<open>strict_security\<close> is set and a non-empty key is in the environment:
  with the switch on and no key it serves unsigned.\<close>

theorem started_service_answers:
  assumes "http_laws H" "main_start oc C E = Inr (Inr V)"
    and "check_handler H (app_state_of V) now req w = (Inr (st, hs, body), w')"
  shows "\<exists>s cfg. me_read_file E (if 1 < length (me_args E) then me_args E ! 1 else ''config.yaml'') = Some s \<and>
    Option.bind (me_parse_yaml E s) config_of = Some cfg \<and>
    build_store (me_connect E) cfg = Some (sv_store V) \<and>
    hs ''ratelimit-limit'' = Some (show_int (service_quota (cf_rate_limiter cfg))) \<and>
    (hs ''x-ratelimit-mac'' \<noteq> None \<longleftrightarrow> sc_strict_security (cf_server cfg) \<and>
      (\<exists>key. me_hmac_var E = Some key \<and> key \<noteq> ''''))"
proof -
  from assms(2) obtain s cfg where cfg: "me_read_file E (if 1 < length (me_args E) then me_args E ! 1
      else ''config.yaml'') = Some s" "Option.bind (me_parse_yaml E s) config_of = Some cfg"
    and store: "build_store (me_connect E) cfg = Some (sv_store V)"
    and built: "build_limiter oc C (cf_rate_limiter cfg) (sv_store V) = Inr (sv_limiter V)"
    and key: "sv_hmac_secret V = resolve_hmac (cf_server cfg) (me_hmac_var E)"
    by (auto simp: main_start_def Let_def and_then_eq_Inr split: option.splits if_splits)
  obtain d where d: "rl_check (sv_limiter V) (hq_client_id req) (hq_resource req) (hq_cost req) w = (Inr d, w')"
    and hs: "hs = check_headers H (rl_name (sv_limiter V)) (sv_hmac_secret V) now req d"
    using assms(3) by (auto simp: check_handler_def app_state_of_def split: prod.splits sum.splits)
  note heads = check_headers_simps [OF assms(1) build_limiter_name [OF built]]
  have "d_limit d = service_quota (cf_rate_limiter cfg)"
    using service_decision_ok [OF built d] by (simp add: decision_ok_def)
  then have "hs ''ratelimit-limit'' = Some (show_int (service_quota (cf_rate_limiter cfg)))"
    by (simp add: hs heads)
  moreover have "hs ''x-ratelimit-mac'' \<noteq> None \<longleftrightarrow> sc_strict_security (cf_server cfg) \<and>
      (\<exists>key. me_hmac_var E = Some key \<and> key \<noteq> '''')"
    by (auto simp: hs heads key resolve_hmac_def split: option.splits if_splits)
  ultimately show ?thesis using cfg store by blast
qed

theorem started_service_answers_witness:
  "\<exists>V st hs body w'. main_start False sample_codecs sample_main = Inr (Inr V) \<and>
    check_handler sample_crates (app_state_of V) 7 sample_request sample_backing = (Inr (st, hs, body), w') \<and>
    hs ''x-ratelimit-mac'' \<noteq> None"
proof -
  obtain V where V: "main_start False sample_codecs sample_main = Inr (Inr V)"
    and chk: "rl_check (sv_limiter V) = timed_check (fw_check False fw_sample (on_local local_ops) (fw_new 2 60))"
    using sample_main_starts by blast
  obtain d w' where "rl_check (sv_limiter V) ''a'' ''r'' 1 sample_backing = (Inr d, w')"
    using sample_backing_check chk by metis
  then obtain st hs body where ans:
    "check_handler sample_crates (app_state_of V) 7 sample_request sample_backing = (Inr (st, hs, body), w')"
    by (simp add: check_handler_def app_state_of_def sample_request_def)
  from started_service_answers [OF sample_http_laws V ans] have "hs ''x-ratelimit-mac'' \<noteq> None"
    by (auto simp: sample_main_def sample_yaml_def config_of_def server_config_of_def limiter_config_of_def
        algorithm_of_name_def)
  with V ans show ?thesis by blast
qed

end
