(* ===== verification/Front_End.thy ===== *)
theory Front_End
  imports Tcp_Session Http_Server "HOL-Library.Sublist"
begin

text \<open>
  The running process: \<open>Server::run\<close> accepts connections and spawns a task for each,
  \<open>http_server::start\<close> serves requests beside it, and \<open>main\<close> waits for either to return. All of
  them share one limiter. A step is one accepted connection, one round of a connection's loop,
  one HTTP request or one probe; ghost fields keep what was asked of the limiter.
\<close>

section \<open>One round of a connection\<close>

definition conn_round :: "('b, 'v) flatbuffers \<Rightarrow> 'w rate_limiter \<Rightarrow> conn \<Rightarrow> 'w \<Rightarrow> conn_end option \<times> conn \<times> 'w" where
  "conn_round F L c w =
     (case read_exact 4 c of
        (Inl e, c1) \<Rightarrow> (Some (if e = Unexpected_Eof then Closed else Io_Failed e), c1, w)
      | (Inr len_buf, c1) \<Rightarrow>
          let msg_len = unat (u32_from_le_bytes len_buf) in
          if msg_len = 0 \<or> msg_len > max_msg_bytes then (Some Closed, c1, w)
          else (case read_exact msg_len c1 of
            (Inl e, c2) \<Rightarrow> (Some (Io_Failed e), c2, w)
          | (Inr body, c2) \<Rightarrow>
              (case root_as_rate_limit_request F body of
                 None \<Rightarrow> (Some Closed, c2, w)
               | Some req \<Rightarrow>
                   let client_id = (case rq_client_id F req of None \<Rightarrow> ''unknown'' | Some s \<Rightarrow> s);
                       resource = (case rq_resource F req of None \<Rightarrow> ''/'' | Some s \<Rightarrow> s);
                       cost = rq_cost F req
                   in (case rl_check L client_id resource cost w of
                         (Inl p, w') \<Rightarrow> (Some (Task_Panicked p), c2, w')
                       | (Inr d, w') \<Rightarrow>
                           let resp_bytes = encode_response F d in
                           (case write_all (u32_to_le_bytes (len_as_u32 resp_bytes)) c2 of
                              (Inl e, c3) \<Rightarrow> (Some (Io_Failed e), c3, w')
                            | (Inr _, c3) \<Rightarrow>
                                (case write_all resp_bytes c3 of
                                   (Inl e, c4) \<Rightarrow> (Some (Io_Failed e), c4, w')
                                 | (Inr _, c4) \<Rightarrow> (None, c4, w')))))))"

lemma handle_conn_rounds:
  "handle_conn F L c w = (case conn_round F L c w of
     (Some e, c', w') \<Rightarrow> (e, c', w') | (None, c', w') \<Rightarrow> handle_conn F L c' w')"
  by (subst handle_conn.simps, unfold conn_round_def Let_def)
    (auto split: prod.split sum.split option.split)

section \<open>The process\<close>

text \<open>What was asked of the limiter or the store, by which connection or over HTTP.\<close>

datatype entry =
  Checked "nat option" string string u32 "decision res"
| Pinged bool

record task_state =
  ts_peer :: conn  \<comment> \<open>ghost: the connection as it was accepted\<close>
  ts_conn :: conn
  ts_end :: "conn_end option"

datatype phase = Booting | Serving | Stopped

record 'w front =
  fr_phase :: phase
  fr_tasks :: "nat \<rightharpoonup> task_state"
  fr_world :: "'w timed"
  fr_answers :: "(status_code \<times> header_map \<times> check_response) res list"
  fr_log :: "entry list"

definition front_init :: "'w timed \<Rightarrow> 'w front" where
  "front_init w = \<lparr>fr_phase = Booting, fr_tasks = Map.empty, fr_world = w, fr_answers = [], fr_log = []\<rparr>"

definition recording :: "nat option \<Rightarrow> 'w rate_limiter \<Rightarrow> ('w \<times> entry list) rate_limiter" where
  "recording i L =
     \<lparr>rl_check = (\<lambda>cid res cost (w, es). case rl_check L cid res cost w of
        (r, w') \<Rightarrow> (r, (w', es @ [Checked i cid res cost r]))),
      rl_name = rl_name L\<rparr>"

inductive front_step :: "('b, 'v) flatbuffers \<Rightarrow> http_crates \<Rightarrow> 'w app_state \<Rightarrow> 'w front \<Rightarrow> 'w front \<Rightarrow> bool"
  for F H A where
  accepted: "fr_phase S \<noteq> Stopped \<Longrightarrow> fr_tasks S i = None \<Longrightarrow> cn_out c = [] \<Longrightarrow>
    front_step F H A S (S\<lparr>fr_tasks := (fr_tasks S)(i \<mapsto> \<lparr>ts_peer = c, ts_conn = c, ts_end = None\<rparr>)\<rparr>)"
| accept_failed: "fr_phase S \<noteq> Stopped \<Longrightarrow> front_step F H A S S"
| round: "fr_phase S \<noteq> Stopped \<Longrightarrow> fr_tasks S i = Some t \<Longrightarrow> ts_end t = None \<Longrightarrow>
    conn_round F (recording (Some i) (as_limiter A)) (ts_conn t) (fr_world S, fr_log S) = (e, c, (w, es)) \<Longrightarrow>
    front_step F H A S (S\<lparr>fr_tasks := (fr_tasks S)(i \<mapsto> t\<lparr>ts_conn := c, ts_end := e\<rparr>), fr_world := w, fr_log := es\<rparr>)"
| http_bound: "fr_phase S = Booting \<Longrightarrow> front_step F H A S (S\<lparr>fr_phase := Serving\<rparr>)"
| http_check: "fr_phase S = Serving \<Longrightarrow> check_handler H A now req (fr_world S) = (ans, w) \<Longrightarrow>
    front_step F H A S (S\<lparr>fr_world := w, fr_answers := fr_answers S @ [ans],
      fr_log := fr_log S @ [Checked None (hq_client_id req) (hq_resource req) (hq_cost req)
        (fst (rl_check (as_limiter A) (hq_client_id req) (hq_resource req) (hq_cost req) (fr_world S)))]\<rparr>)"
| http_ready: "fr_phase S = Serving \<Longrightarrow> fr_world S = (w, envs) \<Longrightarrow> health_ready A w = (status, w') \<Longrightarrow>
    front_step F H A S (S\<lparr>fr_world := (w', envs), fr_log := fr_log S @ [Pinged (status = Status_OK)]\<rparr>)"
| http_ended: "fr_phase S \<noteq> Stopped \<Longrightarrow> front_step F H A S (S\<lparr>fr_phase := Stopped\<rparr>)"

section \<open>The log as a sequential run\<close>

fun serial :: "'w app_state \<Rightarrow> entry list \<Rightarrow> 'w timed \<Rightarrow> 'w timed \<Rightarrow> bool" where
  "serial A [] w w' \<longleftrightarrow> w = w'"
| "serial A (Checked i cid res cost r # es) w w' \<longleftrightarrow>
     (case rl_check (as_limiter A) cid res cost w of (r1, w1) \<Rightarrow> r1 = r \<and> serial A es w1 w')"
| "serial A (Pinged ok # es) w w' \<longleftrightarrow>
     (case ss_ping (as_store A) (fst w) of (ok1, u) \<Rightarrow> ok1 = ok \<and> serial A es (u, snd w) w')"

lemma serial_append: "serial A (es @ es') w w' \<longleftrightarrow> (\<exists>u. serial A es w u \<and> serial A es' u w')"
proof (induction es arbitrary: w)
  case (Cons e es)
  then show ?case by (cases e) (auto split: prod.splits)
qed auto

lemma serial_checked:
  "serial A es w u \<Longrightarrow> rl_check (as_limiter A) cid res cost u = (r, w') \<Longrightarrow>
    serial A (es @ [Checked i cid res cost r]) w w'"
  unfolding serial_append by (rule exI [of _ u]) simp

lemma serial_pinged:
  "serial A es w u \<Longrightarrow> ss_ping (as_store A) (fst u) = (ok, s) \<Longrightarrow> serial A (es @ [Pinged ok]) w (s, snd u)"
  unfolding serial_append by (rule exI [of _ u]) simp

text \<open>What one source asked, and what it was told.\<close>

type_synonym ask = "string \<times> string \<times> u32"

fun asks_of :: "nat option \<Rightarrow> entry list \<Rightarrow> (ask \<times> decision res) list" where
  "asks_of i [] = []"
| "asks_of i (Checked j cid res cost r # es) =
     (if j = i then ((cid, res, cost), r) # asks_of i es else asks_of i es)"
| "asks_of i (Pinged ok # es) = asks_of i es"

lemma asks_of_append [simp]: "asks_of i (es @ es') = asks_of i es @ asks_of i es'"
proof (induction es)
  case (Cons e es)
  then show ?case by (cases e) auto
qed simp

definition rights :: "(ask \<times> decision res) list \<Rightarrow> decision list" where
  "rights qs = concat (map (\<lambda>q. case snd q of Inl _ \<Rightarrow> [] | Inr d \<Rightarrow> [d]) qs)"

lemma rights_simps [simp]:
  "rights [] = []" "rights (qs @ qs') = rights qs @ rights qs'"
  "rights ((q, Inr d) # qs) = d # rights qs" "rights ((q, Inl p) # qs) = rights qs"
  by (simp_all add: rights_def)

text \<open>What a frame asks, and what the answers to a list of decisions look like on the wire.\<close>

definition asked :: "('b, 'v) flatbuffers \<Rightarrow> bytes \<Rightarrow> ask option" where
  "asked F body = map_option (\<lambda>req.
     (case rq_client_id F req of None \<Rightarrow> ''unknown'' | Some s \<Rightarrow> s,
      case rq_resource F req of None \<Rightarrow> ''/'' | Some s \<Rightarrow> s, rq_cost F req)) (root_as_rate_limit_request F body)"

definition responses :: "('b, 'v) flatbuffers \<Rightarrow> decision list \<Rightarrow> bytes" where
  "responses F ds = concat (map (\<lambda>d. frame (encode_response F d)) ds)"

lemma responses_simps [simp]:
  "responses F [] = []" "responses F (ds @ ds') = responses F ds @ responses F ds'"
  "responses F (d # ds) = frame (encode_response F d) @ responses F ds"
  by (simp_all add: responses_def)

section \<open>What one round does\<close>

lemma u32_to_from_le_bytes:
  assumes "length b = 4"
  shows "u32_to_le_bytes (u32_from_le_bytes b) = b"
proof -
  from assms obtain b0 b1 b2 b3 where b: "b = [b0, b1, b2, b3]"
    by (auto simp: numeral_eq_Suc length_Suc_conv)
  show ?thesis
    unfolding b u32_to_le_bytes_def u32_from_le_bytes_def
    by (auto simp: bit_simps bit_eq_iff dest: bit_imp_le_length)
qed

lemma frame_of_header:
  assumes "read_exact 4 c = (Inr hdr, c1)" "read_exact (unat (u32_from_le_bytes hdr)) c1 = (Inr body, c2)"
  shows "cn_in c = frame body @ cn_in c2" "length body = unat (u32_from_le_bytes hdr)"
proof -
  from assms(1) have hdr: "hdr = take 4 (cn_in c)" "cn_in c1 = drop 4 (cn_in c)" "length hdr = 4"
    by (auto simp: read_exact_def split: if_splits)
  from assms(2) have body: "cn_in c1 = body @ cn_in c2" and len: "length body = unat (u32_from_le_bytes hdr)"
    by (auto simp: read_exact_def split: if_splits)
  show "length body = unat (u32_from_le_bytes hdr)" by (rule len)
  have "len_as_u32 body = u32_from_le_bytes hdr" by (simp add: len_as_u32_def len)
  then have "frame body = hdr @ body" using u32_to_from_le_bytes [OF hdr(3)] by (simp add: frame_def)
  with body hdr show "cn_in c = frame body @ cn_in c2" by (metis append.assoc append_take_drop_id)
qed

lemma write_failed:
  "write_all bs c = (Inl e, c1) \<Longrightarrow> cn_room c \<noteq> None \<and> prefix (cn_out c1) (cn_out c @ bs)"
  by (cases "cn_room c") (auto simp: write_all_def take_is_prefix simp del: write_all_in split: if_splits)

lemma write_done:
  "write_all bs c = (Inr u, c1) \<Longrightarrow> cn_out c1 = cn_out c @ bs \<and> (cn_room c1 = None \<longleftrightarrow> cn_room c = None)"
  by (cases "cn_room c") (auto simp: write_all_def simp del: write_all_in split: if_splits)

lemma read_keeps:
  "read_exact n c = (r, c1) \<Longrightarrow> cn_out c1 = cn_out c \<and> cn_room c1 = cn_room c"
  by (auto simp: read_exact_def split: if_splits)

definition replied :: "('b, 'v) flatbuffers \<Rightarrow> decision res \<Rightarrow> conn \<Rightarrow> conn_end option \<Rightarrow> conn \<Rightarrow> bool" where
  "replied F r c e c' \<longleftrightarrow>
     (case r of
        Inl p \<Rightarrow> e = Some (Task_Panicked p) \<and> cn_out c' = cn_out c \<and> cn_room c' = cn_room c
      | Inr d \<Rightarrow>
          if e = None
          then cn_out c' = cn_out c @ frame (encode_response F d) \<and> (cn_room c' = None \<longleftrightarrow> cn_room c = None)
          else cn_room c \<noteq> None \<and> prefix (cn_out c') (cn_out c @ frame (encode_response F d)))"

text \<open>Writing the answer to one decision.\<close>

definition send :: "('b, 'v) flatbuffers \<Rightarrow> decision \<Rightarrow> conn \<Rightarrow> conn_end option \<times> conn" where
  "send F d c =
     (case write_all (u32_to_le_bytes (len_as_u32 (encode_response F d))) c of
        (Inl e, c3) \<Rightarrow> (Some (Io_Failed e), c3)
      | (Inr _, c3) \<Rightarrow>
          (case write_all (encode_response F d) c3 of
             (Inl e, c4) \<Rightarrow> (Some (Io_Failed e), c4)
           | (Inr _, c4) \<Rightarrow> (None, c4)))"

lemma send_replied:
  assumes "send F d c = (e, c')"
  shows "replied F (Inr d) c e c' \<and> cn_in c' = cn_in c"
proof -
  let ?hdr = "u32_to_le_bytes (len_as_u32 (encode_response F d))"
  have frame: "frame (encode_response F d) = ?hdr @ encode_response F d" by (simp add: frame_def)
  obtain r1 c3 where w1: "write_all ?hdr c = (r1, c3)" by fastforce
  obtain r2 c4 where w2: "write_all (encode_response F d) c3 = (r2, c4)" by fastforce
  have ins: "cn_in c3 = cn_in c" "cn_in c4 = cn_in c"
    using write_all_in [OF w1] write_all_in [OF w2] by simp_all
  show ?thesis
  proof (cases r1)
    case (Inl err)
    then have "e = Some (Io_Failed err)" "c' = c3" using assms w1 by (simp_all add: send_def)
    moreover have "cn_room c \<noteq> None \<and> prefix (cn_out c3) (cn_out c @ ?hdr)"
      using write_failed w1 Inl by blast
    then have "cn_room c \<noteq> None \<and> prefix (cn_out c3) (cn_out c @ ?hdr @ encode_response F d)"
      by (metis append.assoc prefix_append prefix_order.dual_order.trans prefixI)
    ultimately show ?thesis using ins by (simp add: replied_def frame)
  next
    case (Inr u)
    with w1 have c3: "cn_out c3 = cn_out c @ ?hdr" "cn_room c3 = None \<longleftrightarrow> cn_room c = None"
      using write_done by blast+
    show ?thesis
    proof (cases r2)
      case (Inl err)
      then have "e = Some (Io_Failed err)" "c' = c4" using assms w1 w2 Inr by (simp_all add: send_def)
      moreover have "cn_room c3 \<noteq> None \<and> prefix (cn_out c4) (cn_out c3 @ encode_response F d)"
        using write_failed w2 Inl by blast
      ultimately show ?thesis using ins c3 by (simp add: replied_def frame)
    next
      case (Inr v)
      then have "e = None" "c' = c4" using assms w1 w2 \<open>r1 = Inr u\<close> by (simp_all add: send_def)
      moreover have "cn_out c4 = cn_out c3 @ encode_response F d \<and> (cn_room c4 = None \<longleftrightarrow> cn_room c3 = None)"
        using write_done w2 Inr by blast
      ultimately show ?thesis using ins c3 by (simp add: replied_def frame)
    qed
  qed
qed

lemma conn_round_send:
  "conn_round F L c w = (case read_exact 4 c of
      (Inl e, c1) \<Rightarrow> (Some (if e = Unexpected_Eof then Closed else Io_Failed e), c1, w)
    | (Inr hdr, c1) \<Rightarrow>
        if unat (u32_from_le_bytes hdr) = 0 \<or> unat (u32_from_le_bytes hdr) > max_msg_bytes
        then (Some Closed, c1, w)
        else (case read_exact (unat (u32_from_le_bytes hdr)) c1 of
            (Inl e, c2) \<Rightarrow> (Some (Io_Failed e), c2, w)
          | (Inr body, c2) \<Rightarrow> (case asked F body of
              None \<Rightarrow> (Some Closed, c2, w)
            | Some (cid, res, cost) \<Rightarrow> (case rl_check L cid res cost w of
                (Inl p, w') \<Rightarrow> (Some (Task_Panicked p), c2, w')
              | (Inr d, w') \<Rightarrow> (case send F d c2 of (e, c') \<Rightarrow> (e, c', w'))))))"
  unfolding conn_round_def asked_def send_def Let_def
  by (auto split: prod.split sum.split option.split)

lemma conn_round_cases:
  assumes "conn_round F (recording i L) c (w, es) = (e, c', (w', es'))"
  obtains (quiet) "e \<noteq> None" "w' = w" "es' = es" "cn_out c' = cn_out c" "cn_room c' = cn_room c"
  | (asking) body cid res cost r where "asked F body = Some (cid, res, cost)" "frame_ok body"
      "cn_in c = frame body @ cn_in c'" "rl_check L cid res cost w = (r, w')"
      "es' = es @ [Checked i cid res cost r]" "replied F r c e c'"
proof -
  obtain r1 c1 where r1: "read_exact 4 c = (r1, c1)" by fastforce
  note keep1 = read_keeps [OF r1]
  show thesis
  proof (cases r1)
    case (Inl err)
    with assms r1 keep1 show thesis by (intro quiet) (auto simp: conn_round_send)
  next
    case (Inr hdr)
    let ?n = "unat (u32_from_le_bytes hdr)"
    obtain r2 c2 where r2: "read_exact ?n c1 = (r2, c2)" by fastforce
    note keep2 = read_keeps [OF r2]
    show thesis
    proof (cases "?n = 0 \<or> ?n > max_msg_bytes")
      case True
      with assms r1 Inr keep1 show thesis by (intro quiet) (auto simp: conn_round_send)
    next
      case ok: False
      show thesis
      proof (cases r2)
        case (Inl err)
        with assms r1 r2 \<open>r1 = Inr hdr\<close> ok keep1 keep2 show thesis by (intro quiet) (auto simp: conn_round_send)
      next
        case body: (Inr body)
        note frame = frame_of_header [OF r1 [unfolded Inr] r2 [unfolded body]]
        show thesis
        proof (cases "asked F body")
          case None
          with assms r1 r2 Inr body ok keep1 keep2 show thesis by (intro quiet) (auto simp: conn_round_send)
        next
          case (Some q)
          obtain cid res cost where q: "q = (cid, res, cost)" by (cases q)
          obtain r w1 where chk: "rl_check L cid res cost w = (r, w1)" by fastforce
          have run: "conn_round F (recording i L) c (w, es) = (case r of
              Inl p \<Rightarrow> (Some (Task_Panicked p), c2, (w1, es @ [Checked i cid res cost r]))
            | Inr d \<Rightarrow> (case send F d c2 of (e, c') \<Rightarrow> (e, c', (w1, es @ [Checked i cid res cost r]))))"
            using r1 r2 Inr body ok Some q chk by (auto simp: conn_round_send recording_def split: sum.split)
          have "w' = w1" "es' = es @ [Checked i cid res cost r]" "replied F r c e c'" "cn_in c' = cn_in c2"
            using assms run keep1 keep2 send_replied [of F _ c2 e c']
            by (auto simp: replied_def split: sum.splits prod.splits)
          moreover have "frame_ok body" using ok frame(2) by (auto simp: frame_ok_def)
          ultimately show thesis using frame(1) Some q chk by (intro asking [of body cid res cost r]) simp_all
        qed
      qed
    qed
  qed
qed

section \<open>What the process keeps\<close>

text \<open>
  A task has answered the frames it has read, and its input starts with them; while it runs, or
  when the peer takes everything, it has written exactly the responses.
\<close>

definition task_ok :: "('b, 'v) flatbuffers \<Rightarrow> (ask \<times> decision res) list \<Rightarrow> task_state \<Rightarrow> bool" where
  "task_ok F qs t \<longleftrightarrow> (\<exists>bodies. map (asked F) bodies = map (\<lambda>q. Some (fst q)) qs \<and> list_all frame_ok bodies \<and>
     (if ts_end t = None
      then cn_in (ts_peer t) = concat (map frame bodies) @ cn_in (ts_conn t) \<and>
        (cn_room (ts_conn t) = None \<longleftrightarrow> cn_room (ts_peer t) = None)
      else prefix (concat (map frame bodies)) (cn_in (ts_peer t)))) \<and>
   prefix (cn_out (ts_conn t)) (responses F (rights qs)) \<and>
   (ts_end t = None \<or> cn_room (ts_peer t) = None \<longrightarrow> cn_out (ts_conn t) = responses F (rights qs))"

definition http_view :: "decision \<Rightarrow> status_code \<times> check_response" where
  "http_view d = (if d_allowed d then Status_OK else Too_Many_Requests,
     \<lparr>hr_allowed = d_allowed d, hr_remaining = d_remaining d, hr_retry_after_ms = d_retry_after_ms d,
      hr_reason = d_reason d\<rparr>)"

definition without_headers :: "(status_code \<times> header_map \<times> check_response) res \<Rightarrow> (status_code \<times> check_response) res" where
  "without_headers = map_sum id (\<lambda>(st, hs, body). (st, body))"

definition front_inv :: "('b, 'v) flatbuffers \<Rightarrow> 'w app_state \<Rightarrow> 'w timed \<Rightarrow> 'w front \<Rightarrow> bool" where
  "front_inv F A w S \<longleftrightarrow> serial A (fr_log S) w (fr_world S) \<and>
     (\<forall>i. fr_tasks S i = None \<longrightarrow> asks_of (Some i) (fr_log S) = []) \<and>
     (\<forall>i t. fr_tasks S i = Some t \<longrightarrow> task_ok F (asks_of (Some i) (fr_log S)) t) \<and>
     map without_headers (fr_answers S) = map (\<lambda>q. map_sum id http_view (snd q)) (asks_of None (fr_log S))"

lemma front_inv_init: "front_inv F A w (front_init w)"
  by (simp add: front_inv_def front_init_def)

lemma task_ok_accepted: "cn_out c = [] \<Longrightarrow> task_ok F [] \<lparr>ts_peer = c, ts_conn = c, ts_end = None\<rparr>"
  by (simp add: task_ok_def)

lemma task_ok_quiet:
  assumes "task_ok F qs t" "ts_end t = None" "e \<noteq> None" "cn_out c = cn_out (ts_conn t)"
  shows "task_ok F qs (t\<lparr>ts_conn := c, ts_end := e\<rparr>)"
  using assms by (fastforce simp: task_ok_def)

lemma task_ok_asking:
  assumes ok: "task_ok F qs t" "ts_end t = None"
    and body: "asked F body = Some q" "frame_ok body" "cn_in (ts_conn t) = frame body @ cn_in c"
    and reply: "replied F r (ts_conn t) e c"
  shows "task_ok F (qs @ [(q, r)]) (t\<lparr>ts_conn := c, ts_end := e\<rparr>)"
proof -
  let ?out = "responses F (rights qs)"
  from ok obtain bodies where bodies: "map (asked F) bodies = map (\<lambda>q. Some (fst q)) qs" "list_all frame_ok bodies"
    "cn_in (ts_peer t) = concat (map frame bodies) @ cn_in (ts_conn t)"
    and room: "cn_room (ts_conn t) = None \<longleftrightarrow> cn_room (ts_peer t) = None" and out: "cn_out (ts_conn t) = ?out"
    by (auto simp: task_ok_def)
  have more: "map (asked F) (bodies @ [body]) = map (\<lambda>q. Some (fst q)) (qs @ [(q, r)])"
    "list_all frame_ok (bodies @ [body])" "cn_in (ts_peer t) = concat (map frame (bodies @ [body])) @ cn_in c"
    using bodies body by simp_all
  show ?thesis
  proof (cases r)
    case (Inl p)
    with reply out more show ?thesis
      by (auto simp: task_ok_def replied_def intro!: exI [of _ "bodies @ [body]"])
  next
    case (Inr d)
    with reply out room more show ?thesis
      by (auto simp: task_ok_def replied_def split: if_splits intro!: exI [of _ "bodies @ [body]"])
  qed
qed

lemma task_ok_frames:
  assumes "task_ok F qs t"
  shows "\<exists>bodies. prefix (concat (map frame bodies)) (cn_in (ts_peer t)) \<and>
    map (asked F) bodies = map (\<lambda>q. Some (fst q)) qs"
proof -
  from assms obtain bodies where "map (asked F) bodies = map (\<lambda>q. Some (fst q)) qs"
    "prefix (concat (map frame bodies)) (cn_in (ts_peer t))"
    by (cases "ts_end t = None") (auto simp: task_ok_def)
  then show ?thesis by blast
qed

lemma front_inv_step:
  assumes "front_step F H A S S'" "front_inv F A w0 S"
  shows "front_inv F A w0 S'"
  using assms
proof (induction rule: front_step.induct)
  case (accepted S i c)
  then show ?case by (auto simp: front_inv_def task_ok_accepted)
next
  case (round S i t e c w es)
  have inv: "serial A (fr_log S) w0 (fr_world S)" "task_ok F (asks_of (Some i) (fr_log S)) t"
    using round by (simp_all add: front_inv_def)
  from round(4) show ?case
  proof (cases rule: conn_round_cases)
    case quiet
    with round inv task_ok_quiet [OF inv(2) round(3) quiet(1,4)] show ?thesis
      by (auto simp: front_inv_def)
  next
    case (asking body cid res cost r)
    have "task_ok F (asks_of (Some i) es) (t\<lparr>ts_conn := c, ts_end := e\<rparr>)"
      using task_ok_asking [OF inv(2) round(3) asking(1,2,3,6)] asking(5) by simp
    moreover have "serial A es w0 w" using inv(1) asking(4,5)
      by (simp add: serial_checked)
    ultimately show ?thesis using round asking(5) by (auto simp: front_inv_def)
  qed
next
  case (http_check S now req ans w)
  obtain r w1 where chk: "rl_check (as_limiter A) (hq_client_id req) (hq_resource req) (hq_cost req) (fr_world S) = (r, w1)"
    by (metis surj_pair)
  then have "w1 = w" "without_headers ans = map_sum id http_view r"
    using http_check(2) by (auto simp: check_handler_def without_headers_def http_view_def split: sum.splits)
  with http_check(3) chk show ?case by (auto simp: front_inv_def serial_checked)
next
  case (http_ready S w envs status w')
  obtain ok u where ping: "ss_ping (as_store A) w = (ok, u)" by fastforce
  then have "u = w'" "(status = Status_OK) = ok"
    using http_ready(3) by (auto simp: health_ready_def split: if_splits)
  with ping http_ready serial_pinged [of A "fr_log S" w0 "fr_world S" ok u] show ?case
    by (auto simp: front_inv_def)
qed (simp_all add: front_inv_def)

lemma front_reach_inv:
  assumes "(front_step F H A)\<^sup>*\<^sup>* (front_init w) S"
  shows "front_inv F A w S"
  using assms by (induction rule: rtranclp_induct) (auto intro: front_inv_init front_inv_step)

section \<open>A connection alone\<close>

text \<open>
  When only one connection is scheduled, its rounds are \<open>handle_conn\<close>; nothing else is touched.
\<close>

lemma conn_round_shrinks:
  "conn_round F (recording i L) c (w, es) = (None, c', (w', es')) \<Longrightarrow> length (cn_in c') < length (cn_in c)"
  by (erule conn_round_cases) (auto simp: frame_def)

lemma conn_round_recording:
  "conn_round F L c w = (case conn_round F (recording i L) c (w, es) of (e, c', (w', es')) \<Rightarrow> (e, c', w'))"
  unfolding conn_round_send
  by (auto simp: recording_def split: prod.split sum.split option.split)

lemma front_drain:
  assumes "fr_phase S \<noteq> Stopped" "fr_tasks S i = Some t" "ts_end t = None"
    and "handle_conn F (as_limiter A) (ts_conn t) (fr_world S) = (e, c, w)"
  shows "\<exists>es. (front_step F H A)\<^sup>*\<^sup>* S (S\<lparr>fr_tasks := (fr_tasks S)(i \<mapsto> t\<lparr>ts_conn := c, ts_end := Some e\<rparr>),
    fr_world := w, fr_log := es\<rparr>)"
  using assms
proof (induction "length (cn_in (ts_conn t))" arbitrary: S t rule: less_induct)
  case less
  obtain e1 c1 w1 es1 where one:
    "conn_round F (recording (Some i) (as_limiter A)) (ts_conn t) (fr_world S, fr_log S) = (e1, c1, (w1, es1))"
    by (metis surj_pair)
  let ?S1 = "S\<lparr>fr_tasks := (fr_tasks S)(i \<mapsto> t\<lparr>ts_conn := c1, ts_end := e1\<rparr>), fr_world := w1, fr_log := es1\<rparr>"
  have step: "front_step F H A S ?S1" by (rule round [OF less.prems(1-3) one])
  have plain: "conn_round F (as_limiter A) (ts_conn t) (fr_world S) = (e1, c1, w1)"
    using conn_round_recording [of F "as_limiter A" "ts_conn t" "fr_world S" "Some i" "fr_log S"] one by simp
  show ?case
  proof (cases e1)
    case (Some x)
    with less.prems(4) plain have "e = x" "c = c1" "w = w1" by (simp_all add: handle_conn_rounds)
    with step Some show ?thesis by (auto intro: r_into_rtranclp)
  next
    case None
    have "handle_conn F (as_limiter A) c1 w1 = (e, c, w)"
      using less.prems(4) plain None by (subst (asm) handle_conn_rounds) simp
    then obtain es where "(front_step F H A)\<^sup>*\<^sup>* ?S1 (?S1\<lparr>fr_tasks :=
        (fr_tasks ?S1)(i \<mapsto> (t\<lparr>ts_conn := c1, ts_end := e1\<rparr>)\<lparr>ts_conn := c, ts_end := Some e\<rparr>), fr_world := w, fr_log := es\<rparr>)"
      using less.hyps [of "t\<lparr>ts_conn := c1, ts_end := e1\<rparr>" ?S1] conn_round_shrinks [OF one [unfolded None]]
        less.prems(1) None by auto
    with step show ?thesis by (auto intro: converse_rtranclp_into_rtranclp)
  qed
qed

section \<open>Properties\<close>


text \<open>Three requests of the client against the front end.\<close>

definition sample_front_app :: "local_store app_state" where
  "sample_front_app = \<lparr>as_limiter = fw_limiter False fw_sample (fw_new 2 60), as_store = local_ops,
     as_hmac_secret = None\<rparr>"

definition sample_front_world :: "local_store timed" where
  "sample_front_world = (local_new, \<lambda>_. quiet (\<lambda>_. 5))"

definition sample_accepted :: "bytes \<Rightarrow> local_store front" where
  "sample_accepted input = (front_init sample_front_world)\<lparr>fr_tasks :=
     [0 \<mapsto> \<lparr>ts_peer = fresh_conn input, ts_conn = fresh_conn input, ts_end = None\<rparr>]\<rparr>"

lemma sample_accepted_reached:
  "front_step sample_flatbuffers sample_crates sample_front_app (front_init sample_front_world) (sample_accepted input)"
  using accepted [of "front_init sample_front_world" 0 "fresh_conn input"]
  by (simp add: sample_accepted_def front_init_def)

lemma sample_front_session:
  obtains requests replies lines w' where
    "client_loop sample_flatbuffers ''a'' 3 (fresh_conn replies) = (lines, None, (fresh_conn [])\<lparr>cn_out := requests\<rparr>)"
    "map ln_allowed lines = [True, True, False]"
    "handle_conn sample_flatbuffers (as_limiter sample_front_app) (fresh_conn requests) sample_front_world
      = (Closed, (fresh_conn [])\<lparr>cn_out := replies\<rparr>, w')"
proof -
  obtain ds w' where run: "repeat_check (as_limiter sample_front_app) ''a'' 3 sample_front_world = Some (ds, w')"
    and answers: "\<forall>d \<in> set ds. fw_answer (fw_new 2 60) d"
    and allowed: "map d_allowed ds = map (\<lambda>i. i < 2) [0..<3]"
    using sample_session [of 3] by (auto simp: sample_front_app_def sample_front_world_def)
  have wf: "fw_wf (fw_new 2 60)" by (simp add: fw_wf_def fw_new_def)
  have "small_string ''a''" by (simp add: small_string_def)
  from client_server_session [OF sample_flatbuffers_laws this sample_request_frame run]
  obtain requests replies where
    client: "client_loop sample_flatbuffers ''a'' 3 (fresh_conn replies) = (map line_of ds, None, (fresh_conn [])\<lparr>cn_out := requests\<rparr>)"
    and server: "handle_conn sample_flatbuffers (as_limiter sample_front_app) (fresh_conn requests) sample_front_world
      = (Closed, (fresh_conn [])\<lparr>cn_out := replies\<rparr>, w')"
    using answers fw_answer_sendable [OF wf] sample_response_size by blast
  have "map ln_allowed (map line_of ds) = [True, True, False]"
    using allowed by (simp add: line_of_def comp_def upt_rec)
  then show thesis by (rule that [OF client _ server])
qed

lemma sample_front_run:
  obtains S requests replies lines where
    "(front_step sample_flatbuffers sample_crates sample_front_app)\<^sup>*\<^sup>* (front_init sample_front_world) S"
    "fr_tasks S 0 = Some \<lparr>ts_peer = fresh_conn requests, ts_conn = (fresh_conn [])\<lparr>cn_out := replies\<rparr>, ts_end = Some Closed\<rparr>"
    "client_loop sample_flatbuffers ''a'' 3 (fresh_conn replies) = (lines, None, (fresh_conn [])\<lparr>cn_out := requests\<rparr>)"
    "map ln_allowed lines = [True, True, False]"
proof -
  obtain requests replies lines w' where
    client: "client_loop sample_flatbuffers ''a'' 3 (fresh_conn replies) = (lines, None, (fresh_conn [])\<lparr>cn_out := requests\<rparr>)"
    and lines: "map ln_allowed lines = [True, True, False]"
    and server: "handle_conn sample_flatbuffers (as_limiter sample_front_app) (fresh_conn requests) sample_front_world
      = (Closed, (fresh_conn [])\<lparr>cn_out := replies\<rparr>, w')" by (rule sample_front_session)
  let ?t = "\<lparr>ts_peer = fresh_conn requests, ts_conn = fresh_conn requests, ts_end = None\<rparr>"
  have t: "fr_tasks (sample_accepted requests) 0 = Some ?t" "fr_phase (sample_accepted requests) \<noteq> Stopped"
    "fr_world (sample_accepted requests) = sample_front_world"
    by (simp_all add: sample_accepted_def front_init_def)
  from front_drain [where F = sample_flatbuffers and A = sample_front_app and H = sample_crates, OF t(2,1)] server t(3)
  obtain es where "(front_step sample_flatbuffers sample_crates sample_front_app)\<^sup>*\<^sup>* (sample_accepted requests)
    ((sample_accepted requests)\<lparr>fr_tasks := (fr_tasks (sample_accepted requests))(0 \<mapsto>
      ?t\<lparr>ts_conn := (fresh_conn [])\<lparr>cn_out := replies\<rparr>, ts_end := Some Closed\<rparr>), fr_world := w', fr_log := es\<rparr>)"
    by fastforce
  from converse_rtranclp_into_rtranclp [OF sample_accepted_reached this]
  show thesis by (rule that [OF _ _ client lines]) simp
qed




end
