(* ===== verification/Local_Puts.thy ===== *)
theory Local_Puts
  imports Local_Store
begin

text \<open>
  \<open>LocalStore::put\<close> is not atomic: it draws its version before it takes the lock. Here its
  two steps interleave with the puts of other tasks and with compare-and-swaps; a ghost
  history keeps every write. Versions still name one value each, but they do not grow.
\<close>

section \<open>Steps\<close>

record put_sys =
  pt_store :: local_store
  pt_ticket :: "nat \<Rightarrow> i64 option"  \<comment> \<open>the version a task has drawn and not yet stored\<close>
  pt_hist :: "(i64 \<times> string \<times> bytes) list"  \<comment> \<open>ghost: all writes, the last one first\<close>

definition put_init :: put_sys where
  "put_init = \<lparr>pt_store = local_new, pt_ticket = (\<lambda>_. None), pt_hist = []\<rparr>"

inductive put_step :: "put_sys \<Rightarrow> put_sys \<Rightarrow> bool" where
  draw: "pt_ticket \<sigma> i = None \<Longrightarrow> local_room (pt_store \<sigma>) \<Longrightarrow> next_version (pt_store \<sigma>) = (v, s') \<Longrightarrow>
    put_step \<sigma> (\<sigma>\<lparr>pt_store := s', pt_ticket := (pt_ticket \<sigma>)(i := Some v)\<rparr>)"
| insert: "pt_ticket \<sigma> i = Some v \<Longrightarrow>
    put_step \<sigma> (\<sigma>\<lparr>pt_store := local_insert k (b, v) (pt_store \<sigma>), pt_ticket := (pt_ticket \<sigma>)(i := None),
      pt_hist := (v, k, b) # pt_hist \<sigma>\<rparr>)"
| swap: "local_room (pt_store \<sigma>) \<Longrightarrow> local_cas k e b (pt_store \<sigma>) = (r, s') \<Longrightarrow>
    put_step \<sigma> (\<sigma>\<lparr>pt_store := s',
      pt_hist := (if cr_success r then (cr_version r, k, b) # pt_hist \<sigma> else pt_hist \<sigma>)\<rparr>)"

text \<open>Undisturbed, the two steps of a put are \<open>local_put\<close>.\<close>

lemma put_is_two_steps:
  assumes "pt_ticket \<sigma> i = None" "local_room (pt_store \<sigma>)" "local_put k b (pt_store \<sigma>) = (v, s')"
  shows "put_step\<^sup>*\<^sup>* \<sigma> (\<sigma>\<lparr>pt_store := s', pt_hist := (v, k, b) # pt_hist \<sigma>\<rparr>)"
proof -
  obtain s1 where nv: "next_version (pt_store \<sigma>) = (v, s1)" and s': "s' = local_insert k (b, v) s1"
    using assms(3) by (auto simp: local_put_def split: prod.splits)
  let ?\<sigma> = "\<sigma>\<lparr>pt_store := s1, pt_ticket := (pt_ticket \<sigma>)(i := Some v)\<rparr>"
  have free: "(pt_ticket \<sigma>)(i := None) = pt_ticket \<sigma>" using assms(1) by auto
  have "put_step \<sigma> ?\<sigma>" by (rule draw [OF assms(1,2) nv])
  moreover have "put_step ?\<sigma> (\<sigma>\<lparr>pt_store := s', pt_hist := (v, k, b) # pt_hist \<sigma>\<rparr>)"
    using insert [of ?\<sigma> i v k b] by (cases \<sigma>) (use free s' in simp)
  ultimately show ?thesis by (rule converse_rtranclp_into_rtranclp [OF _ r_into_rtranclp])
qed

section \<open>Invariant\<close>

definition put_inv :: "put_sys \<Rightarrow> bool" where
  "put_inv \<sigma> \<longleftrightarrow> 0 < ls_counter (pt_store \<sigma>) \<and>
     (\<forall>k b v. ls_state (pt_store \<sigma>) k = Some (b, v) \<longrightarrow> (v, k, b) \<in> set (pt_hist \<sigma>)) \<and>
     distinct (map fst (pt_hist \<sigma>)) \<and>
     (\<forall>v \<in> fst ` set (pt_hist \<sigma>). 0 < v \<and> v < ls_counter (pt_store \<sigma>)) \<and>
     (\<forall>i v. pt_ticket \<sigma> i = Some v \<longrightarrow> 0 < v \<and> v < ls_counter (pt_store \<sigma>) \<and> v \<notin> fst ` set (pt_hist \<sigma>)) \<and>
     (\<forall>i j v. pt_ticket \<sigma> i = Some v \<longrightarrow> pt_ticket \<sigma> j = Some v \<longrightarrow> i = j)"

lemma put_inv_init: "put_inv put_init"
  by (simp add: put_inv_def put_init_def local_new_def)

lemma put_inv_step: "put_step \<sigma> \<sigma>' \<Longrightarrow> put_inv \<sigma> \<Longrightarrow> put_inv \<sigma>'"
proof (induction rule: put_step.induct)
  case (draw \<sigma> i v s')
  then show ?case by (fastforce simp: put_inv_def next_version_room split: if_splits)
next
  case (insert \<sigma> i v k b)
  then show ?case by (fastforce simp: put_inv_def local_insert_def split: if_splits)
next
  case (swap \<sigma> k e b r s')
  then show ?case by (fastforce simp: put_inv_def local_cas_eq split: if_splits)
qed

lemma put_reach_inv: "put_step\<^sup>*\<^sup>* put_init \<sigma> \<Longrightarrow> put_inv \<sigma>"
  by (induction rule: rtranclp_induct) (auto intro: put_inv_init put_inv_step)

section \<open>Properties\<close>

text \<open>C22. Puts and compare-and-swaps in any interleaving never give one version to two writes,
  and what a key holds is the write of its version: a compare-and-swap that expects a
  version replaces the very value that was read with it.\<close>

theorem put_versions_unique:
  assumes "put_step\<^sup>*\<^sup>* put_init \<sigma>"
  shows "distinct (map fst (pt_hist \<sigma>)) \<and>
    (\<forall>k b v. ls_state (pt_store \<sigma>) k = Some (b, v) \<longrightarrow> (v, k, b) \<in> set (pt_hist \<sigma>)) \<and>
    (\<forall>k e v b b' r s'. local_room (pt_store \<sigma>) \<and> (v, k, b) \<in> set (pt_hist \<sigma>) \<and>
      local_cas k (Some v) b' (pt_store \<sigma>) = (r, s') \<and> cr_success r \<longrightarrow>
      ls_state (pt_store \<sigma>) k = Some (b, v))"
proof (intro conjI allI impI)
  note inv = put_reach_inv [OF assms]
  show dist: "distinct (map fst (pt_hist \<sigma>))" using inv by (simp add: put_inv_def)
  show held: "(v, k, b) \<in> set (pt_hist \<sigma>)" if "ls_state (pt_store \<sigma>) k = Some (b, v)" for k b v
    using inv that by (simp add: put_inv_def)
  fix k v b b' r s'
  assume "local_room (pt_store \<sigma>) \<and> (v, k, b) \<in> set (pt_hist \<sigma>) \<and>
      local_cas k (Some v) b' (pt_store \<sigma>) = (r, s') \<and> cr_success r"
  then obtain b0 where "ls_state (pt_store \<sigma>) k = Some (b0, v)" "(v, k, b) \<in> set (pt_hist \<sigma>)"
    by (auto simp: local_cas_eq split: if_splits)
  with held [of k b0 v] dist show "ls_state (pt_store \<sigma>) k = Some (b, v)"
    by (auto simp: distinct_map dest: inj_onD [where x = "(v, k, b0)" and y = "(v, k, b)"])
qed

text \<open>A run in which the second put of a key stores a smaller version than the first.\<close>

definition overtaken :: put_sys where
  "overtaken = \<lparr>pt_store = \<lparr>ls_state = [''k'' \<mapsto> ([8], 1)], ls_counter = 3\<rparr>, pt_ticket = (\<lambda>_. None),
     pt_hist = [(1, ''k'', [8]), (2, ''k'', [9])]\<rparr>"

lemma put_versions_decrease: "put_step\<^sup>*\<^sup>* put_init overtaken"
proof -
  let ?s1 = "\<lparr>pt_store = \<lparr>ls_state = Map.empty, ls_counter = 2\<rparr>, pt_ticket = [0 \<mapsto> 1], pt_hist = []\<rparr>"
  let ?s2 = "\<lparr>pt_store = \<lparr>ls_state = Map.empty, ls_counter = 3\<rparr>, pt_ticket = [0 \<mapsto> 1, 1 \<mapsto> 2], pt_hist = []\<rparr>"
  let ?s3 = "\<lparr>pt_store = \<lparr>ls_state = [''k'' \<mapsto> ([9], 2)], ls_counter = 3\<rparr>, pt_ticket = [0 \<mapsto> 1],
    pt_hist = [(2, ''k'', [9])]\<rparr>"
  have "put_step put_init ?s1"
    using draw [of put_init 0 1 "\<lparr>ls_state = Map.empty, ls_counter = 2\<rparr>"]
    by (simp add: put_init_def local_new_def local_room_def next_version_def wrap_i64_def)
  moreover have "put_step ?s1 ?s2"
    using draw [of ?s1 1 2 "\<lparr>ls_state = Map.empty, ls_counter = 3\<rparr>"]
    by (simp add: local_room_def next_version_def wrap_i64_def)
  moreover have "put_step ?s2 ?s3"
    using insert [of ?s2 1 2 "''k''" "[9]"] by (simp add: local_insert_def fun_upd_idem_iff fun_upd_twist)
  moreover have "put_step ?s3 overtaken"
    using insert [of ?s3 0 1 "''k''" "[8]"] by (simp add: local_insert_def overtaken_def)
  ultimately show ?thesis by (meson converse_rtranclp_into_rtranclp rtranclp.rtrancl_refl)
qed

theorem put_versions_unique_witness:
  "distinct (map fst (pt_hist overtaken)) \<and> pt_hist overtaken = [(1, ''k'', [8]), (2, ''k'', [9])]"
  using put_versions_unique [OF put_versions_decrease] by (simp add: overtaken_def)

end
