(* ===== verification/Test_Sessions.thy ===== *)
theory Test_Sessions
  imports Local_Runs
begin

text \<open>
  The repository's unit tests are short sessions: one limiter over a fresh \<open>LocalStore\<close>, a few
  \<open>check\<close> calls one after another, and assertions on the decisions. A session lists the calls
  with the clock reading of each. The locale proves once what a session returns when each
  single call is understood.
\<close>

section \<open>Sessions\<close>

type_synonym call = "sys_time \<times> string \<times> string \<times> u32"
type_synonym checker = "sys_time \<Rightarrow> string \<Rightarrow> string \<Rightarrow> u32 \<Rightarrow> local_store \<Rightarrow> decision res \<times> local_store"

fun session :: "checker \<Rightarrow> call list \<Rightarrow> local_store \<Rightarrow> decision list option" where
  "session chk [] s = Some []"
| "session chk ((t, cid, res, cost) # cs) s =
     (case chk t cid res cost s of
        (Inr d, s') \<Rightarrow> map_option (Cons d) (session chk cs s')
      | (Inl p, s') \<Rightarrow> None)"

definition test :: "checker \<Rightarrow> call list \<Rightarrow> (decision list \<Rightarrow> bool) \<Rightarrow> bool" where
  \<comment> \<open>the session on a new store returns, and its decisions pass the assertions\<close>
  "test chk cs assertions =
     (case session chk cs local_new of None \<Rightarrow> False | Some ds \<Rightarrow> assertions ds)"

text \<open>What is expected of a session, call by call, with one reference state per key.\<close>

fun expected :: "('a \<Rightarrow> sys_time \<Rightarrow> u32 \<Rightarrow> decision \<Rightarrow> bool) \<Rightarrow> ('a \<Rightarrow> sys_time \<Rightarrow> u32 \<Rightarrow> 'a)
    \<Rightarrow> (string \<Rightarrow> string \<Rightarrow> 'a) \<Rightarrow> call list \<Rightarrow> decision list \<Rightarrow> bool" where
  "expected verdict after A [] ds \<longleftrightarrow> ds = []"
| "expected verdict after A ((t, cid, res, cost) # cs) ds \<longleftrightarrow>
     (\<exists>d ds'. ds = d # ds' \<and> verdict (A cid res) t cost d \<and>
        expected verdict after (A(cid := (A cid)(res := after (A cid res) t cost))) cs ds')"

fun readied :: "('a \<Rightarrow> sys_time \<Rightarrow> u32 \<Rightarrow> bool) \<Rightarrow> ('a \<Rightarrow> sys_time \<Rightarrow> u32 \<Rightarrow> 'a)
    \<Rightarrow> (string \<Rightarrow> string \<Rightarrow> 'a) \<Rightarrow> call list \<Rightarrow> bool" where
  "readied ready after A [] \<longleftrightarrow> True"
| "readied ready after A ((t, cid, res, cost) # cs) \<longleftrightarrow>
     ready (A cid res) t cost \<and>
     readied ready after (A(cid := (A cid)(res := after (A cid res) t cost))) cs"

lemma readied_all: "(\<And>a c. c \<in> set cs \<Longrightarrow> ready a (fst c) (snd (snd (snd c)))) \<Longrightarrow> readied ready after A cs"
proof (induction cs arbitrary: A)
  case (Cons c cs)
  then show ?case using Cons.prems [of c] by (cases c) simp
qed simp

section \<open>One call at a time\<close>

text \<open>
  \<open>slashless\<close> names make keys of different clients or resources different, which is what the
  tests use.
\<close>

locale tested_limiter =
  fixes chk :: checker and key :: "string \<Rightarrow> string \<Rightarrow> string" and plan :: "u32 \<Rightarrow> plan" and fail :: decision
    and rel :: "'a \<Rightarrow> bytes option \<Rightarrow> bool" and init :: 'a
    and ready :: "'a \<Rightarrow> sys_time \<Rightarrow> u32 \<Rightarrow> bool" and verdict :: "'a \<Rightarrow> sys_time \<Rightarrow> u32 \<Rightarrow> decision \<Rightarrow> bool"
    and after :: "'a \<Rightarrow> sys_time \<Rightarrow> u32 \<Rightarrow> 'a"
  assumes loop: "chk t cid res cost s = check_loop local_ops (quiet (\<lambda>_. t)) (key cid res) (plan cost) fail s"
    and keys: "CHR ''/'' \<notin> set cid \<Longrightarrow> CHR ''/'' \<notin> set cid' \<Longrightarrow> key cid res = key cid' res' \<Longrightarrow>
      cid = cid' \<and> res = res'"
    and fresh: "rel init None"
    and one: "rel a raw \<Longrightarrow> ready a t cost \<Longrightarrow>
      \<exists>b d. planned (plan cost) t raw = Inr (b, d) \<and> verdict a t cost d \<and> rel (after a t cost) (Some b)"
begin

lemma session_expected:
  assumes "readied ready after A cs" "\<And>c. c \<in> set cs \<Longrightarrow> CHR ''/'' \<notin> set (fst (snd c))"
    and "\<And>cid res. CHR ''/'' \<notin> set cid \<Longrightarrow> rel (A cid res) (contents ls_state s (key cid res))"
    and "0 < ls_counter s" "ls_counter s + int (length cs) < 2 ^ 62"
  shows "\<exists>ds. session chk cs s = Some ds \<and> expected verdict after A cs ds"
  using assms
proof (induction cs arbitrary: A s)
  case (Cons c cs)
  obtain t cid res cost where c: "c = (t, cid, res, cost)" by (cases c)
  have cid: "CHR ''/'' \<notin> set cid" using Cons.prems(2) [of c] by (simp add: c)
  have room: "local_room s" using Cons.prems(4,5) by (simp add: local_room_def)
  have "ready (A cid res) t cost" using Cons.prems(1) by (simp add: c)
  from one [OF Cons.prems(3) [OF cid] this] obtain b d
    where run: "planned (plan cost) t (contents ls_state s (key cid res)) = Inr (b, d)"
      and d: "verdict (A cid res) t cost d" "rel (after (A cid res) t cost) (Some b)" by blast
  let ?s = "s\<lparr>ls_counter := ls_counter s + 1, ls_state := (ls_state s)(key cid res \<mapsto> (b, ls_counter s))\<rparr>"
  let ?A = "A(cid := (A cid)(res := after (A cid res) t cost))"
  have chk: "chk t cid res cost s = (Inr d, ?s)"
    unfolding loop by (rule local_check_exact [where clk = "\<lambda>_. t", OF room run])
  have "rel (?A cid' res') (contents ls_state ?s (key cid' res'))" if "CHR ''/'' \<notin> set cid'" for cid' res'
    using Cons.prems(3) [OF that, of res'] d(2) keys [OF that cid] by (auto simp: contents_def)
  with Cons.IH [of ?A ?s] Cons.prems obtain ds where "session chk cs ?s = Some ds" "expected verdict after ?A cs ds"
    by (fastforce simp: c)
  with chk d(1) show ?case by (simp add: c)
qed simp

lemma test_passes:
  assumes "readied ready after (\<lambda>_ _. init) cs"
    and "\<And>c. c \<in> set cs \<Longrightarrow> CHR ''/'' \<notin> set (fst (snd c))" "length cs < 2 ^ 61"
    and "\<And>ds. expected verdict after (\<lambda>_ _. init) cs ds \<Longrightarrow> assertions ds"
  shows "test chk cs assertions"
proof -
  have "int (length cs) < 2 ^ 61" using assms(3) by (simp only: of_nat_less_numeral_power_cancel_iff)
  then obtain ds where "session chk cs local_new = Some ds" "expected verdict after (\<lambda>_ _. init) cs ds"
    using session_expected [OF assms(1), of local_new] assms(2) fresh
    by (auto simp: local_new_def contents_def)
  with assms(4) show ?thesis by (simp add: test_def)
qed

end

end
