(* ===== verification/Window_Tests.thy ===== *)
theory Window_Tests
  imports Test_Sessions Fixed_Window Sliding_Log Sliding_Counter Text
begin

text \<open>
  The unit tests of \<open>fixed_window.rs\<close> and \<open>sliding_window_log.rs\<close>, with the clock reading of
  each call as a parameter. They pass when the readings of a test share a window, which the
  tests take for granted.
\<close>

lemma key_split:
  assumes "CHR ''/'' \<notin> set cid" "CHR ''/'' \<notin> set cid'" "cid @ ''/'' @ res = cid' @ ''/'' @ res'"
  shows "cid = cid' \<and> res = res'"
  using assms by (simp add: append_sep_eq)

section \<open>Fixed window\<close>

definition fw_tester :: "bool \<Rightarrow> fw_state codec \<Rightarrow> u64 \<Rightarrow> u64 \<Rightarrow> checker" where
  "fw_tester oc C max_requests win t cid res cost s =
     fw_check oc C local_ops (fw_new max_requests win) (quiet (\<lambda>_. t)) cid res cost s"

definition fw_test_name :: bool where
  "fw_test_name \<longleftrightarrow> fw_name = ''fixed_window''"

definition fw_test_allows_up_to_max :: "bool \<Rightarrow> fw_state codec \<Rightarrow> (nat \<Rightarrow> sys_time) \<Rightarrow> bool" where
  "fw_test_allows_up_to_max oc C clk \<longleftrightarrow>
     test (fw_tester oc C 5 60) (map (\<lambda>i. (clk i, ''c1'', ''r'', 1)) [0..<5]) (list_all d_allowed)"

definition fw_test_denies :: "bool \<Rightarrow> fw_state codec \<Rightarrow> (nat \<Rightarrow> sys_time) \<Rightarrow> bool" where
  "fw_test_denies oc C clk \<longleftrightarrow>
     test (fw_tester oc C 3 60) [(clk 0, ''c1'', ''r'', 3), (clk 1, ''c1'', ''r'', 1)]
       (\<lambda>ds. case ds of [_, d] \<Rightarrow> \<not> d_allowed d \<and> d_remaining d = 0 \<and> d_retry_after_ms d > 0 | _ \<Rightarrow> False)"

definition fw_test_isolated :: "bool \<Rightarrow> fw_state codec \<Rightarrow> (nat \<Rightarrow> sys_time) \<Rightarrow> bool" where
  "fw_test_isolated oc C clk \<longleftrightarrow>
     test (fw_tester oc C 2 60) [(clk 0, ''a'', ''r'', 2), (clk 1, ''b'', ''r'', 1)]
       (\<lambda>ds. case ds of [_, d] \<Rightarrow> d_allowed d | _ \<Rightarrow> False)"

definition fw_test_cost :: "bool \<Rightarrow> fw_state codec \<Rightarrow> (nat \<Rightarrow> sys_time) \<Rightarrow> bool" where
  "fw_test_cost oc C clk \<longleftrightarrow>
     test (fw_tester oc C 10 60) [(clk 0, ''c1'', ''r'', 7), (clk 1, ''c1'', ''r'', 4)]
       (\<lambda>ds. case ds of [d1, d2] \<Rightarrow> d_allowed d1 \<and> \<not> d_allowed d2 | _ \<Rightarrow> False)"

definition fw_test_remaining :: "bool \<Rightarrow> fw_state codec \<Rightarrow> (nat \<Rightarrow> sys_time) \<Rightarrow> bool" where
  "fw_test_remaining oc C clk \<longleftrightarrow>
     test (fw_tester oc C 10 60) [(clk 0, ''c1'', ''r'', 1), (clk 1, ''c1'', ''r'', 1)]
       (\<lambda>ds. case ds of [d1, d2] \<Rightarrow> d_remaining d1 > d_remaining d2 | _ \<Rightarrow> False)"

text \<open>Within one window the reference state of a key is its count.\<close>

interpretation fw_tests: tested_limiter "fw_tester oc C max_requests win" fw_key "fw_plan oc C (fw_new max_requests win)"
  "conflict_decision (u64_as_i64 max_requests)"
  "\<lambda>k raw. wcount (fw_abs C raw) w = k \<and> k \<le> unat max_requests" 0
  "\<lambda>k t cost. fw_wf (fw_new max_requests win) \<and> codec_roundtrip C \<and> clock_ok t \<and> secs t div unat win = w"
  "\<lambda>k t cost d. d_allowed d = (k + unat cost \<le> unat max_requests) \<and>
     d_remaining d = int (unat max_requests - (if k + unat cost \<le> unat max_requests then k + unat cost else k)) \<and>
     (0 < d_retry_after_ms d \<longleftrightarrow> \<not> d_allowed d)"
  "\<lambda>k t cost. if k + unat cost \<le> unat max_requests then k + unat cost else k"
  for oc C max_requests win w
proof (unfold_locales, goal_cases)
  case 1
  then show ?case by (simp add: fw_tester_def fw_check_def fw_new_def)
next
  case (2 cid cid' res res')
  then show ?case by (simp add: fw_key_def append_sep_eq)
next
  case 3
  then show ?case by (simp add: wcount_def fw_abs_def)
next
  case (4 k raw t cost)
  let ?L = "fw_new max_requests win"
  have L: "fw_max ?L = unat max_requests" "fw_window ?L t = w" using 4 by (simp_all add: fw_new_def)
  have wf: "fw_wf ?L" "clock_ok t" "codec_roundtrip C" and k: "wcount (fw_abs C raw) w = k" "k \<le> unat max_requests"
    using 4 by simp_all
  have "unat max_requests < 2 ^ 63" using wf(1) by (simp add: fw_wf_def fw_new_def)
  moreover have "unat cost < 2 ^ 32" using unsigned_less [of cost] by simp
  ultimately have fits: "wcount (fw_abs C raw) (fw_window ?L t) + unat cost < 2 ^ 64"
    unfolding L k(1) using k(2) by simp
  show ?case
  proof (cases "k + unat cost \<le> unat max_requests")
    case True
    then have "fw_spec ?L t (wcount (fw_abs C raw) (fw_window ?L t)) (unat cost) = (True, k + unat cost, 0)"
      by (simp only: fw_spec_def L k(1) if_True)
    from fw_plan_eval [OF wf fits this, of oc] True show ?thesis by (auto simp: L wcount_def)
  next
    case False
    then have "fw_spec ?L t (wcount (fw_abs C raw) (fw_window ?L t)) (unat cost) = (False, k, fw_wait ?L t)"
      by (simp only: fw_spec_def L k(1) if_False)
    from fw_plan_eval [OF wf fits this, of oc] False k(2) fw_wait_bounds [OF wf(1), of t] show ?thesis
      by (auto simp: L wcount_def)
  qed
qed

definition same_minute :: "(nat \<Rightarrow> sys_time) \<Rightarrow> bool" where
  "same_minute clk \<longleftrightarrow> (\<forall>i. clock_ok (clk i) \<and> secs (clk i) div 60 = secs (clk 0) div 60)"

lemma fw_test_wf: "fw_wf (fw_new 5 60)" "fw_wf (fw_new 3 60)" "fw_wf (fw_new 2 60)" "fw_wf (fw_new 10 60)"
  by (simp_all add: fw_wf_def fw_new_def)

lemmas test_list_simps = upt_rec list_all_iff

theorem fw_tests_pass:
  assumes "codec_roundtrip C" "same_minute clk"
  shows "fw_test_name \<and> fw_test_allows_up_to_max oc C clk \<and> fw_test_denies oc C clk \<and>
    fw_test_isolated oc C clk \<and> fw_test_cost oc C clk \<and> fw_test_remaining oc C clk"
proof (intro conjI)
  have clk: "clock_ok (clk i)" "secs (clk i) div unat (60 :: u64) = secs (clk 0) div 60" for i
    using assms(2) by (simp_all add: same_minute_def)
  note ready = assms(1) clk fw_test_wf
  note passes = fw_tests.test_passes [where w = "secs (clk 0) div 60"]
  show "fw_test_name" by (simp add: fw_test_name_def fw_name_def)
  show "fw_test_allows_up_to_max oc C clk"
    unfolding fw_test_allows_up_to_max_def
    by (rule passes) (use ready in \<open>auto simp: upt_rec\<close>)
  show "fw_test_denies oc C clk"
    unfolding fw_test_denies_def by (rule passes) (use ready in auto)
  show "fw_test_isolated oc C clk"
    unfolding fw_test_isolated_def by (rule passes) (use ready in auto)
  show "fw_test_cost oc C clk"
    unfolding fw_test_cost_def by (rule passes) (use ready in auto)
  show "fw_test_remaining oc C clk"
    unfolding fw_test_remaining_def by (rule passes) (use ready in auto)
qed

section \<open>Sliding-window log\<close>

definition swl_tester :: "bool \<Rightarrow> swl_state codec \<Rightarrow> u64 \<Rightarrow> u64 \<Rightarrow> checker" where
  "swl_tester oc C max_requests win t cid res cost s =
     (case swl_new oc max_requests win of
        Inl p \<Rightarrow> (Inl p, s)
      | Inr L \<Rightarrow> swl_check oc C local_ops L (quiet (\<lambda>_. t)) cid res cost s)"

definition swl_test_name :: bool where
  "swl_test_name \<longleftrightarrow> swl_name = ''sliding_window_log''"

definition swl_test_allows_up_to_max :: "bool \<Rightarrow> swl_state codec \<Rightarrow> (nat \<Rightarrow> sys_time) \<Rightarrow> bool" where
  "swl_test_allows_up_to_max oc C clk \<longleftrightarrow>
     test (swl_tester oc C 4 60) (map (\<lambda>i. (clk i, ''c1'', ''r'', 1)) [0..<4]) (list_all d_allowed)"

definition swl_test_denies :: "bool \<Rightarrow> swl_state codec \<Rightarrow> (nat \<Rightarrow> sys_time) \<Rightarrow> bool" where
  "swl_test_denies oc C clk \<longleftrightarrow>
     test (swl_tester oc C 3 60) [(clk 0, ''c1'', ''r'', 3), (clk 1, ''c1'', ''r'', 1)]
       (\<lambda>ds. case ds of [_, d] \<Rightarrow> \<not> d_allowed d \<and> d_retry_after_ms d > 0 | _ \<Rightarrow> False)"

definition swl_test_expiry :: "bool \<Rightarrow> swl_state codec \<Rightarrow> (nat \<Rightarrow> sys_time) \<Rightarrow> bool" where
  \<comment> \<open>between the second and the third call the test sleeps for 1100 ms\<close>
  "swl_test_expiry oc C clk \<longleftrightarrow>
     test (swl_tester oc C 2 1) [(clk 0, ''c1'', ''r'', 2), (clk 1, ''c1'', ''r'', 1), (clk 2, ''c1'', ''r'', 1)]
       (\<lambda>ds. case ds of [_, d2, d3] \<Rightarrow> \<not> d_allowed d2 \<and> d_allowed d3 | _ \<Rightarrow> False)"

definition swl_test_isolated :: "bool \<Rightarrow> swl_state codec \<Rightarrow> (nat \<Rightarrow> sys_time) \<Rightarrow> bool" where
  "swl_test_isolated oc C clk \<longleftrightarrow>
     test (swl_tester oc C 2 60) [(clk 0, ''a'', ''r'', 2), (clk 1, ''b'', ''r'', 1)]
       (\<lambda>ds. case ds of [_, d] \<Rightarrow> d_allowed d | _ \<Rightarrow> False)"

definition swl_test_cost :: "bool \<Rightarrow> swl_state codec \<Rightarrow> (nat \<Rightarrow> sys_time) \<Rightarrow> bool" where
  "swl_test_cost oc C clk \<longleftrightarrow>
     test (swl_tester oc C 10 60) [(clk 0, ''c1'', ''r'', 6)]
       (\<lambda>ds. case ds of [d] \<Rightarrow> d_allowed d \<and> d_remaining d = 4 | _ \<Rightarrow> False)"

definition swl_test_remaining :: "bool \<Rightarrow> swl_state codec \<Rightarrow> (nat \<Rightarrow> sys_time) \<Rightarrow> bool" where
  "swl_test_remaining oc C clk \<longleftrightarrow>
     test (swl_tester oc C 10 60) [(clk 0, ''c1'', ''r'', 1), (clk 1, ''c1'', ''r'', 1)]
       (\<lambda>ds. case ds of [d1, d2] \<Rightarrow> d_remaining d1 = 9 \<and> d_remaining d2 = 8 | _ \<Rightarrow> False)"

definition swl_at :: "u64 \<Rightarrow> u64 \<Rightarrow> sliding_log" where
  "swl_at max_requests win = \<lparr>swl_max_requests = max_requests, swl_window_ms = 1000 * int (unat win)\<rparr>"

lemma swl_new_at:
  assumes "unat win < 2 ^ 50"
  shows "swl_new oc max_requests win = Inr (swl_at max_requests win)"
proof -
  have "unat win * unat (1000 :: u64) < 2 ^ 64" using assms by simp
  moreover from this have "unat (win * 1000) = unat win * 1000" by (simp add: unat_u64_mul)
  moreover have "u64_as_i64 (win * 1000) = int (unat (win * 1000))"
    using calculation(2) assms by (intro u64_as_i64_small) simp
  ultimately show ?thesis by (simp add: swl_new_def u64_mul_exact swl_at_def)
qed

text \<open>The reference state of a key is its list of admission times.\<close>

definition swl_says :: "sliding_log \<Rightarrow> int list \<Rightarrow> sys_time \<Rightarrow> u32 \<Rightarrow> decision \<Rightarrow> bool" where
  "swl_says L ts t cost d \<longleftrightarrow>
     (case swl_spec L (msecs t) (lkeep (swl_window_ms L) (msecs t) ts) (unat cost) of (allowed, n, wait) \<Rightarrow>
        d_allowed d = allowed \<and> d_remaining d = int (swl_max L - n) \<and> d_retry_after_ms d = wait)"

definition swl_then :: "sliding_log \<Rightarrow> int list \<Rightarrow> sys_time \<Rightarrow> u32 \<Rightarrow> int list" where
  "swl_then L ts t cost = lstep (swl_window_ms L) ts (msecs t, unat cost,
     length (lkeep (swl_window_ms L) (msecs t) ts) + unat cost \<le> swl_max L)"

interpretation swl_tests: tested_limiter
  "\<lambda>t cid res cost s. swl_check oc C local_ops L (quiet (\<lambda>_. t)) cid res cost s" swl_key "swl_plan oc C L"
  "conflict_decision (u64_as_i64 (swl_max_requests L))"
  "\<lambda>ts raw. swl_abs C raw = ts \<and> swl_good L ts" "[]"
  "\<lambda>ts t cost. swl_wf L \<and> codec_roundtrip C \<and> clock_ok t"
  "swl_says L"
  "swl_then L"
  for oc C L
proof (unfold_locales, goal_cases)
  case 1
  then show ?case by (simp add: swl_check_def)
next
  case (2 cid cid' res res')
  then show ?case by (simp add: swl_key_def append_sep_eq)
next
  case 3
  then show ?case by (simp add: swl_abs_def swl_good_def)
next
  case (4 ts raw t cost)
  then have wf: "swl_wf L" "clock_ok t" "codec_roundtrip C" and good: "swl_good L (swl_abs C raw)"
    and ts: "swl_abs C raw = ts" by auto
  let ?kept = "lkeep (swl_window_ms L) (msecs t) ts"
  obtain allowed n wait where spec: "swl_spec L (msecs t) ?kept (unat cost) = (allowed, n, wait)"
    by (metis prod_cases3)
  from swl_plan_eval [OF wf good, of cost allowed n wait oc] spec obtain b rsn where
    run: "planned (swl_plan oc C L cost) t raw = Inr (b, \<lparr>d_allowed = allowed, d_limit = int (swl_max L),
      d_remaining = int (swl_max L - n), d_retry_after_ms = wait, d_reason = rsn\<rparr>)"
    by (auto simp: ts)
  with swl_refines [OF wf good run] spec show ?case by (auto simp: ts swl_says_def swl_then_def)
qed

text \<open>\<open>clocks_within\<close>: readings that all lie in one stretch of \<open>n\<close> milliseconds.\<close>

definition clocks_within :: "int \<Rightarrow> (nat \<Rightarrow> sys_time) \<Rightarrow> bool" where
  "clocks_within n clk \<longleftrightarrow> (\<exists>start. \<forall>i. clock_ok (clk i) \<and> start \<le> msecs (clk i) \<and> msecs (clk i) < start + n)"

lemma swl_test_passes:
  assumes "codec_roundtrip C" "unat win < 2 ^ 50" "0 < unat win" "unat max_requests < 2 ^ 63" "length cs < 2 ^ 61"
    and "\<And>c. c \<in> set cs \<Longrightarrow> CHR ''/'' \<notin> set (fst (snd c)) \<and> clock_ok (fst c)"
    and "\<And>ds. expected (swl_says (swl_at max_requests win)) (swl_then (swl_at max_requests win)) (\<lambda>_ _. []) cs ds
      \<Longrightarrow> assertions ds"
  shows "test (swl_tester oc C max_requests win) cs assertions"
proof -
  let ?L = "swl_at max_requests win"
  have "int (unat win) < 2 ^ 50" using assms(2) by (simp only: of_nat_less_numeral_power_cancel_iff)
  then have wf: "swl_wf ?L" using assms(3,4) by (simp add: swl_wf_def swl_at_def del: of_nat_unat)
  have readied: "readied (\<lambda>ts t cost. swl_wf ?L \<and> codec_roundtrip C \<and> clock_ok t) after A cs" for after A
    using assms(6) by (intro readied_all) (auto simp: wf assms(1))
  have "swl_tester oc C max_requests win = (\<lambda>t cid res cost s. swl_check oc C local_ops ?L (quiet (\<lambda>_. t)) cid res cost s)"
    by (simp add: swl_tester_def swl_new_at [OF assms(2)] fun_eq_iff)
  with swl_tests.test_passes [OF readied] assms(5-7) show ?thesis by simp
qed

lemma clocks_withinD:
  "clocks_within n clk \<Longrightarrow> clock_ok (clk i) \<and> msecs (clk i) - n < msecs (clk j)"
proof -
  assume "clocks_within n clk"
  then obtain start where "\<And>i. clock_ok (clk i) \<and> start \<le> msecs (clk i) \<and> msecs (clk i) < start + n"
    by (auto simp: clocks_within_def)
  from this [of i] this [of j] show ?thesis by simp
qed

lemma clocks_within_less: "clocks_within n clk \<Longrightarrow> msecs (clk i) < msecs (clk j) + n"
  using clocks_withinD [of n clk i j] by simp

lemmas swl_expectations = swl_says_def swl_then_def swl_spec_def swl_at_def lstep_simp lkeep_def

lemma swl_test_allows_passes:
  assumes "codec_roundtrip C" "clocks_within 60000 clk"
  shows "swl_test_allows_up_to_max oc C clk"
  unfolding swl_test_allows_up_to_max_def
  by (rule swl_test_passes [OF assms(1)])
    (simp_all add: upt_rec swl_expectations clocks_withinD [OF assms(2)], auto simp: clocks_withinD [OF assms(2)])

lemma swl_test_isolated_passes:
  assumes "codec_roundtrip C" "clocks_within 60000 clk"
  shows "swl_test_isolated oc C clk"
  unfolding swl_test_isolated_def
  by (rule swl_test_passes [OF assms(1)]) (simp_all add: swl_expectations clocks_withinD [OF assms(2)], auto simp: clocks_withinD [OF assms(2)])

lemma swl_test_cost_passes:
  assumes "codec_roundtrip C" "clocks_within 60000 clk"
  shows "swl_test_cost oc C clk"
  unfolding swl_test_cost_def
  by (rule swl_test_passes [OF assms(1)]) (simp_all add: swl_expectations clocks_withinD [OF assms(2)], auto simp: clocks_withinD [OF assms(2)])

lemma swl_test_remaining_passes:
  assumes "codec_roundtrip C" "clocks_within 60000 clk"
  shows "swl_test_remaining oc C clk"
  unfolding swl_test_remaining_def
  by (rule swl_test_passes [OF assms(1)]) (simp_all add: swl_expectations clocks_withinD [OF assms(2)], auto simp: clocks_withinD [OF assms(2)])

lemma replicate_3: "replicate 3 x = [x, x, x]"
  by (simp add: numeral_eq_Suc)

lemma swl_test_denies_passes:
  assumes "codec_roundtrip C" "clocks_within 60000 clk"
  shows "swl_test_denies oc C clk"
  unfolding swl_test_denies_def
  by (rule swl_test_passes [OF assms(1)])
    (simp_all add: swl_expectations swl_wait_def replicate_3 clocks_withinD [OF assms(2)],
      auto simp: clocks_withinD [OF assms(2)] clocks_within_less [OF assms(2)] less_max_iff_disj)

lemma swl_test_expiry_passes:
  assumes C: "codec_roundtrip C" and "\<And>i. clock_ok (clk i)"
    and "msecs (clk 1) < msecs (clk 0) + 1000" "msecs (clk 1) + 1100 \<le> msecs (clk 2)" "msecs (clk 0) \<le> msecs (clk 1)"
  shows "swl_test_expiry oc C clk"
  unfolding swl_test_expiry_def
  by (rule swl_test_passes [OF C])
    (use assms(2-) in \<open>auto simp: swl_says_def swl_then_def swl_spec_def swl_at_def lstep_simp lkeep_def\<close>)

theorem swl_tests_pass:
  assumes C: "codec_roundtrip C"
  shows "clocks_within 60000 clk \<Longrightarrow> swl_test_name \<and> swl_test_allows_up_to_max oc C clk \<and>
    swl_test_denies oc C clk \<and> swl_test_isolated oc C clk \<and> swl_test_cost oc C clk \<and> swl_test_remaining oc C clk"
    and "(\<And>i. clock_ok (clk i)) \<Longrightarrow> msecs (clk 0) \<le> msecs (clk 1) \<Longrightarrow> msecs (clk 1) < msecs (clk 0) + 1000 \<Longrightarrow>
      msecs (clk 1) + 1100 \<le> msecs (clk 2) \<Longrightarrow> swl_test_expiry oc C clk"
  using swl_test_allows_passes [OF C] swl_test_denies_passes [OF C] swl_test_isolated_passes [OF C]
    swl_test_cost_passes [OF C] swl_test_remaining_passes [OF C] swl_test_expiry_passes [OF C]
  by (simp_all add: swl_test_name_def swl_name_def)

text \<open>A reading in the next minute makes the fixed-window test fail: it depends on when it is run.\<close>

lemma fw_test_denies_fails:
  "\<not> fw_test_denies False fw_sample (\<lambda>i. if i = 0 then 59 * 10 ^ 9 else 60 * 10 ^ 9)"
proof -
  let ?s = "\<lparr>ls_state = Map.empty, ls_counter = 1\<rparr>"
  obtain b1 d1 where one: "planned (fw_plan False fw_sample (fw_new 3 60) 3) (59 * 10 ^ 9) None = Inr (b1, d1)"
    and b1: "fw_abs fw_sample (Some b1) = Some (0, 3)"
    using fw_plan_eval [OF fw_test_wf(2) _ fw_sample_roundtrip, of "59 * 10 ^ 9" None 3 True 3 0 False]
    by (auto simp: clock_ok_def fw_abs_def wcount_def fw_spec_def fw_new_def secs_def)
  obtain b2 d2 where two: "planned (fw_plan False fw_sample (fw_new 3 60) 1) (60 * 10 ^ 9) (Some b1) = Inr (b2, d2)"
    and d2: "d_allowed d2"
    using fw_plan_eval [OF fw_test_wf(2) _ fw_sample_roundtrip, of "60 * 10 ^ 9" "Some b1" 1 True 1 0 False] b1
    by (auto simp: clock_ok_def wcount_def fw_spec_def fw_new_def secs_def)
  have "fw_tester False fw_sample 3 60 (59 * 10 ^ 9) ''c1'' ''r'' 3 local_new
      = (Inr d1, \<lparr>ls_state = [fw_key ''c1'' ''r'' \<mapsto> (b1, 1)], ls_counter = 2\<rparr>)"
    unfolding fw_tester_def fw_check_def
    using local_check_exact [where clk = "\<lambda>_. 59 * 10 ^ 9" and s = local_new and key = "fw_key ''c1'' ''r''"] one
    by (simp add: local_room_def local_new_def contents_def)
  moreover have "\<exists>s. fw_tester False fw_sample 3 60 (60 * 10 ^ 9) ''c1'' ''r'' 1
      \<lparr>ls_state = [fw_key ''c1'' ''r'' \<mapsto> (b1, 1)], ls_counter = 2\<rparr> = (Inr d2, s)"
    unfolding fw_tester_def fw_check_def
    using local_check_exact [where clk = "\<lambda>_. 60 * 10 ^ 9" and key = "fw_key ''c1'' ''r''"
        and s = "\<lparr>ls_state = [fw_key ''c1'' ''r'' \<mapsto> (b1, 1)], ls_counter = 2\<rparr>"] two
    by (simp add: local_room_def contents_def)
  ultimately show ?thesis
    using d2 by (auto simp: fw_test_denies_def test_def)
qed

end
