(* ===== verification/Counter_Tests.thy ===== *)
theory Counter_Tests
  imports Window_Tests Bucket_Float
begin

text \<open>
  The unit tests of \<open>sliding_window_counter.rs\<close>: within its first window a key has no
  previous count, and the blend of the two counts is exact.
\<close>

section \<open>The first window of a key\<close>

lemma swc_first_weight:
  assumes "fin f" "0 \<le> val f" "val f \<le> 1" "unat cc \<le> 2 ^ 53"
  shows "fin (swc_weighted f 0 cc)" "val (swc_weighted f 0 cc) = of_nat (unat cc)"
  using swc_weighted_bounds [OF assms, of 0] assms(4) by (simp_all add: order_antisym)

lemma swc_first_remaining:
  assumes "swc_wf L" "fin w" "val w = of_nat k" "k + unat cost \<le> swc_max L"
  shows "swc_remaining L w cost = int (swc_max L - (k + unat cost))"
proof -
  let ?M = "f64_of_u64 (swc_max_requests L)"
  have max: "swc_max L \<le> 2 ^ 53" using assms(1) by (simp add: swc_wf_def)
  then have M: "val ?M = of_nat (swc_max L)" and c: "val (f64_of_u64 cost) = of_nat (unat cost)"
    using assms(4) by (simp_all only: f64_of_u64_exact)
  have exact: "fits_f64 (of_nat n) \<and> round_rat (of_nat n) = of_nat n" if "n \<le> swc_max L" for n
  proof -
    have "n \<le> 2 ^ 53" using that max by simp
    then have "(of_nat n :: rat) \<le> of_nat (2 ^ 53)" by (simp only: of_nat_le_iff)
    then have "fits_f64 (of_nat n)" by (intro fits_f64_nonneg [of _ 53]) simp_all
    with \<open>n \<le> 2 ^ 53\<close> show ?thesis by (simp add: round_rat_representable representable_nat)
  qed
  have d1: "val ?M - val w = of_nat (swc_max L - k)" using assms(3,4) M by (simp only: of_nat_diff)
  have "fits_f64 (val ?M - val w)" unfolding d1 using exact [of "swc_max L - k"] by simp
  note s1 = f64_sub_fin [OF f64_of_u64_fin(1) assms(2) this]
  have v1: "val (f64_sub ?M w) = of_nat (swc_max L - k)"
    unfolding s1(2) d1 using exact [of "swc_max L - k"] by simp
  have d2: "val (f64_sub ?M w) - val (f64_of_u64 cost) = of_nat (swc_max L - (k + unat cost))"
    unfolding v1 c using assms(4) by (simp add: of_nat_diff del: of_nat_unat)
  have "fits_f64 (val (f64_sub ?M w) - val (f64_of_u64 cost))"
    unfolding d2 using exact [of "swc_max L - (k + unat cost)"] by simp
  note s2 = f64_sub_fin [OF s1(1) f64_of_u64_fin(1) this]
  have v2: "val (f64_sub (f64_sub ?M w) (f64_of_u64 cost)) = of_nat (swc_max L - (k + unat cost))"
    unfolding s2(2) d2 using exact [of "swc_max L - (k + unat cost)"] by simp
  have v3: "fin (f64_max (f64_sub (f64_sub ?M w) (f64_of_u64 cost)) (Num 0))"
    "val (f64_max (f64_sub (f64_sub ?M w) (f64_of_u64 cost)) (Num 0)) = of_nat (swc_max L - (k + unat cost))"
    using f64_max_fin [OF s2(1), of "Num 0"] v2 by simp_all
  have "(of_nat (swc_max L - (k + unat cost)) :: rat) \<le> of_nat (2 ^ 53)" using max by (simp only: of_nat_le_iff)
  then have "f64_as_i64 (f64_max (f64_sub (f64_sub ?M w) (f64_of_u64 cost)) (Num 0))
      = \<lfloor>of_nat (swc_max L - (k + unat cost)) :: rat\<rfloor>"
    unfolding v3(2) [symmetric] by (intro f64_as_i64_small v3(1)) (simp_all add: v3(2))
  then show ?thesis by (simp add: swc_remaining_def)
qed

text \<open>A denial in a window of at most a minute is told to wait.\<close>

lemma wait_positive:
  assumes "fin a" "val a = of_nat n" "fin b" "val b = of_nat m" "n < m" "m \<le> 60"
  shows "0 < f64_as_i64 (f64_mul (f64_mul (f64_sub (Num 1) (f64_div a b)) b) (Num 1000))"
proof -
  let ?f = "f64_div a b"
  have "of_nat (n + 1) \<le> (of_nat m :: rat)" "of_nat m \<le> (of_nat 60 :: rat)"
    using assms(5,6) by (simp_all only: of_nat_le_iff Suc_eq_plus1 [symmetric] Suc_le_eq)
  then have m: "0 \<le> val a" "val a + 1 \<le> val b" "val b \<le> 60" by (simp_all add: assms(2,4))
  then have b1: "1 \<le> val b" by linarith
  have q: "0 \<le> val a / val b" "val a / val b \<le> 63 / 64"
    using m b1 by (simp_all add: divide_simps)
  have "representable (of_int 63 * pow2 (- 6))"
    unfolding representable_def by (rule exI [of _ 63], rule exI [of _ "- 6"]) simp
  then have rep: "representable (63 / 64)" "representable (1 / 64)" "representable 15" "representable 60"
    using representable_pow2 [of "- 6"] representable_int [of 15] representable_int [of 60]
    by (simp_all add: pow2_def power_int_minus)
  have "fits_f64 (val a / val b)"
    using q by (intro fits_f64_below [where y = "63 / 64"] rep(1)) simp_all
  then have f: "fin ?f" "val ?f = round_rat (val a / val b)"
    using f64_div_fin [OF assms(1,3)] b1 by simp_all
  have "0 \<le> val ?f" "val ?f \<le> 63 / 64"
    unfolding f(2) by (rule round_rat_nonneg [OF q(1)], rule round_rat_le [OF rep(1) q(2)])
  then have gap: "1 / 64 \<le> val (Num 1) - val ?f" "val (Num 1) - val ?f \<le> 1" by simp_all
  then have "fits_f64 (val (Num 1) - val ?f)" by (intro fits_f64_nonneg [of _ 0]) simp_all
  note s = f64_sub_fin [OF fin_simps(4) f(1) this]
  let ?s = "f64_sub (Num 1) ?f"
  have s': "1 / 64 \<le> val ?s" "val ?s \<le> 1"
    unfolding s(2) by (rule round_rat_ge [OF rep(2) gap(1)], rule round_rat_le [OF representable_1 gap(2)])
  have "1 / 64 * 1 \<le> val ?s * val b" "val ?s * val b \<le> 1 * 60"
    using s' b1 m(3) by (intro mult_mono; linarith)+
  then have p: "1 / 64 \<le> val ?s * val b" "val ?s * val b \<le> 60" by simp_all
  then have "fits_f64 (val ?s * val b)" by (intro fits_f64_nonneg [of _ 6]) simp_all
  note m = f64_mul_fin [OF s(1) assms(3) this]
  let ?m = "f64_mul ?s b"
  have m': "1 / 64 \<le> val ?m" "val ?m \<le> 60"
    unfolding m(2) by (rule round_rat_ge [OF rep(2) p(1)], rule round_rat_le [OF rep(4) p(2)])
  then have t: "15 \<le> val ?m * val (Num 1000)" "val ?m * val (Num 1000) \<le> 2 ^ 16" by simp_all
  then have "fits_f64 (val ?m * val (Num 1000))" by (intro fits_f64_nonneg [of _ 16]) simp_all
  note e = f64_mul_fin [OF m(1) fin_simps(4) this]
  have v: "15 \<le> val (f64_mul ?m (Num 1000))" "val (f64_mul ?m (Num 1000)) \<le> 2 ^ 16"
    unfolding e(2) using t round_small [of "val ?m * val (Num 1000)" 16] by (simp_all add: round_rat_ge [OF rep(3)])
  have "f64_as_i64 (f64_mul ?m (Num 1000)) = \<lfloor>val (f64_mul ?m (Num 1000))\<rfloor>"
    using v by (intro f64_as_i64_small e(1)) simp_all
  moreover have "15 \<le> \<lfloor>val (f64_mul ?m (Num 1000))\<rfloor>" using v(1) by (simp add: le_floor_iff)
  ultimately show ?thesis by simp
qed

lemma swc_first_wait:
  assumes "0 < unat W" "unat W \<le> 60"
  shows "0 < f64_as_i64 (f64_mul (f64_mul (f64_sub (Num 1) (f64_div (f64_of_u64 (now mod W)) (f64_of_u64 W)))
    (f64_of_u64 W)) (Num 1000))"
proof (rule wait_positive)
  show lt: "unat (now mod W) < unat W" using assms(1) by (simp add: unat_mod_distrib)
  show "val (f64_of_u64 W) = of_nat (unat W)" by (rule f64_of_u64_exact) (use assms(2) in simp)
  show "val (f64_of_u64 (now mod W)) = of_nat (unat (now mod W))"
    by (rule f64_of_u64_exact) (use lt assms(2) in simp)
qed (simp_all add: f64_of_u64_fin assms(2))

section \<open>The tests\<close>

definition swc_tester :: "bool \<Rightarrow> swc_state codec \<Rightarrow> u64 \<Rightarrow> u64 \<Rightarrow> checker" where
  "swc_tester oc C max_requests win t cid res cost s =
     swc_check oc C local_ops (swc_new max_requests win) (quiet (\<lambda>_. t)) cid res cost s"

definition swc_test_name :: bool where
  "swc_test_name \<longleftrightarrow> swc_name = ''sliding_window_counter''"

definition swc_test_allows_up_to_max :: "bool \<Rightarrow> swc_state codec \<Rightarrow> (nat \<Rightarrow> sys_time) \<Rightarrow> bool" where
  "swc_test_allows_up_to_max oc C clk \<longleftrightarrow>
     test (swc_tester oc C 5 60) (map (\<lambda>i. (clk i, ''c1'', ''r'', 1)) [0..<5]) (list_all d_allowed)"

definition swc_test_denies :: "bool \<Rightarrow> swc_state codec \<Rightarrow> (nat \<Rightarrow> sys_time) \<Rightarrow> bool" where
  "swc_test_denies oc C clk \<longleftrightarrow>
     test (swc_tester oc C 3 60) [(clk 0, ''c1'', ''r'', 3), (clk 1, ''c1'', ''r'', 1)]
       (\<lambda>ds. case ds of [_, d] \<Rightarrow> \<not> d_allowed d \<and> d_retry_after_ms d > 0 | _ \<Rightarrow> False)"

definition swc_test_isolated :: "bool \<Rightarrow> swc_state codec \<Rightarrow> (nat \<Rightarrow> sys_time) \<Rightarrow> bool" where
  "swc_test_isolated oc C clk \<longleftrightarrow>
     test (swc_tester oc C 2 60) [(clk 0, ''a'', ''r'', 2), (clk 1, ''b'', ''r'', 1)]
       (\<lambda>ds. case ds of [_, d] \<Rightarrow> d_allowed d | _ \<Rightarrow> False)"

definition swc_test_cost :: "bool \<Rightarrow> swc_state codec \<Rightarrow> (nat \<Rightarrow> sys_time) \<Rightarrow> bool" where
  "swc_test_cost oc C clk \<longleftrightarrow>
     test (swc_tester oc C 10 60) [(clk 0, ''c1'', ''r'', 7), (clk 1, ''c1'', ''r'', 4)]
       (\<lambda>ds. case ds of [d1, d2] \<Rightarrow> d_allowed d1 \<and> \<not> d_allowed d2 | _ \<Rightarrow> False)"

definition swc_test_remaining :: "bool \<Rightarrow> swc_state codec \<Rightarrow> (nat \<Rightarrow> sys_time) \<Rightarrow> bool" where
  "swc_test_remaining oc C clk \<longleftrightarrow>
     test (swc_tester oc C 10 60) [(clk 0, ''c1'', ''r'', 1), (clk 1, ''c1'', ''r'', 1)]
       (\<lambda>ds. case ds of [d1, d2] \<Rightarrow> d_remaining d1 > d_remaining d2 | _ \<Rightarrow> False)"

text \<open>
  Within one window the reference state of a key is its current count; the previous one is zero.
\<close>

lemma swc_first_window:
  assumes wf: "swc_wf L" "unat (swc_window_secs L) \<le> 60" and rt: "codec_roundtrip C" and t: "clock_ok t"
    and wid: "as_secs (nat t) div swc_window_secs L = wid"
    and good: "swc_good L (swc_abs C raw)" and seen: "swc_seen C raw wid = (0, cc)"
  shows "\<exists>b d. planned (swc_plan oc C L cost) t raw = Inr (b, d) \<and>
    d_allowed d = (unat cc + unat cost \<le> swc_max L) \<and>
    (d_allowed d \<longrightarrow> d_remaining d = int (swc_max L - (unat cc + unat cost))) \<and>
    (\<not> d_allowed d \<longrightarrow> 0 < d_retry_after_ms d) \<and>
    swc_good L (swc_abs C (Some b)) \<and>
    swc_seen C (Some b) wid = (0, if d_allowed d then cc + u32_as_u64 cost else cc)"
proof -
  let ?f = "swc_fraction L (as_secs (nat t) mod swc_window_secs L)"
  let ?ok = "swc_result L (as_secs (nat t)) 0 cc (u32_as_u64 cost)"
  let ?cc = "if ?ok then cc + u32_as_u64 cost else cc"
  note seen' = seen [folded wid]
  note f = swc_fraction_mod [OF wf(1), of "as_secs (nat t)"]
  have cc: "unat cc \<le> swc_max L" using swc_seen_le [OF good, of wid] seen by simp
  have max: "swc_max L \<le> 2 ^ 52" using wf(1) by (simp add: swc_wf_def)
  have ok: "?ok \<longleftrightarrow> unat cc + unat cost \<le> swc_max L"
    using swc_plan_value(2) [OF wf(1) t good seen', of cost] swc_accepts_complete [OF wf(1) f, of 0 cc "u32_as_u64 cost"]
    by (auto simp: swc_result_def)
  have "unat cc \<le> 2 ^ 53" using cc max by simp
  note w = swc_first_weight [OF f this]
  have remaining: "swc_remaining L (swc_weighted ?f 0 cc) (u32_as_u64 cost) = int (swc_max L - (unat cc + unat cost))"
    if ?ok
    using swc_first_remaining [OF wf(1) w(1) w(2), of "u32_as_u64 cost"] that ok by simp
  have wait: "0 < f64_as_i64 (f64_mul (f64_mul (f64_sub (Num 1) ?f) (f64_of_u64 (swc_window_secs L))) (Num 1000))"
    using swc_first_wait [of "swc_window_secs L"] wf by (simp add: swc_fraction_def swc_wf_def)
  have "unat cc + unat (u32_as_u64 cost) < 2 ^ 64"
    using cc max cost_small [of cost] by simp
  then have "unat ?cc \<le> swc_max L" using cc ok by (simp add: unat_u64_add)
  then have "swc_good L (swc_abs C (Some (to_vec C \<lparr>swc_prev_count = 0, swc_curr_count = ?cc, swc_curr_window_id = wid\<rparr>)))"
    by (simp add: swc_abs_to_vec [OF rt] swc_good_def)
  moreover have "swc_seen C (Some (to_vec C \<lparr>swc_prev_count = 0, swc_curr_count = ?cc, swc_curr_window_id = wid\<rparr>)) wid
      = (0, ?cc)"
    using rt by (simp add: swc_seen_def decode_or_def codec_roundtrip_def swc_counts_def saturating_sub_def Let_def)
  moreover obtain rsn where "planned (swc_plan oc C L cost) t raw =
    Inr (to_vec C \<lparr>swc_prev_count = 0, swc_curr_count = ?cc, swc_curr_window_id = wid\<rparr>,
      \<lparr>d_allowed = ?ok, d_limit = int (swc_max L),
       d_remaining = (if ?ok then swc_remaining L (swc_weighted ?f 0 cc) (u32_as_u64 cost) else 0),
       d_retry_after_ms = (if ?ok then 0 else f64_as_i64 (f64_mul (f64_mul (f64_sub (Num 1) ?f)
         (f64_of_u64 (swc_window_secs L))) (Num 1000))), d_reason = rsn\<rparr>)"
    using swc_plan_value(1) [OF wf(1) t good seen', where oc = oc and cost = cost] wid by auto
  ultimately show ?thesis using ok remaining wait by (intro exI conjI) (assumption | simp)+
qed

interpretation swc_tests: tested_limiter "swc_tester oc C max_requests win" swc_key "swc_plan oc C (swc_new max_requests win)"
  "conflict_decision (u64_as_i64 max_requests)"
  "\<lambda>k raw. swc_good (swc_new max_requests win) (swc_abs C raw) \<and> swc_seen C raw wid = (0, word_of_nat k) \<and>
     k \<le> unat max_requests" 0
  "\<lambda>k t cost. swc_wf (swc_new max_requests win) \<and> unat win \<le> 60 \<and> codec_roundtrip C \<and> clock_ok t \<and>
     as_secs (nat t) div win = wid"
  "\<lambda>k t cost d. d_allowed d = (k + unat cost \<le> unat max_requests) \<and>
     (d_allowed d \<longrightarrow> d_remaining d = int (unat max_requests - (k + unat cost))) \<and>
     (\<not> d_allowed d \<longrightarrow> 0 < d_retry_after_ms d)"
  "\<lambda>k t cost. if k + unat cost \<le> unat max_requests then k + unat cost else k"
  for oc C max_requests win wid
proof (unfold_locales, goal_cases)
  case 1
  then show ?case by (simp add: swc_tester_def swc_check_def swc_new_def)
next
  case (2 cid cid' res res')
  then show ?case by (simp add: swc_key_def append_sep_eq)
next
  case 3
  then show ?case by (simp add: swc_seen_def decode_or_def swc_counts_def swc_abs_def swc_good_def Let_def)
next
  case (4 k raw t cost)
  have "u32_as_u64 cost = word_of_nat (unat (u32_as_u64 cost))" by (simp del: unat_u32_as_u64)
  then have sum: "word_of_nat k + u32_as_u64 cost = word_of_nat (k + unat cost)" by simp
  have "k < 2 ^ 64" using 4 by (simp add: swc_wf_def swc_new_def)
  then have "unat (word_of_nat k :: u64) = k" by (simp add: unat_of_nat)
  with 4 swc_first_window [of "swc_new max_requests win" C t wid raw "word_of_nat k" oc cost] sum show ?case
    by (fastforce simp: swc_new_def)
qed

lemma swc_test_wf: "swc_wf (swc_new 5 60)" "swc_wf (swc_new 3 60)" "swc_wf (swc_new 2 60)" "swc_wf (swc_new 10 60)"
  by (simp_all add: swc_wf_def swc_new_def)

lemma same_minute_word:
  assumes "same_minute clk"
  shows "clock_ok (clk i)" "as_secs (nat (clk i)) div 60 = as_secs (nat (clk 0)) div 60"
proof -
  show ok: "clock_ok (clk i)" using assms by (simp add: same_minute_def)
  have "unat (as_secs (nat (clk j)) div 60) = secs (clk j) div 60" for j
    using swc_window_word [of "clk j" "swc_new 1 60"] assms by (simp add: same_minute_def swc_new_def)
  then show "as_secs (nat (clk i)) div 60 = as_secs (nat (clk 0)) div 60"
    using assms by (simp add: word_unat_eq_iff same_minute_def)
qed

theorem swc_tests_pass:
  assumes "codec_roundtrip C" "same_minute clk"
  shows "swc_test_name \<and> swc_test_allows_up_to_max oc C clk \<and> swc_test_denies oc C clk \<and>
    swc_test_isolated oc C clk \<and> swc_test_cost oc C clk \<and> swc_test_remaining oc C clk"
proof (intro conjI)
  obtain wid where wid: "\<And>i. as_secs (nat (clk i)) div 60 = wid"
    using same_minute_word(2) [OF assms(2)] by blast
  note ready = assms(1) same_minute_word(1) [OF assms(2)] wid swc_test_wf
  note passes = swc_tests.test_passes [where wid = wid]
  show "swc_test_name" by (simp add: swc_test_name_def swc_name_def)
  show "swc_test_allows_up_to_max oc C clk"
    unfolding swc_test_allows_up_to_max_def by (rule passes) (use ready in \<open>auto simp: upt_rec\<close>)
  show "swc_test_denies oc C clk"
    unfolding swc_test_denies_def by (rule passes) (use ready in auto)
  show "swc_test_isolated oc C clk"
    unfolding swc_test_isolated_def by (rule passes) (use ready in auto)
  show "swc_test_cost oc C clk"
    unfolding swc_test_cost_def by (rule passes) (use ready in auto)
  show "swc_test_remaining oc C clk"
    unfolding swc_test_remaining_def by (rule passes) (use ready in auto)
qed

end
