(* ===== verification/Bucket_Tests.thy ===== *)
theory Bucket_Tests
  imports Test_Sessions Token_Bucket Text
begin

text \<open>
  The unit tests of \<open>token_bucket.rs\<close>, with the clock reading of each call as a parameter. They
  pass when the calls of a test come quickly one after another and its sleep is no shorter than
  asked for.
\<close>

section \<open>Bounds on the inflow\<close>

lemma dyadics:
  "representable (1 / 8)" "representable (1 / 16)" "representable (1 / 256)" "representable (3 / 32)"
  "representable (15 / 16)" "representable (5 / 4)" "representable 3"
proof -
  have *: "representable (of_int m * pow2 q)" if "\<bar>m\<bar> \<le> 2 ^ 53" "- 1074 \<le> q" for m q
    unfolding representable_def using that by blast
  show "representable (1 / 8)" "representable (1 / 16)" "representable (1 / 256)" "representable (3 / 32)"
    "representable (15 / 16)" "representable (5 / 4)" "representable 3"
    using * [of 1 "- 3"] * [of 1 "- 4"] * [of 1 "- 8"] * [of 3 "- 5"] * [of 15 "- 4"] * [of 5 "- 2"] * [of 3 0]
    by simp_all
qed

lemma gain_at_most:
  assumes "rate_ok rate" "diff < 2 ^ 62" "diff \<le> int n" "n \<le> 2 ^ 53"
    and "of_nat n / 1000 \<le> e" "representable e" "e * val rate \<le> g" "representable g"
  shows "val (bucket_gain diff rate) \<le> g"
proof -
  have "of_int (max diff 0) \<le> (of_nat n :: rat)"
    using assms(3) by (metis max.bounded_iff of_int_le_iff of_int_of_nat_eq of_nat_0_le_iff)
  then have "round_rat (of_int (max diff 0)) \<le> of_nat n"
    using representable_nat [OF assms(4)] by (intro round_rat_le)
  then have "round_rat (of_int (max diff 0)) / 1000 \<le> e" using assms(5) by (simp add: field_simps)
  then have "val (elapsed_secs diff) \<le> e"
    unfolding elapsed_secs_val(2) [OF assms(2)] by (rule round_rat_le [OF assms(6)])
  moreover have "0 \<le> val rate" using assms(1) by (simp add: rate_ok_def)
  ultimately have "val (elapsed_secs diff) * val rate \<le> g"
    using assms(7) by (meson mult_right_mono order_trans)
  then show ?thesis
    unfolding bucket_gain_val(2) [OF assms(1,2)] by (rule round_rat_le [OF assms(8)])
qed

lemma gain_at_least:
  assumes "rate_ok rate" "diff < 2 ^ 62" "int n \<le> diff" "n \<le> 2 ^ 53"
    and "e \<le> of_nat n / 1000" "representable e" "g \<le> e * val rate" "representable g"
  shows "g \<le> val (bucket_gain diff rate)"
proof -
  have "(of_nat n :: rat) \<le> of_int (max diff 0)"
    using assms(3) by (metis max.coboundedI1 of_int_le_iff of_int_of_nat_eq)
  then have "of_nat n \<le> round_rat (of_int (max diff 0))"
    using representable_nat [OF assms(4)] by (intro round_rat_ge)
  then have "e \<le> round_rat (of_int (max diff 0)) / 1000" using assms(5) by (simp add: field_simps)
  then have "e \<le> val (elapsed_secs diff)"
    unfolding elapsed_secs_val(2) [OF assms(2)] by (rule round_rat_ge [OF assms(6)])
  moreover have "0 \<le> val rate" using assms(1) by (simp add: rate_ok_def)
  ultimately have "g \<le> val (elapsed_secs diff) * val rate"
    using assms(7) by (meson mult_right_mono order_trans)
  then show ?thesis
    unfolding bucket_gain_val(2) [OF assms(1,2)] by (rule round_rat_ge [OF assms(8)])
qed

text \<open>The wait of a denial: the gap over the rate, in milliseconds.\<close>

lemma bucket_wait_positive:
  assumes "fin x" "fin y" "1 / 16 \<le> val x - val y" "val x - val y \<le> 8"
    and "fin r" "1 \<le> val r" "val r \<le> 10"
  shows "0 < f64_as_i64 (f64_mul (f64_div (f64_sub x y) r) (Num 1000))"
proof -
  have eight: "representable 8" using representable_int [of 8] by simp
  have "fits_f64 (val x - val y)" using assms(3,4) by (intro fits_f64_nonneg [of _ 3]) simp_all
  note s = f64_sub_fin [OF assms(1,2) this]
  have s': "1 / 16 \<le> val (f64_sub x y)" "val (f64_sub x y) \<le> 8"
    unfolding s(2) by (rule round_rat_ge [OF dyadics(2) assms(3)], rule round_rat_le [OF eight assms(4)])
  have "1 / 256 * val r \<le> 1 / 256 * 10" "8 * 1 \<le> 8 * val r" using assms(6,7) by simp_all
  then have q: "1 / 256 \<le> val (f64_sub x y) / val r" "val (f64_sub x y) / val r \<le> 8"
    using s' assms(6) by (simp_all add: pos_le_divide_eq pos_divide_le_eq)
  then have "0 \<le> val (f64_sub x y) / val r" by linarith
  with q(2) have "fits_f64 (val (f64_sub x y) / val r)" by (intro fits_f64_nonneg [of _ 3]) simp_all
  then have d: "fin (f64_div (f64_sub x y) r)" "val (f64_div (f64_sub x y) r) = round_rat (val (f64_sub x y) / val r)"
    using f64_div_fin [OF s(1) assms(5)] assms(6) by simp_all
  have d': "1 / 256 \<le> val (f64_div (f64_sub x y) r)" "val (f64_div (f64_sub x y) r) \<le> 8"
    unfolding d(2) by (rule round_rat_ge [OF dyadics(3) q(1)], rule round_rat_le [OF eight q(2)])
  then have t: "3 \<le> val (f64_div (f64_sub x y) r) * val (Num 1000)"
    "val (f64_div (f64_sub x y) r) * val (Num 1000) \<le> 2 ^ 13" by simp_all
  then have "fits_f64 (val (f64_div (f64_sub x y) r) * val (Num 1000))"
    by (intro fits_f64_nonneg [of _ 13]) simp_all
  note m = f64_mul_fin [OF d(1) fin_simps(4) this]
  let ?m = "f64_mul (f64_div (f64_sub x y) r) (Num 1000)"
  have v: "3 \<le> val ?m" "val ?m \<le> 2 ^ 13"
    unfolding m(2) using t round_small [of "val (f64_div (f64_sub x y) r) * val (Num 1000)" 13]
    by (simp_all add: round_rat_ge [OF dyadics(7)])
  then have "f64_as_i64 ?m = \<lfloor>val ?m\<rfloor>" by (intro f64_as_i64_small m(1)) simp_all
  moreover have "3 \<le> \<lfloor>val ?m\<rfloor>" using v(1) by (simp add: le_floor_iff)
  ultimately show ?thesis by simp
qed

section \<open>The reference state\<close>

text \<open>A key is followed by what it stores; a stored level is at most the capacity.\<close>

definition tb_ok :: "token_bucket \<Rightarrow> tb_state option \<Rightarrow> bool" where
  "tb_ok L st \<longleftrightarrow> tb_good L st \<and> (\<forall>s. st = Some s \<longrightarrow> val (tb_tokens s) \<le> val (tb_capacity L))"

definition tb_says :: "token_bucket \<Rightarrow> tb_state option \<Rightarrow> sys_time \<Rightarrow> u32 \<Rightarrow> decision \<Rightarrow> bool" where
  "tb_says L st t cost d \<longleftrightarrow>
     d_allowed d = tb_admits L st (msecs t) cost \<and>
     d_remaining d = f64_as_i64 (tb_after L st (msecs t, unat cost, d_allowed d)) \<and>
     (\<not> d_allowed d \<longrightarrow> d_retry_after_ms d = f64_as_i64 (f64_mul (f64_div
        (f64_sub (f64_of_u32 cost) (tb_level L st (msecs t))) (tb_refill_rate L)) (Num 1000)))"

definition tb_then :: "token_bucket \<Rightarrow> tb_state option \<Rightarrow> sys_time \<Rightarrow> u32 \<Rightarrow> tb_state option" where
  "tb_then L st t cost = Some
     \<lparr>tb_tokens = tb_after L st (msecs t, unat cost, tb_admits L st (msecs t) cost), tb_last_refill_ms = msecs t\<rparr>"

lemma tb_then_ok:
  assumes "tb_wf L" "tb_ok L st" "clock_ok t"
  shows "tb_ok L (tb_then L st t cost)"
proof -
  note now = msecs_range [OF assms(3)]
  have good: "tb_good L st" using assms(2) by (simp add: tb_ok_def)
  have "0 \<le> val (tb_capacity L)" using assms(1) by (simp add: tb_wf_def)
  with tb_after_bounds(1,2) [OF assms(1) good _ _ tb_admits_def, of "msecs t" cost] now show ?thesis
    by (simp add: tb_ok_def tb_then_def tb_good_def)
qed

interpretation tb_tests: tested_limiter
  "\<lambda>t cid res cost s. tb_check oc C local_ops L (quiet (\<lambda>_. t)) cid res cost s" tb_key "tb_plan oc C L"
  "conflict_decision (f64_as_i64 (tb_capacity L))"
  "\<lambda>st raw. tb_read C raw = st \<and> tb_ok L st" None
  "\<lambda>st t cost. tb_wf L \<and> codec_roundtrip C \<and> clock_ok t" "tb_says L" "tb_then L"
  for oc C L
proof (unfold_locales, goal_cases)
  case 1
  then show ?case by (simp add: tb_check_def)
next
  case (2 cid cid' res res')
  then show ?case by (simp add: tb_key_def append_sep_eq)
next
  case 3
  then show ?case by (simp add: tb_read_def tb_ok_def tb_good_def)
next
  case (4 st raw t cost)
  then have wf: "tb_wf L" "clock_ok t" and rt: "codec_roundtrip C" and good: "tb_good L (tb_read C raw)"
    and st: "tb_read C raw = st" "tb_ok L st" by (auto simp: tb_ok_def)
  obtain rsn where run: "planned (tb_plan oc C L cost) t raw =
    (let allowed = tb_admits L st (msecs t) cost;
         new = tb_after L st (msecs t, unat cost, allowed)
     in Inr (to_vec C \<lparr>tb_tokens = new, tb_last_refill_ms = msecs t\<rparr>,
          \<lparr>d_allowed = allowed, d_limit = f64_as_i64 (tb_capacity L), d_remaining = f64_as_i64 new,
           d_retry_after_ms = (if allowed then 0 else f64_as_i64 (f64_mul (f64_div
             (f64_sub (f64_of_u32 cost) (tb_level L st (msecs t))) (tb_refill_rate L)) (Num 1000))),
           d_reason = rsn\<rparr>))"
    using tb_plan_value [OF wf good, of oc cost, unfolded st(1)] by blast
  have "tb_read C (Some (to_vec C x)) = Some x" for x using rt by (simp add: tb_read_def codec_roundtrip_def)
  with run tb_then_ok [OF wf(1) st(2) wf(2), of cost] show ?case
    by (simp add: Let_def tb_says_def tb_then_def)
qed

section \<open>Levels\<close>

lemma tb_level_val:
  assumes wf: "tb_wf L" and ok: "tb_ok L (Some s)" and now: "now < 2 ^ 62"
  shows "val (tb_level L (Some s) now)
    = min (round_rat (val (tb_tokens s) + val (bucket_gain (now - tb_last_refill_ms s) (tb_refill_rate L))))
        (val (tb_capacity L))"
proof -
  let ?g = "bucket_gain (now - tb_last_refill_ms s) (tb_refill_rate L)"
  have cap: "proper (tb_capacity L)" "val (tb_capacity L) \<le> 2 ^ 53" and rate: "rate_ok (tb_refill_rate L)"
    using wf by (simp_all add: tb_wf_def)
  have s: "proper (tb_tokens s)" "0 \<le> val (tb_tokens s)" "val (tb_tokens s) \<le> val (tb_capacity L)"
    "0 \<le> tb_last_refill_ms s" using ok by (simp_all add: tb_ok_def tb_good_def level_ok_def)
  have "now - tb_last_refill_ms s < 2 ^ 62" using now s(4) by linarith
  note g = bucket_gain [OF rate this]
  have "fits_f64 (val (tb_tokens s) + val ?g)"
    using s cap g by (intro fits_f64_nonneg [of _ 116]) simp_all
  note add = f64_add_fin [OF proper_fin [OF s(1)] proper_fin [OF g(1)] this]
  show ?thesis
    using f64_min_fin [OF add(1) proper_fin [OF cap(1)]] add(2) by (simp add: tb_level_def Let_def)
qed

lemma tb_level_None: "tb_level L None now = tb_level L (Some \<lparr>tb_tokens = tb_capacity L, tb_last_refill_ms = now\<rparr>) now"
  by (simp add: tb_level_def Let_def)

text \<open>\<open>tb_at_least\<close>: the level a key has whenever it is asked.\<close>

definition tb_at_least :: "token_bucket \<Rightarrow> tb_state option \<Rightarrow> rat \<Rightarrow> bool" where
  "tb_at_least L st x \<longleftrightarrow> tb_ok L st \<and> representable x \<and> x \<le> val (tb_capacity L) \<and>
     (\<forall>s. st = Some s \<longrightarrow> x \<le> val (tb_tokens s))"

lemma tb_level_lower:
  assumes wf: "tb_wf L" and st: "tb_at_least L st x" and now: "0 \<le> now" "now < 2 ^ 62"
  shows "x \<le> val (tb_level L st now)"
proof -
  define s where "s = (case st of None \<Rightarrow> \<lparr>tb_tokens = tb_capacity L, tb_last_refill_ms = now\<rparr> | Some s \<Rightarrow> s)"
  have level: "tb_level L st now = tb_level L (Some s) now"
    by (simp add: s_def tb_level_None split: option.split)
  have "tb_ok L (Some s)" and x: "x \<le> val (tb_tokens s)"
    using st tb_cap_ok [OF wf] now
    by (auto simp: s_def tb_at_least_def tb_ok_def tb_good_def level_ok_def split: option.splits)
  note v = tb_level_val [OF wf this(1) now(2)]
  have "0 \<le> tb_last_refill_ms s" using \<open>tb_ok L (Some s)\<close> by (simp add: tb_ok_def tb_good_def)
  then have "now - tb_last_refill_ms s < 2 ^ 62" using now by linarith
  then have "0 \<le> val (bucket_gain (now - tb_last_refill_ms s) (tb_refill_rate L))"
    using wf by (intro bucket_gain(2)) (simp_all add: tb_wf_def)
  then have "x \<le> round_rat (val (tb_tokens s) + val (bucket_gain (now - tb_last_refill_ms s) (tb_refill_rate L)))"
    using st x by (intro round_rat_ge) (simp_all add: tb_at_least_def)
  with st show ?thesis unfolding level v by (simp add: tb_at_least_def)
qed

lemma tb_at_least_None: "tb_wf L \<Longrightarrow> tb_at_least L None (val (tb_capacity L))"
  by (simp add: tb_at_least_def tb_ok_def tb_good_def tb_wf_def proper_representable)

lemma tb_spend:
  assumes wf: "tb_wf L" and st: "tb_at_least L st x" and t: "clock_ok t"
    and cost: "of_nat (unat cost) \<le> x" "representable (x - of_nat (unat cost))"
  shows "tb_admits L st (msecs t) cost" and "tb_at_least L (tb_then L st t cost) (x - of_nat (unat cost))"
proof -
  note now = msecs_range [OF t]
  have ok: "tb_ok L st" "tb_good L st" using st by (simp_all add: tb_at_least_def tb_ok_def)
  have level: "x \<le> val (tb_level L st (msecs t))" using tb_level_lower [OF wf st] now by simp
  with cost(1) show admits: "tb_admits L st (msecs t) cost"
    using tb_admits_iff [OF wf ok(2), of "msecs t" cost] now by (simp add: order_trans del: of_nat_unat)
  have "val (tb_after L st (msecs t, unat cost, tb_admits L st (msecs t) cost))
      = round_rat (val (tb_level L st (msecs t)) - of_nat (unat cost))"
    using tb_after_val [OF wf ok(2), of "msecs t" cost, folded tb_admits_def] now admits by (simp del: of_nat_unat)
  moreover have "x - of_nat (unat cost) \<le> round_rat (val (tb_level L st (msecs t)) - of_nat (unat cost))"
    using level by (intro round_rat_ge [OF cost(2)]) (simp del: of_nat_unat)
  moreover have "x \<le> val (tb_capacity L)" using st by (simp add: tb_at_least_def)
  then have "x - of_nat (unat cost) \<le> val (tb_capacity L)"
    by (rule order_trans [rotated]) (simp del: of_nat_unat)
  ultimately show "tb_at_least L (tb_then L st t cost) (x - of_nat (unat cost))"
    using tb_then_ok [OF wf ok(1) t, of cost] cost(2) by (simp add: tb_at_least_def tb_then_def del: of_nat_unat)
qed

lemma tb_all_allowed:
  assumes wf: "tb_wf L" and clk: "\<And>i. clock_ok (clk i)" and "n \<le> 2 ^ 53"
  shows "expected (tb_says L) (tb_then L) A (map (\<lambda>i. (clk i, cid, res, 1)) is) ds \<Longrightarrow>
    tb_at_least L (A cid res) (of_nat n) \<Longrightarrow> length is \<le> n \<Longrightarrow> list_all d_allowed ds"
  using assms(3)
proof (induction "is" arbitrary: A ds n)
  case (Cons i "is")
  then obtain m where m: "n = Suc m" by (cases n) auto
  obtain d ds' where ds: "ds = d # ds'" and d: "tb_says L (A cid res) (clk i) 1 d"
    and more: "expected (tb_says L) (tb_then L)
      (A(cid := (A cid)(res := tb_then L (A cid res) (clk i) 1))) (map (\<lambda>i. (clk i, cid, res, 1)) is) ds'"
    using Cons.prems(1) by auto
  have "representable (of_nat n - of_nat (unat (1 :: u32)))"
    using representable_nat [of m] Cons.prems(4) by (simp add: m)
  moreover have "of_nat (unat (1 :: u32)) \<le> (of_nat n :: rat)" by (simp add: m)
  ultimately have "tb_admits L (A cid res) (msecs (clk i)) 1"
    "tb_at_least L (tb_then L (A cid res) (clk i) 1) (of_nat n - of_nat (unat (1 :: u32)))"
    using tb_spend [OF wf Cons.prems(2) clk, of 1 i] by blast+
  moreover from this(2) have "tb_at_least L (tb_then L (A cid res) (clk i) 1) (of_nat m)" by (simp add: m)
  ultimately show ?case
    using Cons.IH [OF more, of m] Cons.prems(3,4) d by (simp add: m ds tb_says_def)
qed simp

text \<open>The first request of a key, and a request soon or long after.\<close>

lemma tb_first_level:
  assumes wf: "tb_wf L" and t: "clock_ok t"
    and cost: "of_nat (unat cost) \<le> val (tb_capacity L)" "representable (val (tb_capacity L) - of_nat (unat cost))"
  shows "tb_admits L None (msecs t) cost"
    and "\<exists>x. tb_then L None t cost = Some \<lparr>tb_tokens = x, tb_last_refill_ms = msecs t\<rparr> \<and>
      tb_after L None (msecs t, unat cost, True) = x \<and> val x = val (tb_capacity L) - of_nat (unat cost)"
proof -
  note now = msecs_range [OF t]
  have good: "tb_good L None" by (simp add: tb_good_def)
  have level: "val (tb_level L None (msecs t)) = val (tb_capacity L)"
    using tb_level_lower [OF wf tb_at_least_None [OF wf], of "msecs t"] tb_level_bounds(2) [OF wf good, of "msecs t"] now
    by simp
  show admits: "tb_admits L None (msecs t) cost"
    by (rule tb_spend(1) [OF wf tb_at_least_None [OF wf] t cost])
  show "\<exists>x. tb_then L None t cost = Some \<lparr>tb_tokens = x, tb_last_refill_ms = msecs t\<rparr> \<and>
      tb_after L None (msecs t, unat cost, True) = x \<and> val x = val (tb_capacity L) - of_nat (unat cost)"
    using tb_after_val [OF wf good, of "msecs t" cost, folded tb_admits_def] now admits level
    by (simp add: tb_then_def round_rat_representable [OF cost(2)] del: of_nat_unat)
qed

lemma tb_level_soon:
  assumes wf: "tb_wf L" and ok: "tb_ok L (Some s)" and now: "now < 2 ^ 62"
    and "val (tb_tokens s) = 0" "val (bucket_gain (now - tb_last_refill_ms s) (tb_refill_rate L)) \<le> y" "representable y"
  shows "val (tb_level L (Some s) now) \<le> y"
  using assms(4,5) round_rat_le [OF assms(6), of "val (bucket_gain (now - tb_last_refill_ms s) (tb_refill_rate L))"]
  by (simp add: tb_level_val [OF wf ok now])

lemma tb_level_later:
  assumes wf: "tb_wf L" and ok: "tb_ok L (Some s)" and now: "now < 2 ^ 62"
    and "y \<le> val (bucket_gain (now - tb_last_refill_ms s) (tb_refill_rate L))" "y \<le> val (tb_capacity L)" "representable y"
  shows "y \<le> val (tb_level L (Some s) now)"
proof -
  have "0 \<le> val (tb_tokens s)" using ok by (simp add: tb_ok_def tb_good_def level_ok_def)
  then have "y \<le> round_rat (val (tb_tokens s) + val (bucket_gain (now - tb_last_refill_ms s) (tb_refill_rate L)))"
    using assms(4) by (intro round_rat_ge [OF assms(6)]) simp
  with assms(5) show ?thesis by (simp add: tb_level_val [OF wf ok now])
qed

section \<open>The tests\<close>

definition tb_tester :: "bool \<Rightarrow> tb_state codec \<Rightarrow> f64 \<Rightarrow> f64 \<Rightarrow> checker" where
  "tb_tester oc C cap rate t cid res cost s = tb_check oc C local_ops (tb_new cap rate) (quiet (\<lambda>_. t)) cid res cost s"

definition tb_test_name :: bool where
  "tb_test_name \<longleftrightarrow> tb_name = ''token_bucket''"

definition tb_test_allows_up_to_capacity :: "bool \<Rightarrow> tb_state codec \<Rightarrow> (nat \<Rightarrow> sys_time) \<Rightarrow> bool" where
  "tb_test_allows_up_to_capacity oc C clk \<longleftrightarrow>
     test (tb_tester oc C (Num 10) (Num 1)) (map (\<lambda>i. (clk i, ''c1'', ''r'', 1)) [0..<10]) (list_all d_allowed)"

definition tb_test_denies :: "bool \<Rightarrow> tb_state codec \<Rightarrow> (nat \<Rightarrow> sys_time) \<Rightarrow> bool" where
  "tb_test_denies oc C clk \<longleftrightarrow>
     test (tb_tester oc C (Num 3) (Num 1)) [(clk 0, ''c1'', ''r'', 3), (clk 1, ''c1'', ''r'', 1)]
       (\<lambda>ds. case ds of [_, d] \<Rightarrow> \<not> d_allowed d \<and> 0 < d_retry_after_ms d | _ \<Rightarrow> False)"

definition tb_test_refill :: "bool \<Rightarrow> tb_state codec \<Rightarrow> (nat \<Rightarrow> sys_time) \<Rightarrow> bool" where
  \<comment> \<open>the sleep before the last call is in the readings\<close>
  "tb_test_refill oc C clk \<longleftrightarrow>
     test (tb_tester oc C (Num 5) (Num 10))
       [(clk 0, ''c1'', ''r'', 5), (clk 1, ''c1'', ''r'', 1), (clk 2, ''c1'', ''r'', 1)]
       (\<lambda>ds. case ds of [_, d1, d2] \<Rightarrow> \<not> d_allowed d1 \<and> d_allowed d2 | _ \<Rightarrow> False)"

definition tb_test_isolated :: "bool \<Rightarrow> tb_state codec \<Rightarrow> (nat \<Rightarrow> sys_time) \<Rightarrow> bool" where
  "tb_test_isolated oc C clk \<longleftrightarrow>
     test (tb_tester oc C (Num 2) (Num 1)) [(clk 0, ''a'', ''r'', 2), (clk 1, ''b'', ''r'', 1)]
       (\<lambda>ds. case ds of [_, d] \<Rightarrow> d_allowed d | _ \<Rightarrow> False)"

definition tb_test_cost :: "bool \<Rightarrow> tb_state codec \<Rightarrow> (nat \<Rightarrow> sys_time) \<Rightarrow> bool" where
  "tb_test_cost oc C clk \<longleftrightarrow>
     test (tb_tester oc C (Num 5) (Num 1)) [(clk 0, ''c1'', ''r'', 6)]
       (\<lambda>ds. case ds of [d] \<Rightarrow> \<not> d_allowed d | _ \<Rightarrow> False)"

definition tb_test_remaining :: "bool \<Rightarrow> tb_state codec \<Rightarrow> (nat \<Rightarrow> sys_time) \<Rightarrow> bool" where
  "tb_test_remaining oc C clk \<longleftrightarrow>
     test (tb_tester oc C (Num 10) (Num 0)) [(clk 0, ''c1'', ''r'', 3), (clk 1, ''c1'', ''r'', 3)]
       (\<lambda>ds. case ds of [d1, d2] \<Rightarrow> d_remaining d2 < d_remaining d1 | _ \<Rightarrow> False)"

section \<open>They pass\<close>

lemma tb_test_wf:
  assumes "cap \<in> {2, 3, 5, 10}" "rate \<in> {0, 1, 10}"
  shows "tb_wf (tb_new (Num cap) (Num rate))"
proof -
  have "representable cap" "representable rate"
    using assms representable_nat [of 10] representable_nat [of 5] representable_nat [of 3] representable_nat [of 2]
      representable_nat [of 1] representable_nat [of 0] by auto
  with assms show ?thesis by (auto simp: tb_wf_def tb_new_def rate_ok_def proper_Num)
qed

lemma tb_new_fields [simp]: "tb_capacity (tb_new c r) = c" "tb_refill_rate (tb_new c r) = r"
  by (simp_all add: tb_new_def)

lemma tb_test_passes:
  assumes "codec_roundtrip C" "\<And>i. clock_ok (clk i)" "tb_wf (tb_new cap rate)" "length cs < 2 ^ 61"
    and "\<And>c. c \<in> set cs \<Longrightarrow> CHR ''/'' \<notin> set (fst (snd c)) \<and> fst c \<in> range clk"
    and "\<And>ds. expected (tb_says (tb_new cap rate)) (tb_then (tb_new cap rate)) (\<lambda>_ _. None) cs ds \<Longrightarrow> assertions ds"
  shows "test (tb_tester oc C cap rate) cs assertions"
proof -
  have readied: "readied (\<lambda>st t cost. tb_wf (tb_new cap rate) \<and> codec_roundtrip C \<and> clock_ok t) after A cs" for after A
    using assms(1-3,5) by (intro readied_all) fastforce
  have "tb_tester oc C cap rate = (\<lambda>t cid res cost s. tb_check oc C local_ops (tb_new cap rate) (quiet (\<lambda>_. t)) cid res cost s)"
    by (simp add: tb_tester_def fun_eq_iff)
  with tb_tests.test_passes [OF readied] assms(4-6) show ?thesis by simp
qed

lemma tb_test_allows_passes:
  assumes "codec_roundtrip C" "\<And>i. clock_ok (clk i)"
  shows "tb_test_allows_up_to_capacity oc C clk"
proof -
  have wf: "tb_wf (tb_new (Num 10) (Num 1))" by (rule tb_test_wf) simp_all
  have full: "tb_at_least (tb_new (Num 10) (Num 1)) None (of_nat 10)" using tb_at_least_None [OF wf] by simp
  show ?thesis
    unfolding tb_test_allows_up_to_capacity_def
  proof (rule tb_test_passes [OF assms wf])
    fix ds
    assume "expected (tb_says (tb_new (Num 10) (Num 1))) (tb_then (tb_new (Num 10) (Num 1))) (\<lambda>_ _. None)
      (map (\<lambda>i. (clk i, ''c1'', ''r'', 1)) [0..<10]) ds"
    from tb_all_allowed [OF wf assms(2) _ this full] show "list_all d_allowed ds" by simp
  qed auto
qed

lemma tb_test_isolated_passes:
  assumes "codec_roundtrip C" "\<And>i. clock_ok (clk i)"
  shows "tb_test_isolated oc C clk"
proof -
  have wf: "tb_wf (tb_new (Num 2) (Num 1))" by (rule tb_test_wf) simp_all
  have "tb_admits (tb_new (Num 2) (Num 1)) None (msecs (clk 1)) 1"
    using representable_nat [of 1] by (intro tb_first_level(1) [OF wf assms(2)]) simp_all
  then show ?thesis
    unfolding tb_test_isolated_def by (intro tb_test_passes [OF assms wf]) (auto simp: tb_says_def)
qed

lemma tb_test_cost_passes:
  assumes "codec_roundtrip C" "\<And>i. clock_ok (clk i)"
  shows "tb_test_cost oc C clk"
proof -
  have wf: "tb_wf (tb_new (Num 5) (Num 1))" by (rule tb_test_wf) simp_all
  have good: "tb_good (tb_new (Num 5) (Num 1)) None" by (simp add: tb_good_def)
  have "val (tb_level (tb_new (Num 5) (Num 1)) None (msecs (clk 0))) \<le> 5"
    using tb_level_bounds(2) [OF wf good, of "msecs (clk 0)"] msecs_range [OF assms(2), of 0] by simp
  then have "\<not> tb_admits (tb_new (Num 5) (Num 1)) None (msecs (clk 0)) 6"
    using tb_admits_iff [OF wf good, of "msecs (clk 0)" 6] msecs_range [OF assms(2), of 0] by simp
  then show ?thesis
    unfolding tb_test_cost_def by (intro tb_test_passes [OF assms wf]) (auto simp: tb_says_def)
qed

lemma tb_soon_denied:
  assumes wf: "tb_wf L" and ok: "tb_ok L (Some s)" and now: "0 \<le> now" "now < 2 ^ 62"
    and "val (tb_tokens s) = 0" "val (bucket_gain (now - tb_last_refill_ms s) (tb_refill_rate L)) \<le> 15 / 16"
    and r: "1 \<le> val (tb_refill_rate L)" "val (tb_refill_rate L) \<le> 10"
  shows "\<not> tb_admits L (Some s) now 1"
    and "0 < f64_as_i64 (f64_mul (f64_div (f64_sub (f64_of_u32 1) (tb_level L (Some s) now)) (tb_refill_rate L)) (Num 1000))"
proof -
  have good: "tb_good L (Some s)" using ok by (simp add: tb_ok_def)
  have level: "val (tb_level L (Some s) now) \<le> 15 / 16"
    by (rule tb_level_soon [OF wf ok now(2) assms(5,6) dyadics(5)])
  then show "\<not> tb_admits L (Some s) now 1" using tb_admits_iff [OF wf good now, of 1] by simp
  have l: "level_ok (tb_level L (Some s) now)" by (rule tb_level_bounds(1) [OF wf good now])
  have "fin (tb_refill_rate L)" using wf by (simp add: tb_wf_def rate_ok_def proper_def)
  then show "0 < f64_as_i64 (f64_mul (f64_div (f64_sub (f64_of_u32 1) (tb_level L (Some s) now)) (tb_refill_rate L)) (Num 1000))"
    using l level f64_of_u32_exact [of 1] r
    by (intro bucket_wait_positive) (simp_all add: level_ok_def proper_def)
qed

lemma tb_test_denies_passes:
  assumes "codec_roundtrip C" "\<And>i. clock_ok (clk i)" "msecs (clk 1) \<le> msecs (clk 0) + 900"
  shows "tb_test_denies oc C clk"
proof -
  let ?L = "tb_new (Num 3) (Num 1)"
  have wf: "tb_wf ?L" by (rule tb_test_wf) simp_all
  note now = msecs_range [OF assms(2), of 1] msecs_range [OF assms(2), of 0]
  obtain x where x: "tb_then ?L None (clk 0) 3 = Some \<lparr>tb_tokens = x, tb_last_refill_ms = msecs (clk 0)\<rparr>" "val x = 0"
    using tb_first_level(2) [OF wf assms(2) [of 0], of 3] representable_nat [of 0] by auto
  have ok: "tb_ok ?L (Some \<lparr>tb_tokens = x, tb_last_refill_ms = msecs (clk 0)\<rparr>)"
    using tb_then_ok [OF wf _ assms(2) [of 0], of None 3] by (simp add: x(1) tb_ok_def tb_good_def)
  have "val (bucket_gain (msecs (clk 1) - msecs (clk 0)) (Num 1)) \<le> 15 / 16"
    using wf now assms(3) by (intro gain_at_most [where n = 900 and e = "15 / 16"]) (simp_all add: tb_wf_def dyadics)
  then have "\<not> tb_admits ?L (tb_then ?L None (clk 0) 3) (msecs (clk 1)) 1 \<and>
    0 < f64_as_i64 (f64_mul (f64_div (f64_sub (f64_of_u32 1) (tb_level ?L (tb_then ?L None (clk 0) 3) (msecs (clk 1)))) (Num 1)) (Num 1000))"
    using tb_soon_denied [OF wf ok, of "msecs (clk 1)"] now x by simp
  then show ?thesis
    unfolding tb_test_denies_def by (intro tb_test_passes [OF assms(1,2) wf]) (auto simp: tb_says_def)
qed

lemma tb_test_refill_passes:
  assumes "codec_roundtrip C" "\<And>i. clock_ok (clk i)" "msecs (clk 1) \<le> msecs (clk 0) + 90" "msecs (clk 1) + 150 \<le> msecs (clk 2)"
  shows "tb_test_refill oc C clk"
proof -
  let ?L = "tb_new (Num 5) (Num 10)"
  have wf: "tb_wf ?L" by (rule tb_test_wf) simp_all
  note now = msecs_range [OF assms(2), of 1] msecs_range [OF assms(2), of 0] msecs_range [OF assms(2), of 2]
  obtain x where x: "tb_then ?L None (clk 0) 5 = Some \<lparr>tb_tokens = x, tb_last_refill_ms = msecs (clk 0)\<rparr>" "val x = 0"
    using tb_first_level(2) [OF wf assms(2) [of 0], of 5] representable_nat [of 0] by auto
  let ?a = "tb_then ?L None (clk 0) 5"
  have ok: "tb_ok ?L ?a" by (rule tb_then_ok [OF wf _ assms(2)]) (simp add: tb_ok_def tb_good_def)
  have "val (bucket_gain (msecs (clk 1) - msecs (clk 0)) (Num 10)) \<le> 15 / 16"
    using wf now assms(3) by (intro gain_at_most [where n = 90 and e = "3 / 32"]) (simp_all add: tb_wf_def dyadics)
  then have denied: "\<not> tb_admits ?L ?a (msecs (clk 1)) 1"
    using tb_soon_denied(1) [OF wf ok [unfolded x(1)], of "msecs (clk 1)"] now x by simp
  obtain y where y: "tb_then ?L ?a (clk 1) 1 = Some \<lparr>tb_tokens = y, tb_last_refill_ms = msecs (clk 1)\<rparr>"
    by (simp add: tb_then_def)
  have ok': "tb_ok ?L (tb_then ?L ?a (clk 1) 1)" by (rule tb_then_ok [OF wf ok assms(2)])
  have "5 / 4 \<le> val (bucket_gain (msecs (clk 2) - msecs (clk 1)) (Num 10))"
    using wf now assms(4) by (intro gain_at_least [where n = 150 and e = "1 / 8"]) (simp_all add: tb_wf_def dyadics)
  then have "5 / 4 \<le> val (tb_level ?L (tb_then ?L ?a (clk 1) 1) (msecs (clk 2)))"
    unfolding y using ok' [unfolded y] now by (intro tb_level_later [OF wf]) (simp_all add: dyadics)
  then have "tb_admits ?L (tb_then ?L ?a (clk 1) 1) (msecs (clk 2)) 1"
    using tb_admits_iff [OF wf, of "tb_then ?L ?a (clk 1) 1" "msecs (clk 2)" 1] ok' now by (simp add: tb_ok_def)
  with denied show ?thesis
    unfolding tb_test_refill_def by (intro tb_test_passes [OF assms(1,2) wf]) (auto simp: tb_says_def)
qed

lemma tb_test_remaining_passes:
  assumes "codec_roundtrip C" "\<And>i. clock_ok (clk i)"
  shows "tb_test_remaining oc C clk"
proof -
  let ?L = "tb_new (Num 10) (Num 0)"
  have wf: "tb_wf ?L" by (rule tb_test_wf) simp_all
  note now = msecs_range [OF assms(2), of 1] msecs_range [OF assms(2), of 0]
  have seven: "representable 7" using representable_nat [of 7] by simp
  have first: "tb_admits ?L None (msecs (clk 0)) 3"
    by (rule tb_first_level(1) [OF wf assms(2)]) (simp_all add: seven)
  obtain x where x: "tb_then ?L None (clk 0) 3 = Some \<lparr>tb_tokens = x, tb_last_refill_ms = msecs (clk 0)\<rparr>"
    "tb_after ?L None (msecs (clk 0), 3, True) = x" "val x = 7"
    using tb_first_level(2) [OF wf assms(2) [of 0], of 3] seven by auto
  let ?a = "tb_then ?L None (clk 0) 3"
  have ok: "tb_ok ?L ?a" by (rule tb_then_ok [OF wf _ assms(2)]) (simp add: tb_ok_def tb_good_def)
  have good: "tb_good ?L ?a" using ok by (simp add: tb_ok_def)
  have rx: "f64_as_i64 x = 7"
    using ok x by (subst f64_as_i64_small) (simp_all add: tb_ok_def tb_good_def level_ok_def proper_def)
  have gain: "val (bucket_gain (msecs (clk 1) - msecs (clk 0)) (Num 0)) = 0"
    using wf now by (subst bucket_gain_val(2)) (simp_all add: tb_wf_def round_rat_representable representable_nat [of 0, simplified])
  have level: "val (tb_level ?L ?a (msecs (clk 1))) = 7"
    unfolding x(1) using now gain x(3) round_rat_representable [OF seven]
    by (subst tb_level_val [OF wf ok [unfolded x(1)]]) simp_all
  then have admits: "tb_admits ?L ?a (msecs (clk 1)) 3"
    using tb_admits_iff [OF wf good, of "msecs (clk 1)" 3] now by simp
  have "val (tb_after ?L ?a (msecs (clk 1), 3, True)) = 4"
    using tb_after_val [OF wf good, of "msecs (clk 1)" 3, folded tb_admits_def] now admits level
      round_rat_representable [OF representable_nat [of 4]] by simp
  moreover have "fin (tb_after ?L ?a (msecs (clk 1), 3, True))"
    using tb_after_bounds(1) [OF wf good _ _ tb_admits_def, of "msecs (clk 1)" 3] now admits
    by (simp add: level_ok_def proper_def)
  ultimately have "f64_as_i64 (tb_after ?L ?a (msecs (clk 1), 3, True)) = 4"
    by (subst f64_as_i64_small) simp_all
  with admits first rx x(2) show ?thesis
    unfolding tb_test_remaining_def by (intro tb_test_passes [OF assms wf]) (auto simp: tb_says_def)
qed

theorem tb_tests_pass:
  assumes "codec_roundtrip C" "\<And>i. clock_ok (clk i)"
  shows "tb_test_name \<and> tb_test_allows_up_to_capacity oc C clk \<and> tb_test_isolated oc C clk \<and>
    tb_test_cost oc C clk \<and> tb_test_remaining oc C clk"
    and "msecs (clk 1) \<le> msecs (clk 0) + 900 \<Longrightarrow> tb_test_denies oc C clk"
    and "msecs (clk 1) \<le> msecs (clk 0) + 90 \<Longrightarrow> msecs (clk 1) + 150 \<le> msecs (clk 2) \<Longrightarrow> tb_test_refill oc C clk"
  using tb_test_allows_passes [OF assms] tb_test_isolated_passes [OF assms] tb_test_cost_passes [OF assms]
    tb_test_remaining_passes [OF assms] tb_test_denies_passes [OF assms] tb_test_refill_passes [OF assms]
  by (simp_all add: tb_test_name_def tb_name_def)

end
