(* ===== verification/Queue_Tests.thy ===== *)
theory Queue_Tests
  imports Bucket_Tests Leaky_Bucket
begin

text \<open>
  The unit tests of \<open>leaky_bucket.rs\<close>, with the clock reading of each call as a parameter, under
  the same timing as those of the token bucket.
\<close>

section \<open>The reference state\<close>

definition lb_says :: "leaky_bucket \<Rightarrow> lb_state option \<Rightarrow> sys_time \<Rightarrow> u32 \<Rightarrow> decision \<Rightarrow> bool" where
  "lb_says L st t cost d \<longleftrightarrow>
     d_allowed d = lb_admits L st (msecs t) cost \<and>
     d_remaining d = f64_as_i64 (f64_sub (lb_cap L) (lb_after L st (msecs t, unat cost, d_allowed d))) \<and>
     (\<not> d_allowed d \<longrightarrow> d_retry_after_ms d = f64_as_i64 (f64_mul (f64_div (f64_sub
        (f64_add (lb_queue L st (msecs t)) (f64_of_u32 cost)) (lb_cap L)) (lb_leak_rate L)) (Num 1000)))"

definition lb_then :: "leaky_bucket \<Rightarrow> lb_state option \<Rightarrow> sys_time \<Rightarrow> u32 \<Rightarrow> lb_state option" where
  "lb_then L st t cost = Some
     \<lparr>lb_depth = lb_after L st (msecs t, unat cost, lb_admits L st (msecs t) cost), lb_last_leak_ms = msecs t\<rparr>"

lemma lb_then_good:
  assumes "lb_wf L" "lb_good st" "clock_ok t"
  shows "lb_good (lb_then L st t cost)"
  using lb_after_bounds(1) [OF assms(1,2) _ _ refl, of "msecs t" cost] msecs_range [OF assms(3)]
  by (simp add: lb_then_def lb_good_def)

interpretation lb_tests: tested_limiter
  "\<lambda>t cid res cost s. lb_check oc C local_ops L (quiet (\<lambda>_. t)) cid res cost s" lb_key "lb_plan oc C L"
  "conflict_decision (u64_as_i64 (lb_capacity L))"
  "\<lambda>st raw. lb_read C raw = st \<and> lb_good st" None
  "\<lambda>st t cost. lb_wf L \<and> codec_roundtrip C \<and> clock_ok t" "lb_says L" "lb_then L"
  for oc C L
proof (unfold_locales, goal_cases)
  case 1
  then show ?case by (simp add: lb_check_def)
next
  case (2 cid cid' res res')
  then show ?case by (simp add: lb_key_def append_sep_eq)
next
  case 3
  then show ?case by (simp add: lb_read_def lb_good_def)
next
  case (4 st raw t cost)
  then have wf: "lb_wf L" "clock_ok t" and rt: "codec_roundtrip C" and good: "lb_good (lb_read C raw)"
    and st: "lb_read C raw = st" "lb_good st" by auto
  obtain rsn where run: "planned (lb_plan oc C L cost) t raw =
    (let allowed = lb_admits L st (msecs t) cost;
         depth = lb_after L st (msecs t, unat cost, allowed)
     in Inr (to_vec C \<lparr>lb_depth = depth, lb_last_leak_ms = msecs t\<rparr>,
          \<lparr>d_allowed = allowed, d_limit = u64_as_i64 (lb_capacity L),
           d_remaining = f64_as_i64 (f64_sub (lb_cap L) depth),
           d_retry_after_ms = (if allowed then 0 else f64_as_i64 (f64_mul (f64_div (f64_sub
             (f64_add (lb_queue L st (msecs t)) (f64_of_u32 cost)) (lb_cap L)) (lb_leak_rate L)) (Num 1000))),
           d_reason = rsn\<rparr>))"
    using lb_plan_value [OF wf good, of oc cost, unfolded st(1)] by blast
  have "lb_read C (Some (to_vec C x)) = Some x" for x using rt by (simp add: lb_read_def codec_roundtrip_def)
  with run lb_then_good [OF wf(1) st(2) wf(2), of cost] show ?case
    by (simp add: Let_def lb_says_def lb_then_def)
qed

section \<open>Depths\<close>

lemma lb_queue_upper:
  assumes "lb_wf L" "lb_good (Some s)" "now < 2 ^ 62"
    and "y \<le> val (bucket_gain (now - lb_last_leak_ms s) (lb_leak_rate L))"
    and "val (lb_depth s) - y \<le> z" "representable z" "0 \<le> z"
  shows "val (lb_queue L (Some s) now) \<le> z"
proof -
  have "round_rat (val (lb_depth s) - val (bucket_gain (now - lb_last_leak_ms s) (lb_leak_rate L))) \<le> z"
    using assms(4,5) by (intro round_rat_le [OF assms(6)]) linarith
  with assms lb_queue_val(2) [OF assms(1), of s now] show ?thesis by (simp add: lb_good_def)
qed

lemma lb_queue_lower:
  assumes "lb_wf L" "lb_good (Some s)" "now < 2 ^ 62"
    and "val (bucket_gain (now - lb_last_leak_ms s) (lb_leak_rate L)) \<le> y"
    and "z \<le> val (lb_depth s) - y" "representable z"
  shows "z \<le> val (lb_queue L (Some s) now)"
proof -
  have "z \<le> round_rat (val (lb_depth s) - val (bucket_gain (now - lb_last_leak_ms s) (lb_leak_rate L)))"
    using assms(4,5) by (intro round_rat_ge [OF assms(6)]) linarith
  with assms(1-3) lb_queue_val(2) [OF assms(1), of s now] show ?thesis by (simp add: lb_good_def)
qed

text \<open>\<open>lb_at_most\<close>: the depth a key has whenever it is asked.\<close>

definition lb_at_most :: "lb_state option \<Rightarrow> rat \<Rightarrow> bool" where
  "lb_at_most st x \<longleftrightarrow> lb_good st \<and> representable x \<and> 0 \<le> x \<and> (\<forall>s. st = Some s \<longrightarrow> val (lb_depth s) \<le> x)"

lemma lb_at_most_None: "lb_at_most None 0"
  using representable_int [of 0] by (simp add: lb_at_most_def lb_good_def)

lemma lb_at_most_queue:
  assumes wf: "lb_wf L" and st: "lb_at_most st x" and now: "0 \<le> now" "now < 2 ^ 62"
  shows "val (lb_queue L st now) \<le> x"
proof -
  define s where "s = (case st of None \<Rightarrow> \<lparr>lb_depth = Num 0, lb_last_leak_ms = now\<rparr> | Some s \<Rightarrow> s)"
  have queue: "lb_queue L st now = lb_queue L (Some s) now"
    by (simp add: s_def lb_queue_None split: option.split)
  have s: "lb_good (Some s)" "val (lb_depth s) \<le> x"
    using st now representable_int [of 0]
    by (auto simp: s_def lb_at_most_def lb_good_def level_ok_def proper_Num split: option.splits)
  then have "now - lb_last_leak_ms s < 2 ^ 62" using now by (simp add: lb_good_def)
  then have "0 \<le> val (bucket_gain (now - lb_last_leak_ms s) (lb_leak_rate L))"
    using wf by (intro bucket_gain(2)) (simp_all add: lb_wf_def)
  then show ?thesis
    unfolding queue using st s by (intro lb_queue_upper [OF wf s(1) now(2), of 0]) (simp_all add: lb_at_most_def)
qed

lemma lb_fill:
  assumes wf: "lb_wf L" and st: "lb_at_most st x" and t: "clock_ok t"
    and cost: "x + of_nat (unat cost) \<le> lb_max L" "representable (x + of_nat (unat cost))"
  shows "lb_admits L st (msecs t) cost" and "lb_at_most (lb_then L st t cost) (x + of_nat (unat cost))"
proof -
  note now = msecs_range [OF t]
  have good: "lb_good st" and x: "0 \<le> x" using st by (simp_all add: lb_at_most_def)
  have "val (lb_queue L st (msecs t)) + of_nat (unat cost) \<le> x + of_nat (unat cost)"
    using lb_at_most_queue [OF wf st] now by simp
  then have le: "round_rat (val (lb_queue L st (msecs t)) + of_nat (unat cost)) \<le> x + of_nat (unat cost)"
    by (rule round_rat_le [OF cost(2)])
  with cost(1) show admits: "lb_admits L st (msecs t) cost"
    using lb_admits_iff [OF wf good, of "msecs t" cost] now by (simp del: of_nat_unat)
  have "0 \<le> x + of_nat (unat cost)" using x by (intro add_nonneg_nonneg of_nat_0_le_iff)
  then show "lb_at_most (lb_then L st t cost) (x + of_nat (unat cost))"
    using lb_then_good [OF wf good t, of cost] lb_after_val(2) [OF wf good _ _ refl, of "msecs t" cost] now admits le cost(2)
    by (simp add: lb_at_most_def lb_then_def del: of_nat_unat)
qed

lemma lb_all_allowed:
  assumes wf: "lb_wf L" and clk: "\<And>i. clock_ok (clk i)"
  shows "expected (lb_says L) (lb_then L) A (map (\<lambda>i. (clk i, cid, res, 1)) is) ds \<Longrightarrow>
    lb_at_most (A cid res) (of_nat n) \<Longrightarrow> n + length is \<le> unat (lb_capacity L) \<Longrightarrow> list_all d_allowed ds"
proof (induction "is" arbitrary: A ds n)
  case (Cons i "is")
  obtain d ds' where ds: "ds = d # ds'" and d: "lb_says L (A cid res) (clk i) 1 d"
    and more: "expected (lb_says L) (lb_then L)
      (A(cid := (A cid)(res := lb_then L (A cid res) (clk i) 1))) (map (\<lambda>i. (clk i, cid, res, 1)) is) ds'"
    using Cons.prems(1) by auto
  have n: "Suc n \<le> unat (lb_capacity L)" "Suc n \<le> 2 ^ 53" using Cons.prems(3) wf by (simp_all add: lb_wf_def)
  have "of_nat (Suc n) \<le> lb_max L" unfolding lb_max_def of_nat_le_iff by (rule n(1))
  then have "lb_admits L (A cid res) (msecs (clk i)) 1"
    "lb_at_most (lb_then L (A cid res) (clk i) 1) (of_nat n + of_nat (unat (1 :: u32)))"
    using lb_fill [OF wf Cons.prems(2) clk, of 1 i] representable_nat [OF n(2)] by (simp_all add: add.commute)
  moreover from this(2) have "lb_at_most (lb_then L (A cid res) (clk i) 1) (of_nat (Suc n))" by (simp add: add.commute)
  ultimately show ?case
    using Cons.IH [OF more, of "Suc n"] Cons.prems(3) d by (simp add: ds lb_says_def)
qed simp

lemma lb_first_depth:
  assumes wf: "lb_wf L" and t: "clock_ok t"
    and cost: "of_nat (unat cost) \<le> lb_max L"
  shows "lb_admits L None (msecs t) cost"
    and "\<exists>x. lb_then L None t cost = Some \<lparr>lb_depth = x, lb_last_leak_ms = msecs t\<rparr> \<and>
      lb_after L None (msecs t, unat cost, True) = x \<and> val x = of_nat (unat cost)"
proof -
  note now = msecs_range [OF t]
  have good: "lb_good None" by (simp add: lb_good_def)
  have "unat cost \<le> 2 ^ 53" using unsigned_less [where w = cost and ?'a = nat] by simp
  then have r: "representable (of_nat (unat cost))" by (rule representable_nat)
  have zero: "val (lb_queue L None (msecs t)) = 0"
    using lb_at_most_queue [OF wf lb_at_most_None, of "msecs t"] lb_queue_bounds(1) [OF wf good, of "msecs t"] now
    by (simp add: level_ok_def)
  show admits: "lb_admits L None (msecs t) cost"
    using lb_fill(1) [OF wf lb_at_most_None t, of cost] cost r by (simp del: of_nat_unat)
  show "\<exists>x. lb_then L None t cost = Some \<lparr>lb_depth = x, lb_last_leak_ms = msecs t\<rparr> \<and>
      lb_after L None (msecs t, unat cost, True) = x \<and> val x = of_nat (unat cost)"
    using lb_after_val(2) [OF wf good _ _ refl, of "msecs t" cost] now admits zero round_rat_representable [OF r]
    by (simp add: lb_then_def del: of_nat_unat)
qed

section \<open>The tests\<close>

definition lb_tester :: "bool \<Rightarrow> lb_state codec \<Rightarrow> f64 \<Rightarrow> u64 \<Rightarrow> checker" where
  "lb_tester oc C rate cap t cid res cost s = lb_check oc C local_ops (lb_new rate cap) (quiet (\<lambda>_. t)) cid res cost s"

definition lb_test_name :: bool where
  "lb_test_name \<longleftrightarrow> lb_name = ''leaky_bucket''"

definition lb_test_allows_up_to_capacity :: "bool \<Rightarrow> lb_state codec \<Rightarrow> (nat \<Rightarrow> sys_time) \<Rightarrow> bool" where
  "lb_test_allows_up_to_capacity oc C clk \<longleftrightarrow>
     test (lb_tester oc C (Num 1) 5) (map (\<lambda>i. (clk i, ''c1'', ''r'', 1)) [0..<5]) (list_all d_allowed)"

definition lb_test_denies :: "bool \<Rightarrow> lb_state codec \<Rightarrow> (nat \<Rightarrow> sys_time) \<Rightarrow> bool" where
  "lb_test_denies oc C clk \<longleftrightarrow>
     test (lb_tester oc C (Num 1) 3) [(clk 0, ''c1'', ''r'', 3), (clk 1, ''c1'', ''r'', 1)]
       (\<lambda>ds. case ds of [_, d] \<Rightarrow> \<not> d_allowed d \<and> 0 < d_retry_after_ms d | _ \<Rightarrow> False)"

definition lb_test_leaks :: "bool \<Rightarrow> lb_state codec \<Rightarrow> (nat \<Rightarrow> sys_time) \<Rightarrow> bool" where
  \<comment> \<open>the sleep before the last call is in the readings\<close>
  "lb_test_leaks oc C clk \<longleftrightarrow>
     test (lb_tester oc C (Num 10) 3)
       [(clk 0, ''c1'', ''r'', 3), (clk 1, ''c1'', ''r'', 1), (clk 2, ''c1'', ''r'', 1)]
       (\<lambda>ds. case ds of [_, d1, d2] \<Rightarrow> \<not> d_allowed d1 \<and> d_allowed d2 | _ \<Rightarrow> False)"

definition lb_test_isolated :: "bool \<Rightarrow> lb_state codec \<Rightarrow> (nat \<Rightarrow> sys_time) \<Rightarrow> bool" where
  "lb_test_isolated oc C clk \<longleftrightarrow>
     test (lb_tester oc C (Num 1) 2) [(clk 0, ''a'', ''r'', 2), (clk 1, ''b'', ''r'', 1)]
       (\<lambda>ds. case ds of [_, d] \<Rightarrow> d_allowed d | _ \<Rightarrow> False)"

definition lb_test_remaining :: "bool \<Rightarrow> lb_state codec \<Rightarrow> (nat \<Rightarrow> sys_time) \<Rightarrow> bool" where
  "lb_test_remaining oc C clk \<longleftrightarrow>
     test (lb_tester oc C (Num 1) 5) [(clk 0, ''c1'', ''r'', 2)]
       (\<lambda>ds. case ds of [d] \<Rightarrow> d_allowed d \<and> d_remaining d = 3 | _ \<Rightarrow> False)"

section \<open>They pass\<close>

lemma lb_new_fields [simp]: "lb_capacity (lb_new r c) = c" "lb_leak_rate (lb_new r c) = r" "lb_max (lb_new r c) = of_nat (unat c)"
  by (simp_all add: lb_new_def lb_max_def)

lemma lb_test_wf:
  assumes "rate \<in> {1, 10}" "cap \<in> {2, 3, 5}"
  shows "lb_wf (lb_new (Num rate) cap)"
proof -
  have "representable rate" using assms(1) representable_nat [of 10] representable_nat [of 1] by auto
  with assms show ?thesis by (auto simp: lb_wf_def rate_ok_def proper_Num)
qed

lemma lb_test_passes:
  assumes "codec_roundtrip C" "\<And>i. clock_ok (clk i)" "lb_wf (lb_new rate cap)" "length cs < 2 ^ 61"
    and "\<And>c. c \<in> set cs \<Longrightarrow> CHR ''/'' \<notin> set (fst (snd c)) \<and> fst c \<in> range clk"
    and "\<And>ds. expected (lb_says (lb_new rate cap)) (lb_then (lb_new rate cap)) (\<lambda>_ _. None) cs ds \<Longrightarrow> assertions ds"
  shows "test (lb_tester oc C rate cap) cs assertions"
proof -
  have readied: "readied (\<lambda>st t cost. lb_wf (lb_new rate cap) \<and> codec_roundtrip C \<and> clock_ok t) after A cs" for after A
    using assms(1-3,5) by (intro readied_all) fastforce
  have "lb_tester oc C rate cap = (\<lambda>t cid res cost s. lb_check oc C local_ops (lb_new rate cap) (quiet (\<lambda>_. t)) cid res cost s)"
    by (simp add: lb_tester_def fun_eq_iff)
  with lb_tests.test_passes [OF readied] assms(4-6) show ?thesis by simp
qed

lemma lb_test_allows_passes:
  assumes "codec_roundtrip C" "\<And>i. clock_ok (clk i)"
  shows "lb_test_allows_up_to_capacity oc C clk"
proof -
  have wf: "lb_wf (lb_new (Num 1) 5)" by (rule lb_test_wf) simp_all
  have empty: "lb_at_most None (of_nat 0)" using lb_at_most_None by simp
  show ?thesis
    unfolding lb_test_allows_up_to_capacity_def
  proof (rule lb_test_passes [OF assms wf])
    fix ds
    assume "expected (lb_says (lb_new (Num 1) 5)) (lb_then (lb_new (Num 1) 5)) (\<lambda>_ _. None)
      (map (\<lambda>i. (clk i, ''c1'', ''r'', 1)) [0..<5]) ds"
    from lb_all_allowed [OF wf assms(2) this empty] show "list_all d_allowed ds" by simp
  qed auto
qed

lemma lb_test_isolated_passes:
  assumes "codec_roundtrip C" "\<And>i. clock_ok (clk i)"
  shows "lb_test_isolated oc C clk"
proof -
  have wf: "lb_wf (lb_new (Num 1) 2)" by (rule lb_test_wf) simp_all
  have "lb_admits (lb_new (Num 1) 2) None (msecs (clk 1)) 1"
    by (intro lb_first_depth(1) [OF wf assms(2)]) simp
  then show ?thesis
    unfolding lb_test_isolated_def by (intro lb_test_passes [OF assms wf]) (auto simp: lb_says_def)
qed

lemma lb_test_remaining_passes:
  assumes "codec_roundtrip C" "\<And>i. clock_ok (clk i)"
  shows "lb_test_remaining oc C clk"
proof -
  let ?L = "lb_new (Num 1) 5"
  have wf: "lb_wf ?L" by (rule lb_test_wf) simp_all
  have first: "lb_admits ?L None (msecs (clk 0)) 2" by (rule lb_first_depth(1) [OF wf assms(2)]) simp
  obtain x where x: "lb_after ?L None (msecs (clk 0), 2, True) = x" "val x = 2"
    using lb_first_depth(2) [OF wf assms(2) [of 0], of 2] by auto
  have "level_ok x"
    using lb_after_bounds(1) [OF wf _ _ _ refl, of None "msecs (clk 0)" 2] msecs_range [OF assms(2), of 0] first x(1)
    by (simp add: lb_good_def)
  moreover have cap: "fin (lb_cap ?L)" "val (lb_cap ?L) = 5" using lb_cap_exact [OF wf] by (simp_all add: proper_def)
  moreover have "fits_f64 3" by (rule fits_f64_nonneg [of _ 2]) simp_all
  ultimately have "fin (f64_sub (lb_cap ?L) x)" "val (f64_sub (lb_cap ?L) x) = 3"
    using f64_sub_fin [of "lb_cap ?L" x] x(2) round_rat_representable [OF dyadics(7)]
    by (simp_all add: level_ok_def proper_def)
  then have "f64_as_i64 (f64_sub (lb_cap ?L) x) = 3" by (subst f64_as_i64_small) simp_all
  with first x(1) show ?thesis
    unfolding lb_test_remaining_def by (intro lb_test_passes [OF assms wf]) (auto simp: lb_says_def)
qed

text \<open>A request that finds a nearly full queue of three.\<close>

lemma queue_dyadics: "representable (33 / 16)" "representable (49 / 16)" "representable (7 / 4)"
proof -
  have *: "representable (of_int m * pow2 q)" if "\<bar>m\<bar> \<le> 2 ^ 53" "- 1074 \<le> q" for m q
    unfolding representable_def using that by blast
  show "representable (33 / 16)" "representable (49 / 16)" "representable (7 / 4)"
    using * [of 33 "- 4"] * [of 49 "- 4"] * [of 7 "- 2"] by simp_all
qed

lemma lb_soon_denied:
  assumes wf: "lb_wf (lb_new rate 3)" and good: "lb_good (Some s)" and now: "0 \<le> now" "now < 2 ^ 62"
    and d: "val (lb_depth s) = 3" and gain: "val (bucket_gain (now - lb_last_leak_ms s) rate) \<le> 15 / 16"
    and r: "1 \<le> val rate" "val rate \<le> 10"
  shows "\<not> lb_admits (lb_new rate 3) (Some s) now 1" and "val (lb_queue (lb_new rate 3) (Some s) now) \<le> 3"
    and "0 < f64_as_i64 (f64_mul (f64_div (f64_sub (f64_add (lb_queue (lb_new rate 3) (Some s) now) (f64_of_u32 1))
      (lb_cap (lb_new rate 3))) rate) (Num 1000))"
proof -
  let ?L = "lb_new rate 3" and ?q = "lb_queue (lb_new rate 3) (Some s) now"
  have q: "fin ?q" "0 \<le> val ?q" using lb_queue_bounds(1) [OF wf good now] by (simp_all add: level_ok_def proper_def)
  have low: "33 / 16 \<le> val ?q"
    using gain d by (intro lb_queue_lower [OF wf good now(2), of "15 / 16"]) (simp_all add: queue_dyadics)
  have "representable 3" by (rule dyadics)
  with good d show up: "val ?q \<le> 3"
    by (intro lb_at_most_queue [OF wf _ now]) (simp_all add: lb_at_most_def)
  have one: "fin (f64_of_u32 1)" "val (f64_of_u32 1) = 1" using f64_of_u32_exact [of 1] by simp_all
  have "fits_f64 (val ?q + val (f64_of_u32 1))" using q(2) up one(2) by (intro fits_f64_nonneg [of _ 3]) simp_all
  note add = f64_add_fin [OF q(1) one(1) this]
  have four: "representable 4" using representable_nat [of 4] by simp
  have sum: "49 / 16 \<le> val (f64_add ?q (f64_of_u32 1))" "val (f64_add ?q (f64_of_u32 1)) \<le> 4"
    unfolding add(2) one(2)
    by (rule round_rat_ge [OF queue_dyadics(2)], use low in linarith) (rule round_rat_le [OF four], use up in linarith)
  have cap: "fin (lb_cap ?L)" "val (lb_cap ?L) = 3" using lb_cap_exact [OF wf] by (simp_all add: proper_def)
  show "\<not> lb_admits ?L (Some s) now 1"
    using lb_admits_iff [OF wf good now, of 1] sum(1) by (simp add: add(2) one(2))
  have "fin rate" using wf by (simp add: lb_wf_def rate_ok_def proper_def)
  then show "0 < f64_as_i64 (f64_mul (f64_div (f64_sub (f64_add ?q (f64_of_u32 1)) (lb_cap ?L)) rate) (Num 1000))"
    using sum r by (intro bucket_wait_positive add(1) cap(1)) (simp_all add: cap(2))
qed

lemma lb_test_denies_passes:
  assumes "codec_roundtrip C" "\<And>i. clock_ok (clk i)" "msecs (clk 1) \<le> msecs (clk 0) + 900"
  shows "lb_test_denies oc C clk"
proof -
  let ?L = "lb_new (Num 1) 3"
  have wf: "lb_wf ?L" by (rule lb_test_wf) simp_all
  note now = msecs_range [OF assms(2), of 1] msecs_range [OF assms(2), of 0]
  obtain x where x: "lb_then ?L None (clk 0) 3 = Some \<lparr>lb_depth = x, lb_last_leak_ms = msecs (clk 0)\<rparr>" "val x = 3"
    using lb_first_depth(2) [OF wf assms(2) [of 0], of 3] by auto
  have good: "lb_good (Some \<lparr>lb_depth = x, lb_last_leak_ms = msecs (clk 0)\<rparr>)"
    using lb_then_good [OF wf _ assms(2) [of 0], of None 3] by (simp add: x(1) lb_good_def)
  have "val (bucket_gain (msecs (clk 1) - msecs (clk 0)) (Num 1)) \<le> 15 / 16"
    using wf now assms(3) by (intro gain_at_most [where n = 900 and e = "15 / 16"]) (simp_all add: lb_wf_def dyadics)
  then show ?thesis
    unfolding lb_test_denies_def
    using lb_soon_denied(1,3) [OF wf good, of "msecs (clk 1)"] now x
    by (intro lb_test_passes [OF assms(1,2) wf]) (auto simp: lb_says_def)
qed

lemma lb_test_leaks_passes:
  assumes "codec_roundtrip C" "\<And>i. clock_ok (clk i)" "msecs (clk 1) \<le> msecs (clk 0) + 90" "msecs (clk 1) + 150 \<le> msecs (clk 2)"
  shows "lb_test_leaks oc C clk"
proof -
  let ?L = "lb_new (Num 10) 3"
  have wf: "lb_wf ?L" by (rule lb_test_wf) simp_all
  note now = msecs_range [OF assms(2), of 1] msecs_range [OF assms(2), of 0] msecs_range [OF assms(2), of 2]
  obtain x where x: "lb_then ?L None (clk 0) 3 = Some \<lparr>lb_depth = x, lb_last_leak_ms = msecs (clk 0)\<rparr>" "val x = 3"
    using lb_first_depth(2) [OF wf assms(2) [of 0], of 3] by auto
  let ?a = "lb_then ?L None (clk 0) 3"
  have good: "lb_good ?a" by (rule lb_then_good [OF wf _ assms(2)]) (simp add: lb_good_def)
  have "val (bucket_gain (msecs (clk 1) - msecs (clk 0)) (Num 10)) \<le> 15 / 16"
    using wf now assms(3) by (intro gain_at_most [where n = 90 and e = "3 / 32"]) (simp_all add: lb_wf_def dyadics)
  then have denied: "\<not> lb_admits ?L ?a (msecs (clk 1)) 1" and q: "val (lb_queue ?L ?a (msecs (clk 1))) \<le> 3"
    using lb_soon_denied(1,2) [OF wf good [unfolded x(1)], of "msecs (clk 1)"] now x by simp_all
  define y where "y = lb_queue ?L ?a (msecs (clk 1))"
  have y: "lb_then ?L ?a (clk 1) 1 = Some \<lparr>lb_depth = y, lb_last_leak_ms = msecs (clk 1)\<rparr>" "val y \<le> 3"
    using denied q by (simp_all add: lb_then_def [of _ ?a] lb_after_def [of _ ?a] y_def)
  have good': "lb_good (lb_then ?L ?a (clk 1) 1)" by (rule lb_then_good [OF wf good assms(2)])
  have "5 / 4 \<le> val (bucket_gain (msecs (clk 2) - msecs (clk 1)) (Num 10))"
    using wf now assms(4) by (intro gain_at_least [where n = 150 and e = "1 / 8"]) (simp_all add: lb_wf_def dyadics)
  then have "val (lb_queue ?L (lb_then ?L ?a (clk 1) 1) (msecs (clk 2))) \<le> 7 / 4"
    unfolding y(1) using good' [unfolded y(1)] now y(2)
    by (intro lb_queue_upper [OF wf, of _ _ "5 / 4"]) (simp_all add: queue_dyadics)
  then have "round_rat (val (lb_queue ?L (lb_then ?L ?a (clk 1) 1) (msecs (clk 2))) + 1) \<le> 3"
    by (intro round_rat_le [OF dyadics(7)]) simp
  then have "lb_admits ?L (lb_then ?L ?a (clk 1) 1) (msecs (clk 2)) 1"
    using lb_admits_iff [OF wf good', of "msecs (clk 2)" 1] now by simp
  with denied show ?thesis
    unfolding lb_test_leaks_def by (intro lb_test_passes [OF assms(1,2) wf]) (auto simp: lb_says_def)
qed

theorem lb_tests_pass:
  assumes "codec_roundtrip C" "\<And>i. clock_ok (clk i)"
  shows "lb_test_name \<and> lb_test_allows_up_to_capacity oc C clk \<and> lb_test_isolated oc C clk \<and> lb_test_remaining oc C clk"
    and "msecs (clk 1) \<le> msecs (clk 0) + 900 \<Longrightarrow> lb_test_denies oc C clk"
    and "msecs (clk 1) \<le> msecs (clk 0) + 90 \<Longrightarrow> msecs (clk 1) + 150 \<le> msecs (clk 2) \<Longrightarrow> lb_test_leaks oc C clk"
  using lb_test_allows_passes [OF assms] lb_test_isolated_passes [OF assms]
    lb_test_remaining_passes [OF assms] lb_test_denies_passes [OF assms] lb_test_leaks_passes [OF assms]
  by (simp_all add: lb_test_name_def lb_name_def)

end
